(* ===== verification/Prelude.thy ===== *)
theory Prelude
  imports Main "HOL-Library.Word"
begin

text \<open>
  Shared base of the xv6 development: the C integer types, the byte-level memory and the
  little-endian layout of integers in it, and the state-and-outcome monad in which kernel
  code is written, with its weakest-precondition calculus.

  A kernel function is a state transformer that ends in one of five ways: it returns
  (\<open>Ret\<close>), it calls \<open>panic\<close> (\<open>Panic\<close>), its thread gives up the CPU in \<open>sched\<close>
  (\<open>Asleep\<close>, with the state at that moment), it accesses an array out of its bounds or a
  null pointer, which C leaves undefined (\<open>Undef\<close>), or a loop that the model bounds by fuel
  ran out of it (\<open>OutOfFuel\<close>). \<open>wp m Q s\<close> says that \<open>m\<close>, started in \<open>s\<close>, returns
  normally and its result and final state satisfy \<open>Q\<close>: a total-correctness statement that
  excludes the other four outcomes.
\<close>

unbundle bit_operations_syntax

type_synonym u8 = "8 word"
type_synonym u16 = "16 word"
type_synonym u32 = "32 word"
type_synonym u64 = "64 word"

named_theorems wp_simps \<open>weakest preconditions of the primitive statements\<close>
named_theorems layout \<open>where bytes and words end up in memory or in a block\<close>

section \<open>Outcomes and statements\<close>

datatype ('a, 's) outcome = Ret 'a 's | Panic string | Asleep 's | Undef string | OutOfFuel

type_synonym ('a, 's) stmt = "'s \<Rightarrow> ('a, 's) outcome"

definition returnK :: "'a \<Rightarrow> ('a, 's) stmt" where
  "returnK a = (\<lambda>s. Ret a s)"

definition panicK :: "string \<Rightarrow> ('a, 's) stmt" where
  "panicK msg = (\<lambda>s. Panic msg)"

definition asleepK :: "('a, 's) stmt" where
  "asleepK = (\<lambda>s. Asleep s)"

definition undefK :: "string \<Rightarrow> ('a, 's) stmt" where
  "undefK msg = (\<lambda>s. Undef msg)"

definition no_fuelK :: "('a, 's) stmt" where
  "no_fuelK = (\<lambda>s. OutOfFuel)"

definition getsK :: "('s \<Rightarrow> 'a) \<Rightarrow> ('a, 's) stmt" where
  "getsK f = (\<lambda>s. Ret (f s) s)"

definition modifyK :: "('s \<Rightarrow> 's) \<Rightarrow> (unit, 's) stmt" where
  "modifyK f = (\<lambda>s. Ret () (f s))"

definition bindK :: "('a, 's) stmt \<Rightarrow> ('a \<Rightarrow> ('b, 's) stmt) \<Rightarrow> ('b, 's) stmt" where
  "bindK m f = (\<lambda>s. case m s of
      Ret a s' \<Rightarrow> f a s'
    | Panic msg \<Rightarrow> Panic msg
    | Asleep s' \<Rightarrow> Asleep s'
    | Undef msg \<Rightarrow> Undef msg
    | OutOfFuel \<Rightarrow> OutOfFuel)"

text \<open>A C block of statements without results, run one after the other.\<close>

primrec blockK :: "(unit, 's) stmt list \<Rightarrow> (unit, 's) stmt" where
  "blockK [] = returnK ()"
| "blockK (m # ms) = bindK m (\<lambda>_. blockK ms)"

text \<open>\<open>m; return a;\<close>\<close>

definition thenK :: "(unit, 's) stmt \<Rightarrow> ('a, 's) stmt \<Rightarrow> ('a, 's) stmt" where
  "thenK m k = bindK m (\<lambda>_. k)"

definition whenK :: "bool \<Rightarrow> (unit, 's) stmt \<Rightarrow> (unit, 's) stmt" where
  "whenK b m = (if b then m else returnK ())"

text \<open>A \<open>for\<close> loop over a fixed list of indices, without early exit.\<close>

primrec forK :: "'i list \<Rightarrow> ('i \<Rightarrow> (unit, 's) stmt) \<Rightarrow> (unit, 's) stmt" where
  "forK [] f = returnK ()"
| "forK (i # is) f = bindK (f i) (\<lambda>_. forK is f)"

section \<open>Weakest preconditions\<close>

definition wp :: "('a, 's) stmt \<Rightarrow> ('a \<Rightarrow> 's \<Rightarrow> bool) \<Rightarrow> 's \<Rightarrow> bool" where
  "wp m Q s = (case m s of Ret a s' \<Rightarrow> Q a s' | _ \<Rightarrow> False)"

lemma wp_iff: "wp m Q s \<longleftrightarrow> (\<exists>a s'. m s = Ret a s' \<and> Q a s')"
  by (auto simp: wp_def split: outcome.splits)

lemma wpE:
  assumes "wp m Q s"
  obtains a s' where "m s = Ret a s'" and "Q a s'"
  using assms by (auto simp: wp_iff)

lemma wp_Ret: "m s = Ret a s' \<Longrightarrow> wp m Q s = Q a s'"
  by (simp add: wp_def)

lemma wp_mono: "wp m Q s \<Longrightarrow> (\<And>a s'. Q a s' \<Longrightarrow> R a s') \<Longrightarrow> wp m R s"
  by (auto simp: wp_iff)

lemma wp_return [wp_simps, simp]: "wp (returnK a) Q = Q a"
  by (simp add: fun_eq_iff wp_def returnK_def)

lemma wp_panic [wp_simps, simp]: "wp (panicK msg) Q s = False"
  by (simp add: wp_def panicK_def)

lemma wp_asleep [wp_simps, simp]: "wp asleepK Q s = False"
  by (simp add: wp_def asleepK_def)

lemma wp_undef [wp_simps, simp]: "wp (undefK msg) Q s = False"
  by (simp add: wp_def undefK_def)

lemma wp_no_fuel [wp_simps, simp]: "wp no_fuelK Q s = False"
  by (simp add: wp_def no_fuelK_def)

lemma wp_gets [wp_simps, simp]: "wp (getsK f) Q s = Q (f s) s"
  by (simp add: wp_def getsK_def)

lemma wp_modify [wp_simps, simp]: "wp (modifyK f) Q s = Q () (f s)"
  by (simp add: wp_def modifyK_def)

lemma wp_bind [wp_simps, simp]: "wp (bindK m f) Q = wp m (\<lambda>a. wp (f a) Q)"
  by (simp add: fun_eq_iff wp_def bindK_def split: outcome.splits)

lemma wp_then [wp_simps, simp]: "wp (thenK m k) Q = wp m (\<lambda>_. wp k Q)"
  by (simp add: thenK_def)

lemma wp_when [wp_simps, simp]: "wp (whenK b m) Q s = (if b then wp m Q s else Q () s)"
  by (simp add: whenK_def)

lemma wp_block_Nil [wp_simps, simp]: "wp (blockK []) Q = Q ()"
  by simp

lemma wp_block_Cons [wp_simps, simp]:
  "wp (blockK (m # ms)) Q = wp m (\<lambda>_. wp (blockK ms) Q)"
  by simp

lemma wp_if [wp_simps, simp]:
  "wp (if b then m else k) Q s = (if b then wp m Q s else wp k Q s)"
  by simp

lemma wp_let [wp_simps, simp]: "wp (Let v f) Q = wp (f v) Q"
  by (simp add: Let_def)

lemma wp_case_option [wp_simps]:
  "wp (case x of None \<Rightarrow> m | Some y \<Rightarrow> k y) Q s
     = (case x of None \<Rightarrow> wp m Q s | Some y \<Rightarrow> wp (k y) Q s)"
  by (simp split: option.split)

lemma wp_case_prod [wp_simps, simp]:
  "wp (case x of (a, b) \<Rightarrow> k a b) Q s = (case x of (a, b) \<Rightarrow> wp (k a b) Q s)"
  by (simp split: prod.split)

text \<open>
  The loop rule of \<open>forK\<close>: an invariant indexed by the elements already visited.
\<close>

lemma wp_forK:
  assumes "I [] s"
    and "\<And>done x rest s. xs = done @ x # rest \<Longrightarrow> I done s
           \<Longrightarrow> wp (f x) (\<lambda>_. I (done @ [x])) s"
  shows "wp (forK xs f) (\<lambda>_. I xs) s"
proof -
  have "wp (forK ys f) (\<lambda>_. I xs) t" if "xs = zs @ ys" "I zs t" for zs ys t
    using that
  proof (induction ys arbitrary: zs t)
    case Nil
    then show ?case by simp
  next
    case (Cons y ys)
    from assms(2) [OF Cons.prems(1) Cons.prems(2)]
    have "wp (f y) (\<lambda>_. I (zs @ [y])) t" .
    then show ?case
      using Cons.IH [of "zs @ [y]"] Cons.prems(1) by (auto elim!: wp_mono)
  qed
  from this [of "[]" xs s] assms(1) show ?thesis by simp
qed

text \<open>For loops over an interval, what has been visited at index \<open>i\<close>.\<close>

lemma upt_split:
  assumes "[0..<n] = xs @ i # ys"
  shows "i < n \<and> xs = [0..<i]"
proof -
  have len: "length xs < n" using arg_cong [OF assms, of length] by simp
  have "[0..<n] ! length xs = i" by (simp add: assms)
  then have i: "i = length xs" using len by simp
  have "take i [0..<n] = xs" by (simp add: assms i)
  then show ?thesis using len i by (simp add: take_upt)
qed

text \<open>Running a statement: which outcome it has, for the error branches.\<close>

lemmas run_simps =
  returnK_def panicK_def asleepK_def undefK_def no_fuelK_def getsK_def modifyK_def bindK_def
  thenK_def whenK_def

section \<open>Little-endian integers\<close>

lemma unat_u8_lt: "unat (b :: u8) < 256"
  using unsigned_less [of b] by simp

lemma unat_u64_lt: "unat (w :: u64) < 18446744073709551616"
  using unsigned_less [of w] by simp

lemma unat_u32_lt: "unat (w :: u32) < 4294967296"
  using unsigned_less [of w] by simp

primrec le_nat :: "u8 list \<Rightarrow> nat" where
  "le_nat [] = 0"
| "le_nat (b # bs) = unat b + 256 * le_nat bs"

primrec le_bytes :: "nat \<Rightarrow> nat \<Rightarrow> u8 list" where
  "le_bytes 0 k = []"
| "le_bytes (Suc n) k = of_nat (k mod 256) # le_bytes n (k div 256)"

lemma length_le_bytes [simp]: "length (le_bytes n k) = n"
  by (induction n arbitrary: k) auto

lemma le_nat_bound: "le_nat bs < 256 ^ length bs"
proof (induction bs)
  case (Cons b bs)
  with unat_u8_lt [of b] show ?case by simp
qed simp

lemma le_nat_le_bytes: "le_nat (le_bytes n k) = k mod 256 ^ n"
proof (induction n arbitrary: k)
  case (Suc n)
  have "unat (of_nat (k mod 256) :: u8) = k mod 256"
    by (simp add: unat_of_nat)
  with Suc show ?case by (simp add: mod_mult2_eq)
qed simp

lemma le_bytes_le_nat: "le_bytes (length bs) (le_nat bs) = bs"
proof (induction bs)
  case (Cons b bs)
  with unat_u8_lt [of b] show ?case by simp
qed simp

lemma le_nat_replicate_0 [simp]: "le_nat (replicate n 0) = 0"
  by (induction n) auto

section \<open>Byte memory\<close>

type_synonym memory = "u64 \<Rightarrow> u8"

definition read_bytes :: "memory \<Rightarrow> u64 \<Rightarrow> nat \<Rightarrow> u8 list" where
  "read_bytes m a n = map (\<lambda>i. m (a + of_nat i)) [0..<n]"

definition write_bytes :: "memory \<Rightarrow> u64 \<Rightarrow> u8 list \<Rightarrow> memory" where
  "write_bytes m a bs = (\<lambda>x. if unat (x - a) < length bs then bs ! unat (x - a) else m x)"

definition load64 :: "memory \<Rightarrow> u64 \<Rightarrow> u64" where
  "load64 m a = of_nat (le_nat (read_bytes m a 8))"

definition store64 :: "memory \<Rightarrow> u64 \<Rightarrow> u64 \<Rightarrow> memory" where
  "store64 m a w = write_bytes m a (le_bytes 8 (unat w))"

lemma unat_diff_iff: "unat (x - a :: u64) = i \<longleftrightarrow> i < 2 ^ 64 \<and> x = a + of_nat i"
proof
  assume *: "unat (x - a) = i"
  then have "x - a = of_nat i" by auto
  with * unat_u64_lt [of "x - a"] show "i < 2 ^ 64 \<and> x = a + of_nat i"
    by (auto simp: algebra_simps)
next
  assume "i < 2 ^ 64 \<and> x = a + of_nat i"
  then show "unat (x - a) = i" by (auto simp: unat_of_nat)
qed

lemma unat_add_u64: "unat (a :: u64) + unat b < 2 ^ 64 \<Longrightarrow> unat (a + b) = unat a + unat b"
  by (simp add: unat_word_ariths)

lemma unat_of_nat_u64: "i < 2 ^ 64 \<Longrightarrow> unat (of_nat i :: u64) = i"
  by (simp add: unat_of_nat)

lemma unat_offset_u64: "unat (a :: u64) + i < 2 ^ 64 \<Longrightarrow> unat (a + of_nat i) = unat a + i"
  by (subst unat_add_u64) (auto simp: unat_of_nat_u64)

lemma length_read_bytes [simp]: "length (read_bytes m a n) = n"
  by (simp add: read_bytes_def)

lemma read_bytes_0 [simp]: "read_bytes m a 0 = []"
  by (simp add: read_bytes_def)

lemma write_bytes_Nil [simp]: "write_bytes m a [] = m"
  by (simp add: write_bytes_def)

lemma read_bytes_Suc: "read_bytes m a (Suc n) = m a # read_bytes m (a + 1) n"
  by (simp add: read_bytes_def upt_conv_Cons map_Suc_upt [symmetric] comp_def algebra_simps
      del: upt_Suc)

lemma read_bytes_snoc: "read_bytes m a (Suc n) = read_bytes m a n @ [m (a + of_nat n)]"
  by (simp add: read_bytes_def)

lemma write_bytes_Cons:
  assumes "length bs < 2 ^ 64"
  shows "write_bytes m a (b # bs) = write_bytes (m(a := b)) (a + 1) bs"
proof (rule ext)
  fix x
  show "write_bytes m a (b # bs) x = write_bytes (m(a := b)) (a + 1) bs x"
  proof (cases "x = a")
    case True
    have "unat (a - (a + 1)) = 2 ^ 64 - 1" 
      by (simp add: unsigned_minus_1_eq_mask mask_eq_exp_minus_1)
    with True assms show ?thesis by (simp add: write_bytes_def)
  next
    case False
    then have pos: "0 < unat (x - a)" by (simp add: unat_gt_0)
    have "x - a = of_nat (unat (x - a))" by simp
    then have "x - (a + 1) = of_nat (unat (x - a) - 1)"
      using pos by (simp add: algebra_simps)
    then have "unat (x - (a + 1)) = unat (x - a) - 1"
      using unat_u64_lt [of "x - a"] by (simp add: unat_of_nat)
    with pos False show ?thesis
      by (cases "unat (x - a)") (auto simp: write_bytes_def)
  qed
qed

lemma write_bytes_snoc:
  assumes "length bs < 2 ^ 64"
  shows "write_bytes m a (bs @ [b]) = write_bytes (m(a + of_nat (length bs) := b)) a bs"
proof (rule ext)
  fix x
  have "x = a + of_nat (length bs) \<longleftrightarrow> unat (x - a) = length bs"
    using assms by (simp add: unat_diff_iff)
  then show "write_bytes m a (bs @ [b]) x
      = write_bytes (m(a + of_nat (length bs) := b)) a bs x"
    by (auto simp: write_bytes_def nth_append)
qed

lemma read_write_bytes_same:
  assumes "length bs < 2 ^ 64"
  shows "read_bytes (write_bytes m a bs) a (length bs) = bs"
proof (rule nth_equalityI)
  fix i assume "i < length (read_bytes (write_bytes m a bs) a (length bs))"
  then have i: "i < length bs" by simp
  with assms have "unat (of_nat i :: u64) = i" by (simp add: unat_of_nat)
  with i show "read_bytes (write_bytes m a bs) a (length bs) ! i = bs ! i"
    by (simp add: read_bytes_def write_bytes_def)
qed simp

lemma read_bytes_cong:
  "(\<And>i. i < n \<Longrightarrow> m (a + of_nat i) = m' (a + of_nat i)) \<Longrightarrow> read_bytes m a n = read_bytes m' a n"
  by (simp add: read_bytes_def)

lemma load64_cong:
  "(\<And>i. i < 8 \<Longrightarrow> m (a + of_nat i) = m' (a + of_nat i)) \<Longrightarrow> load64 m a = load64 m' a"
  unfolding load64_def by (subst read_bytes_cong [of 8 m a m']) auto

lemma load64_store64_same [layout]: "load64 (store64 m a w) a = w"
proof -
  have "unat w < 256 ^ 8" using unat_u64_lt [of w] by simp
  moreover have "read_bytes (write_bytes m a (le_bytes 8 (unat w))) a 8 = le_bytes 8 (unat w)"
    using read_write_bytes_same [of "le_bytes 8 (unat w)" m a] by simp
  ultimately show ?thesis
    by (simp add: load64_def store64_def le_nat_le_bytes)
qed

section \<open>Fields of a byte block\<close>

text \<open>
  \<open>get_field n d off\<close> is the \<open>n\<close>-byte little-endian integer at offset \<open>off\<close> of the block
  \<open>d\<close>; \<open>put_field\<close> overwrites it.
\<close>

definition splice :: "'a list \<Rightarrow> nat \<Rightarrow> 'a list \<Rightarrow> 'a list" where
  "splice d off bs = take off d @ bs @ drop (off + length bs) d"

definition get_field :: "nat \<Rightarrow> u8 list \<Rightarrow> nat \<Rightarrow> nat" where
  "get_field n d off = le_nat (take n (drop off d))"

definition put_field :: "nat \<Rightarrow> u8 list \<Rightarrow> nat \<Rightarrow> nat \<Rightarrow> u8 list" where
  "put_field n d off k = splice d off (le_bytes n k)"

lemma length_splice [simp]:
  "off + length bs \<le> length d \<Longrightarrow> length (splice d off bs) = length d"
  by (simp add: splice_def)

lemma length_put_field [simp]:
  "off + n \<le> length d \<Longrightarrow> length (put_field n d off k) = length d"
  by (simp add: put_field_def)

lemma splice_same [layout]:
  "off + length bs \<le> length d \<Longrightarrow> n = length bs \<Longrightarrow> take n (drop off (splice d off bs)) = bs"
  by (simp add: splice_def)

lemma splice_before [layout]:
  "o1 + n \<le> off \<Longrightarrow> off \<le> length d \<Longrightarrow>
   take n (drop o1 (splice d off bs)) = take n (drop o1 d)"
proof -
  assume "o1 + n \<le> off" and "off \<le> length d"
  then have "n + o1 \<le> off" and "n + o1 \<le> min (length d) off" by auto
  then show ?thesis by (simp add: splice_def take_drop)
qed

lemma splice_after [layout]:
  "off + length bs \<le> o1 \<Longrightarrow> off + length bs \<le> length d \<Longrightarrow>
   take n (drop o1 (splice d off bs)) = take n (drop o1 d)"
  by (simp add: splice_def)

lemma get_put_same [layout]:
  "off + n \<le> length d \<Longrightarrow> get_field n (put_field n d off k) off = k mod 256 ^ n"
  by (simp add: get_field_def put_field_def splice_same le_nat_le_bytes)

lemma get_put_before [layout]:
  "o1 + n \<le> off \<Longrightarrow> off \<le> length d \<Longrightarrow>
   get_field n (put_field k d off v) o1 = get_field n d o1"
  by (simp add: get_field_def put_field_def splice_before)

lemma get_put_after [layout]:
  "off + k \<le> o1 \<Longrightarrow> off + k \<le> length d \<Longrightarrow>
   get_field n (put_field k d off v) o1 = get_field n d o1"
  by (simp add: get_field_def put_field_def splice_after)

lemma get_field_bound: "get_field n d off < 256 ^ n"
proof -
  have "le_nat (take n (drop off d)) < 256 ^ length (take n (drop off d))"
    by (rule le_nat_bound)
  also have "\<dots> \<le> 256 ^ n" by (rule power_increasing) auto
  finally show ?thesis by (simp add: get_field_def)
qed

end
