(* ===== verification/Kstring.thy ===== *)
theory Kstring
  imports Prelude
begin

text \<open>
  \<open>kernel/string.c\<close>: the memory and string routines of the kernel.

  Routines that write through a pointer into raw memory (\<open>memset\<close>, \<open>memmove\<close>) work on the
  byte memory of \<open>Prelude\<close> and follow the loops of the source. Routines that only read
  through a pointer take the bytes from that pointer on as a stream \<open>nat \<Rightarrow> u8\<close>, so that
  they apply to a pointer into memory and to a C array alike; \<open>strncpy\<close> and \<open>safestrcpy\<close>
  return the bytes they store at the destination, one after the other. The lemmas give each
  loop its closed form: overlapping moves copy correctly, \<open>strncmp\<close> compares C strings up to
  \<open>n\<close> bytes, \<open>safestrcpy\<close> always terminates the destination.
\<close>

section \<open>Raw memory\<close>

function memset_loop :: "memory \<Rightarrow> u64 \<Rightarrow> int \<Rightarrow> nat \<Rightarrow> nat \<Rightarrow> memory" where
  "memset_loop m cdst c i n =
     (if i < n then memset_loop (m(cdst + of_nat i := word_of_int c)) cdst c (Suc i) n else m)"
  by pat_completeness auto
termination by (relation "measure (\<lambda>(m, cdst, c, i, n). n - i)") auto

definition memset :: "memory \<Rightarrow> u64 \<Rightarrow> int \<Rightarrow> nat \<Rightarrow> memory" where
  "memset m dst c n = memset_loop m dst c 0 n"

primrec copy_up :: "memory \<Rightarrow> u64 \<Rightarrow> u64 \<Rightarrow> nat \<Rightarrow> memory" where
  "copy_up m d s 0 = m"
| "copy_up m d s (Suc n) = copy_up (m(d := m s)) (d + 1) (s + 1) n"

primrec copy_down :: "memory \<Rightarrow> u64 \<Rightarrow> u64 \<Rightarrow> nat \<Rightarrow> memory" where
  "copy_down m d s 0 = m"
| "copy_down m d s (Suc n) = copy_down (m(d - 1 := m (s - 1))) (d - 1) (s - 1) n"

definition memmove :: "memory \<Rightarrow> u64 \<Rightarrow> u64 \<Rightarrow> nat \<Rightarrow> memory" where
  "memmove m dst src n =
     (if n = 0 then m
      else if src < dst \<and> src + of_nat n > dst
      then copy_down m (dst + of_nat n) (src + of_nat n) n
      else copy_up m dst src n)"

definition memcpy :: "memory \<Rightarrow> u64 \<Rightarrow> u64 \<Rightarrow> nat \<Rightarrow> memory" where
  "memcpy m dst src n = memmove m dst src n"

section \<open>Byte streams\<close>

type_synonym stream = "nat \<Rightarrow> u8"

abbreviation adv :: "stream \<Rightarrow> stream" where
  "adv p \<equiv> (\<lambda>i. p (Suc i))"

definition array :: "u8 list \<Rightarrow> stream" where
  "array xs = (\<lambda>i. if i < length xs then xs ! i else 0)"

primrec memcmp :: "stream \<Rightarrow> stream \<Rightarrow> nat \<Rightarrow> int" where
  "memcmp s1 s2 0 = 0"
| "memcmp s1 s2 (Suc n) =
     (if s1 0 \<noteq> s2 0 then uint (s1 0) - uint (s2 0) else memcmp (adv s1) (adv s2) n)"

primrec strncmp :: "stream \<Rightarrow> stream \<Rightarrow> nat \<Rightarrow> int" where
  "strncmp p q 0 = 0"
| "strncmp p q (Suc n) =
     (if p 0 \<noteq> 0 \<and> p 0 = q 0 then strncmp (adv p) (adv q) n
      else uint (p 0) - uint (q 0))"

primrec strncpy_pad :: "nat \<Rightarrow> u8 list" where
  "strncpy_pad 0 = []"
| "strncpy_pad (Suc n) = 0 # strncpy_pad n"

primrec strncpy :: "stream \<Rightarrow> nat \<Rightarrow> u8 list" where
  "strncpy t 0 = []"
| "strncpy t (Suc n) = t 0 # (if t 0 \<noteq> 0 then strncpy (adv t) n else strncpy_pad n)"

text \<open>
  \<open>while(--n > 0 && (*s++ = *t++) != 0); *s = 0;\<close>: after a copied terminator the
  destination pointer has moved on, and the last statement stores a second one.
\<close>

fun safestrcpy :: "stream \<Rightarrow> nat \<Rightarrow> u8 list" where
  "safestrcpy t 0 = []"
| "safestrcpy t (Suc 0) = [0]"
| "safestrcpy t (Suc (Suc n)) = t 0 # (if t 0 \<noteq> 0 then safestrcpy (adv t) (Suc n) else [0])"

partial_function (option) strlen_from :: "stream \<Rightarrow> nat \<Rightarrow> nat option" where
  "strlen_from s n = (if s n = 0 then Some n else strlen_from s (Suc n))"

definition strlen :: "stream \<Rightarrow> nat option" where
  "strlen s = strlen_from s 0"

declare memset_loop.simps [simp del]

section \<open>Closed forms of the memory loops\<close>

lemma memset_loop_apply:
  "n < 2 ^ 64 \<Longrightarrow> memset_loop m a c i n x =
     (if i \<le> unat (x - a) \<and> unat (x - a) < n then word_of_int c else m x)"
proof (induction m a c i n rule: memset_loop.induct)
  case (1 m a c i n)
  show ?case
  proof (cases "i < n")
    case True
    with "1.prems" have "x = a + of_nat i \<longleftrightarrow> unat (x - a) = i"
      by (simp add: unat_diff_iff)
    moreover have "memset_loop (m(a + of_nat i := word_of_int c)) a c (Suc i) n x =
        (if Suc i \<le> unat (x - a) \<and> unat (x - a) < n then word_of_int c
         else (m(a + of_nat i := word_of_int c)) x)"
      using True "1.prems" by (rule "1.IH")
    ultimately show ?thesis
      using True by (subst memset_loop.simps) auto
  next
    case False
    then show ?thesis by (subst memset_loop.simps) auto
  qed
qed

lemma memset_eq: "n < 2 ^ 64 \<Longrightarrow> memset m a c n = write_bytes m a (replicate n (word_of_int c))"
  by (rule ext) (simp add: memset_def memset_loop_apply write_bytes_def)

lemma copy_up_eq:
  assumes "unat d + n \<le> 2 ^ 64" and "unat s + n \<le> 2 ^ 64"
    and "\<not> (unat s < unat d \<and> unat d < unat s + n)"
  shows "copy_up m d s n = write_bytes m d (read_bytes m s n)"
  using assms
proof (induction n arbitrary: m d s)
  case 0
  then show ?case by simp
next
  case (Suc n)
  show ?case
  proof (cases "n = 0")
    case True
    then show ?thesis by (simp add: read_bytes_Suc write_bytes_Cons)
  next
    case False
    with Suc.prems have d1: "unat (d + 1) = unat d + 1" and s1: "unat (s + 1) = unat s + 1"
      by (auto intro: unat_offset_u64 [of _ 1, simplified])
    have IH: "copy_up (m(d := m s)) (d + 1) (s + 1) n
        = write_bytes (m(d := m s)) (d + 1) (read_bytes (m(d := m s)) (s + 1) n)"
      by (rule Suc.IH) (use Suc.prems d1 s1 in auto)
    have same: "read_bytes (m(d := m s)) (s + 1) n = read_bytes m (s + 1) n"
    proof (rule read_bytes_cong)
      fix i assume "i < n"
      with Suc.prems s1 have "unat (s + 1 + of_nat i) = unat s + 1 + i"
        by (subst unat_offset_u64) auto
      with Suc.prems \<open>i < n\<close> have "s + 1 + of_nat i \<noteq> d" by auto
      then show "(m(d := m s)) (s + 1 + of_nat i) = m (s + 1 + of_nat i)" by simp
    qed
    from Suc.prems have "n < 2 ^ 64" by linarith
    with IH same show ?thesis by (simp add: read_bytes_Suc write_bytes_Cons)
  qed
qed

lemma copy_down_eq:
  assumes "unat d + n \<le> 2 ^ 64" and "unat s + n \<le> 2 ^ 64" and "unat s < unat d"
  shows "copy_down m (d + of_nat n) (s + of_nat n) n = write_bytes m d (read_bytes m s n)"
  using assms
proof (induction n arbitrary: m)
  case 0
  then show ?case by simp
next
  case (Suc n)
  let ?m = "m(d + of_nat n := m (s + of_nat n))"
  from Suc.prems have n: "n < 2 ^ 64" by linarith
  have IH: "copy_down ?m (d + of_nat n) (s + of_nat n) n = write_bytes ?m d (read_bytes ?m s n)"
    by (rule Suc.IH) (use Suc.prems in auto)
  have same: "read_bytes ?m s n = read_bytes m s n"
  proof (rule read_bytes_cong)
    fix i assume "i < n"
    with Suc.prems have "unat (s + of_nat i) = unat s + i" "unat (d + of_nat n) = unat d + n"
      by (auto intro!: unat_offset_u64)
    with Suc.prems \<open>i < n\<close> have "s + of_nat i \<noteq> d + of_nat n" by auto
    then show "?m (s + of_nat i) = m (s + of_nat i)" by simp
  qed
  have d: "d + of_nat (Suc n) - 1 = d + of_nat n" and s: "s + of_nat (Suc n) - 1 = s + of_nat n"
    by (simp_all add: algebra_simps)
  show ?case
    unfolding copy_down.simps d s IH same
    using n by (simp add: read_bytes_snoc write_bytes_snoc)
qed

section \<open>C strings\<close>

definition cstr :: "nat \<Rightarrow> stream \<Rightarrow> u8 list" where
  "cstr n p = takeWhile (\<lambda>c. c \<noteq> 0) (map p [0..<n])"

lemma cstr_0 [simp]: "cstr 0 p = []"
  by (simp add: cstr_def)

lemma cstr_Suc [simp]: "cstr (Suc n) p = (if p 0 = 0 then [] else p 0 # cstr n (adv p))"
  by (simp add: cstr_def upt_conv_Cons map_Suc_upt [symmetric] comp_def del: upt_Suc)

lemma adv_array_Cons [simp]: "adv (array (x # xs)) = array xs"
  by (auto simp: array_def)

lemma array_Cons_0 [simp]: "array (x # xs) 0 = x"
  by (simp add: array_def)

lemma strncmp_0_iff: "strncmp p q n = 0 \<longleftrightarrow> cstr n p = cstr n q"
proof (induction n arbitrary: p q)
  case 0
  then show ?case by simp
next
  case (Suc n)
  show ?case
  proof (cases "p 0 \<noteq> 0 \<and> p 0 = q 0")
    case True
    with Suc show ?thesis by simp
  next
    case False
    then show ?thesis by (auto simp: word_uint_eq_iff)
  qed
qed

lemma strncpy_pad_eq: "strncpy_pad n = replicate n 0"
  by (induction n) auto

lemma length_strncpy [simp]: "length (strncpy t n) = n"
  by (induction n arbitrary: t) (auto simp: strncpy_pad_eq)

lemma cstr_strncpy: "cstr n (array (strncpy t n)) = cstr n t"
  by (induction n arbitrary: t) auto

lemma strlen_from_eq:
  "n \<le> k \<Longrightarrow> s k = 0 \<Longrightarrow> (\<And>j. n \<le> j \<Longrightarrow> j < k \<Longrightarrow> s j \<noteq> 0) \<Longrightarrow> strlen_from s n = Some k"
proof (induction "k - n" arbitrary: n)
  case 0
  then show ?case by (simp add: strlen_from.simps)
next
  case (Suc d)
  then have "strlen_from s (Suc n) = Some k" by (intro Suc.hyps(1)) auto
  with Suc show ?case by (simp add: strlen_from.simps)
qed

lemma safestrcpy_facts:
  "0 < n \<Longrightarrow> length (safestrcpy t n) \<le> n \<and> 0 \<in> set (safestrcpy t n)
     \<and> takeWhile (\<lambda>c. c \<noteq> 0) (safestrcpy t n) = cstr (n - 1) t"
proof (induction t n rule: safestrcpy.induct)
  case (3 t n)
  then show ?case by (cases "t 0 = 0") auto
qed auto

lemma memmove_eq:
  assumes "unat src + n < 2 ^ 64" and "unat dst + n \<le> 2 ^ 64"
  shows "memmove m dst src n = write_bytes m dst (read_bytes m src n)"
proof (cases "n = 0")
  case True
  then show ?thesis by (simp add: memmove_def)
next
  case False
  have "src + of_nat n > dst \<longleftrightarrow> unat src + n > unat dst"
    using assms unat_offset_u64 [of src n] by (simp add: word_less_nat_alt)
  with False assms show ?thesis
    by (auto simp: memmove_def word_less_nat_alt copy_up_eq copy_down_eq)
qed

section \<open>Properties\<close>

text \<open>
  C38. \<open>memmove\<close> moves any \<open>n\<close> bytes that do not run past the end of the address space, even
  when source and destination overlap: afterwards the destination holds what the source held
  before, and no other byte changes.
\<close>

theorem memmove_correct:
  assumes "unat src + n < 2 ^ 64" and "unat dst + n \<le> 2 ^ 64"
  shows "memmove m dst src n = write_bytes m dst (read_bytes m src n)"
  by (rule memmove_eq [OF assms])

theorem memmove_correct_witness:
  "memmove (\<lambda>a. of_nat (unat a)) 0x1004 0x1000 16
     = write_bytes (\<lambda>a. of_nat (unat a)) 0x1004
         (read_bytes (\<lambda>a. of_nat (unat a)) 0x1000 16)"
  by (rule memmove_correct) simp_all

text \<open>
  C40. \<open>strncpy\<close> followed by \<open>strncmp\<close>: a name stored in a fixed field of \<open>n\<close> bytes compares
  equal to exactly the names that agree with it as C strings up to \<open>n\<close> bytes.
\<close>

theorem strncmp_strncpy:
  "strncmp q (array (strncpy t n)) n = 0 \<longleftrightarrow> cstr n q = cstr n t"
  by (simp add: strncmp_0_iff cstr_strncpy)

text \<open>
  C39. \<open>safestrcpy\<close> with a positive size stays inside the destination, always terminates it, and
  the C string it leaves there is the source cut to \<open>n - 1\<close> bytes.
\<close>

theorem safestrcpy_correct:
  assumes "0 < n"
  shows "length (safestrcpy t n) \<le> n \<and> 0 \<in> set (safestrcpy t n) \<and>
    takeWhile (\<lambda>c. c \<noteq> 0) (safestrcpy t n) = cstr (n - 1) t"
  using safestrcpy_facts [OF assms] by auto

theorem safestrcpy_correct_witness:
  "length (safestrcpy (array [0x69, 0x6e, 0x69, 0x74, 0]) 4) \<le> 4 \<and>
   0 \<in> set (safestrcpy (array [0x69, 0x6e, 0x69, 0x74, 0]) 4) \<and>
   takeWhile (\<lambda>c. c \<noteq> 0) (safestrcpy (array [0x69, 0x6e, 0x69, 0x74, 0]) 4)
     = cstr (4 - 1) (array [0x69, 0x6e, 0x69, 0x74, 0])"
  by (rule safestrcpy_correct) simp

end
