(* ===== verification/Kstate.thy ===== *)
theory Kstate
  imports Kstring
begin

text \<open>
  The headers of the kernel (\<open>param.h\<close>, \<open>riscv.h\<close>, \<open>memlayout.h\<close>, \<open>proc.h\<close>, \<open>buf.h\<close>,
  \<open>file.h\<close>, \<open>fs.h\<close>, \<open>sleeplock.h\<close>) and its global variables: constants, one record per
  struct, and the record \<open>kstate\<close> of all global state that the modelled components share.

  Pointers into the static tables (\<open>proc[]\<close>, \<open>bcache.buf[]\<close>, \<open>itable.inode[]\<close>,
  \<open>ftable.file[]\<close>) are indices; a null pointer is \<open>None\<close>. Pointers to pages are physical
  addresses; page contents are bytes of \<open>mem\<close>, except for the two structs the kernel keeps in
  a page of their own and never accesses otherwise (\<open>struct pipe\<close>, \<open>struct trapframe\<close>), which
  are typed stores indexed by the page's address. Link-time addresses (\<open>end\<close>, \<open>etext\<close>,
  \<open>trampoline\<close> and the entry points in \<open>syms\<close>) are fields that no operation writes.

  \<open>held\<close> is the list of spinlocks the running hart holds (theory \<open>Spinlock\<close> relates it to
  the lock words and to the interrupt-disable count). \<open>disk\<close> is the content of the disk and
  \<open>dtrace\<close> the history of block writes issued to it, the only part of the state that
  survives a crash.
\<close>

section \<open>Constants\<close>

definition NPROC :: nat where "NPROC = 64"
definition NOFILE :: nat where "NOFILE = 16"
definition NFILE :: nat where "NFILE = 100"
definition NINODE :: nat where "NINODE = 50"
definition NDEV :: nat where "NDEV = 10"
definition ROOTDEV :: nat where "ROOTDEV = 1"
definition MAXARG :: nat where "MAXARG = 32"
definition MAXOPBLOCKS :: nat where "MAXOPBLOCKS = 10"
definition LOGBLOCKS :: nat where "LOGBLOCKS = MAXOPBLOCKS * 3"
definition NBUF :: nat where "NBUF = MAXOPBLOCKS * 3"
definition MAXPATH :: nat where "MAXPATH = 128"

definition PGSIZE :: nat where "PGSIZE = 4096"
definition KERNBASE :: u64 where "KERNBASE = 0x80000000"
definition PHYSTOP :: u64 where "PHYSTOP = KERNBASE + 128 * 1024 * 1024"
definition MAXVA :: u64 where "MAXVA = push_bit (9 + 9 + 9 + 12 - 1) 1"
definition TRAMPOLINE :: u64 where "TRAMPOLINE = MAXVA - of_nat PGSIZE"
definition TRAPFRAME :: u64 where "TRAPFRAME = TRAMPOLINE - of_nat PGSIZE"

definition KSTACK :: "nat \<Rightarrow> u64" where
  "KSTACK p = TRAMPOLINE - (of_nat p + 1) * 2 * of_nat PGSIZE"

definition PGROUNDUP :: "u64 \<Rightarrow> u64" where
  "PGROUNDUP sz = (sz + of_nat PGSIZE - 1) AND NOT (of_nat PGSIZE - 1)"

definition PGROUNDDOWN :: "u64 \<Rightarrow> u64" where
  "PGROUNDDOWN a = a AND NOT (of_nat PGSIZE - 1)"

definition BSIZE :: nat where "BSIZE = 1024"
definition NDIRECT :: nat where "NDIRECT = 12"
definition NINDIRECT :: nat where "NINDIRECT = BSIZE div 4"
definition MAXFILE :: nat where "MAXFILE = NDIRECT + NINDIRECT"
definition FSMAGIC :: nat where "FSMAGIC = 0x10203040"
definition ROOTINO :: nat where "ROOTINO = 1"
definition IPB :: nat where "IPB = BSIZE div 64"
definition BPB :: nat where "BPB = BSIZE * 8"
definition DIRSIZ :: nat where "DIRSIZ = 14"

lemmas const_defs =
  NPROC_def NOFILE_def NFILE_def NINODE_def NDEV_def ROOTDEV_def MAXARG_def MAXOPBLOCKS_def
  LOGBLOCKS_def NBUF_def MAXPATH_def PGSIZE_def BSIZE_def NDIRECT_def NINDIRECT_def
  MAXFILE_def FSMAGIC_def ROOTINO_def IPB_def BPB_def DIRSIZ_def

section \<open>Locks and wait channels\<close>

datatype sleepid = BufLock nat | InodeLock nat

datatype lockid =
    KmemLock | BcacheLock | LogLock | ItableLock | FtableLock | PidLock | WaitLock
  | TicksLock | ConsLock | FbLock | DbgLock | PrLock | TxLock | VdiskLock
  | ProcLock nat | PipeLock u64 | SleepSpin sleepid

datatype chan =
    ChanNull | ChanProc nat | ChanLog | ChanSleeplock sleepid
  | ChanPipeRead u64 | ChanPipeWrite u64 | ChanTicks | ChanCons | ChanTx
  | ChanBuf nat | ChanVdisk

record sleeplock =
  sl_locked :: bool
  sl_pid :: int

section \<open>Structs\<close>

datatype procstate = UNUSED | USED | SLEEPING | RUNNABLE | RUNNING | ZOMBIE

record kcontext =
  c_ra :: u64
  c_sp :: u64
  c_s :: "nat \<Rightarrow> u64"

record proc =
  p_state :: procstate
  p_chan :: chan
  p_killed :: bool
  p_xstate :: int
  p_pid :: int
  p_parent :: "nat option"
  p_kstack :: u64
  p_sz :: u64
  p_pagetable :: u64
  p_trapframe :: u64
  p_context :: kcontext
  p_ofile :: "nat \<Rightarrow> nat option"
  p_cwd :: "nat option"
  p_name :: "u8 list"

record trapframe =
  tf_kernel_satp :: u64
  tf_kernel_sp :: u64
  tf_kernel_trap :: u64
  tf_epc :: u64
  tf_kernel_hartid :: u64
  tf_ra :: u64
  tf_sp :: u64
  tf_gp :: u64
  tf_tp :: u64
  tf_t :: "nat \<Rightarrow> u64"
  tf_s :: "nat \<Rightarrow> u64"
  tf_a :: "nat \<Rightarrow> u64"

record buf =
  b_valid :: bool
  b_disk :: bool
  b_dev :: nat
  b_blockno :: nat
  b_refcnt :: int
  b_prev :: nat
  b_next :: nat
  b_data :: "u8 list"

record logheader =
  lh_n :: int
  lh_block :: "nat list"

record log =
  log_start :: nat
  log_outstanding :: int
  log_committing :: bool
  log_dev :: nat
  log_lh :: logheader

record superblock =
  sb_magic :: nat
  sb_size :: nat
  sb_nblocks :: nat
  sb_ninodes :: nat
  sb_nlog :: nat
  sb_logstart :: nat
  sb_inodestart :: nat
  sb_bmapstart :: nat

record inode =
  i_dev :: nat
  i_inum :: nat
  i_ref :: int
  i_valid :: bool
  i_type :: int
  i_major :: int
  i_minor :: int
  i_nlink :: int
  i_size :: u32
  i_addrs :: "nat list"

datatype filetype = FD_NONE | FD_PIPE | FD_INODE | FD_DEVICE

record kfile =
  f_type :: filetype
  f_ref :: int
  f_readable :: bool
  f_writable :: bool
  f_pipe :: u64
  f_ip :: nat
  f_off :: u32
  f_major :: int

record pipe =
  pi_data :: "u8 list"
  pi_nread :: u32
  pi_nwrite :: u32
  pi_readopen :: bool
  pi_writeopen :: bool

record cons =
  cons_buf :: "u8 list"
  cons_r :: u32
  cons_w :: u32
  cons_e :: u32

text \<open>
  The UART as the driver sees it: the bytes waiting in the receive FIFO, whether the
  transmitter is idle, the driver's flag \<open>tx_busy\<close>, and the bytes sent so far.
\<close>

record uart =
  rx_fifo :: "u8 list"
  tx_idle :: bool
  tx_busy :: bool
  uart_out :: "u8 list"

datatype driver = ConsoleDriver | FbDriver

record anim =
  a_x :: int
  a_y :: int
  a_dx :: int
  a_w :: int
  a_h :: int
  a_prev_x :: int
  a_prev_y :: int
  a_frame_no :: u32

record anim_frame_state =
  fs_last_tick :: u64
  fs_target_ticks :: int
  fs_frame_count :: int
  fs_delta_time :: int

record gfx =
  fb_mem :: "nat \<Rightarrow> u32"
  anim :: anim
  frame_state :: anim_frame_state
  animation_enabled :: bool
  anim_ticks_per_frame :: int
  anim_tick_counter :: int

record dbg_sample =
  ds_when :: u64
  ds_value :: int

record dbg =
  dbg_samples :: "dbg_sample list"
  dbg_head :: int
  dbg_count :: int
  dbg_inited :: bool

text \<open>The supervisor registers of a hart and the claim register of the interrupt controller.\<close>

record hart_regs =
  r_sstatus :: u64
  r_scause :: u64
  r_sepc :: u64
  r_stval :: u64
  r_stvec :: u64
  r_satp :: u64
  r_tp :: u64
  r_time :: u64
  r_stimecmp :: u64
  r_claim :: u32
  r_completed :: "u32 list"

text \<open>Entry points whose addresses the kernel stores in registers and trap frames.\<close>

record ksyms =
  sym_forkret :: u64
  sym_uservec :: u64
  sym_userret :: u64
  sym_usertrap :: u64
  sym_kernelvec :: u64

text \<open>
  The disk driver's \<open>struct disk\<close> and the queue it shares with the device. A descriptor's address
  is one of the three kinds of memory the driver puts there. \<open>vd_read\<close> is what a read of a
  device register returns, \<open>vd_written\<close> the register writes so far, latest first.
\<close>

datatype daddr = DNull | OpAddr nat | DataAddr nat | StatusAddr nat

record virtq_desc =
  vq_addr :: daddr
  vq_len :: nat
  vq_flags :: nat
  vq_next :: nat

record virtio_blk_req =
  req_type :: nat
  req_reserved :: nat
  req_sector :: nat

record vdisk =
  vd_desc :: "nat \<Rightarrow> virtq_desc"
  vd_avail_ring :: "nat \<Rightarrow> nat"
  vd_avail_idx :: u16
  vd_used_ring :: "nat \<Rightarrow> nat"
  vd_used_idx_dev :: u16
  vd_pages :: "u64 list"
  vd_free :: "nat \<Rightarrow> bool"
  vd_used_idx :: u16
  vd_info_b :: "nat \<Rightarrow> nat option"
  vd_info_status :: "nat \<Rightarrow> u8"
  vd_ops :: "nat \<Rightarrow> virtio_blk_req"
  vd_read :: "nat \<Rightarrow> u32"
  vd_written :: "(nat \<times> u32) list"

section \<open>Global state\<close>

record kstate =
  kend :: u64
  etext :: u64
  trampoline :: u64
  mem :: memory
  freelist :: u64
  held :: "lockid list"
  cur :: "nat option"
  procs :: "nat \<Rightarrow> proc"
  nextpid :: int
  initproc :: "nat option"
  slocks :: "sleepid \<Rightarrow> sleeplock"
  bufs :: "nat \<Rightarrow> buf"
  disk :: "nat \<Rightarrow> nat \<Rightarrow> u8 list"
  dtrace :: "(nat \<times> nat \<times> u8 list) list"
  klog :: log
  superb :: superblock
  inodes :: "nat \<Rightarrow> inode"
  files :: "nat \<Rightarrow> kfile"
  pipes :: "u64 \<Rightarrow> pipe"
  tframes :: "u64 \<Rightarrow> trapframe"
  ticks :: u32
  kernel_pagetable :: u64
  first_run :: bool
  devsw :: "nat \<Rightarrow> driver option"
  cons :: cons
  uart :: uart
  gfx :: gfx
  dbg :: dbg
  regs :: hart_regs
  syms :: ksyms
  vdisk :: vdisk

type_synonym 'a kern = "('a, kstate) stmt"

text \<open>The state of a freshly loaded kernel: all static storage is zero or as its initialiser says.\<close>

definition zero_proc :: proc where
  "zero_proc = \<lparr>p_state = UNUSED, p_chan = ChanNull, p_killed = False, p_xstate = 0, p_pid = 0,
     p_parent = None, p_kstack = 0, p_sz = 0, p_pagetable = 0, p_trapframe = 0, 
     p_context = \<lparr>c_ra = 0, c_sp = 0, c_s = (\<lambda>_. 0)\<rparr>, p_ofile = (\<lambda>_. None), p_cwd = None, p_name = replicate 16 0\<rparr>"

definition zero_tf :: trapframe where
  "zero_tf = \<lparr>tf_kernel_satp = 0, tf_kernel_sp = 0, tf_kernel_trap = 0, tf_epc = 0,
     tf_kernel_hartid = 0, tf_ra = 0, tf_sp = 0, tf_gp = 0, tf_tp = 0, tf_t = (\<lambda>_. 0),
     tf_s = (\<lambda>_. 0), tf_a = (\<lambda>_. 0)\<rparr>"

definition zero_buf :: buf where
  "zero_buf = \<lparr>b_valid = False, b_disk = False, b_dev = 0, b_blockno = 0, b_refcnt = 0,
     b_prev = 0, b_next = 0, b_data = replicate BSIZE 0\<rparr>"

definition zero_log :: log where
  "zero_log = \<lparr>log_start = 0, log_outstanding = 0, log_committing = False, log_dev = 0,
     log_lh = \<lparr>lh_n = 0, lh_block = replicate LOGBLOCKS 0\<rparr>\<rparr>"

definition zero_sb :: superblock where
  "zero_sb = \<lparr>sb_magic = 0, sb_size = 0, sb_nblocks = 0, sb_ninodes = 0, sb_nlog = 0,
     sb_logstart = 0, sb_inodestart = 0, sb_bmapstart = 0\<rparr>"

definition zero_inode :: inode where
  "zero_inode = \<lparr>i_dev = 0, i_inum = 0, i_ref = 0, i_valid = False, i_type = 0, i_major = 0,
     i_minor = 0, i_nlink = 0, i_size = 0, i_addrs = replicate (NDIRECT + 1) 0\<rparr>"

definition zero_file :: kfile where
  "zero_file = \<lparr>f_type = FD_NONE, f_ref = 0, f_readable = False, f_writable = False,
     f_pipe = 0, f_ip = 0, f_off = 0, f_major = 0\<rparr>"

definition zero_pipe :: pipe where
  "zero_pipe = \<lparr>pi_data = replicate 512 0, pi_nread = 0, pi_nwrite = 0, pi_readopen = False,
     pi_writeopen = False\<rparr>"

definition zero_gfx :: gfx where
  "zero_gfx = \<lparr>fb_mem = (\<lambda>_. 0),
     anim = \<lparr>a_x = 0, a_y = 50, a_dx = 1, a_w = 20, a_h = 12, a_prev_x = 0, a_prev_y = 50,
       a_frame_no = 0\<rparr>,
     frame_state = \<lparr>fs_last_tick = 0, fs_target_ticks = 0, fs_frame_count = 0, fs_delta_time = 0\<rparr>,
     animation_enabled = False, anim_ticks_per_frame = 10, anim_tick_counter = 0\<rparr>"

definition zero_dbg :: dbg where
  "zero_dbg = \<lparr>dbg_samples = replicate 128 \<lparr>ds_when = 0, ds_value = 0\<rparr>, dbg_head = 0,
     dbg_count = 0, dbg_inited = False\<rparr>"

definition zero_regs :: hart_regs where
  "zero_regs = \<lparr>r_sstatus = 0, r_scause = 0, r_sepc = 0, r_stval = 0, r_stvec = 0, r_satp = 0,
     r_tp = 0, r_time = 0, r_stimecmp = 0, r_claim = 0, r_completed = []\<rparr>"

definition zero_desc :: virtq_desc where
  "zero_desc = \<lparr>vq_addr = DNull, vq_len = 0, vq_flags = 0, vq_next = 0\<rparr>"

definition zero_vdisk :: vdisk where
  "zero_vdisk = \<lparr>vd_desc = (\<lambda>_. zero_desc), vd_avail_ring = (\<lambda>_. 0), vd_avail_idx = 0,
     vd_used_ring = (\<lambda>_. 0), vd_used_idx_dev = 0, vd_pages = [0, 0, 0], vd_free = (\<lambda>_. False),
     vd_used_idx = 0, vd_info_b = (\<lambda>_. None), vd_info_status = (\<lambda>_. 0),
     vd_ops = (\<lambda>_. \<lparr>req_type = 0, req_reserved = 0, req_sector = 0\<rparr>), vd_read = (\<lambda>_. 0),
     vd_written = []\<rparr>"

definition zero_kstate :: kstate where
  "zero_kstate = \<lparr>kend = 0x80040000, etext = 0x80008000, trampoline = 0x80007000,
     mem = (\<lambda>_. 0), freelist = 0, held = [], cur = None, procs = (\<lambda>_. zero_proc), nextpid = 1,
     initproc = None, slocks = (\<lambda>_. \<lparr>sl_locked = False, sl_pid = 0\<rparr>), bufs = (\<lambda>_. zero_buf),
     disk = (\<lambda>_ _. replicate BSIZE 0), dtrace = [], klog = zero_log, superb = zero_sb,
     inodes = (\<lambda>_. zero_inode), files = (\<lambda>_. zero_file), pipes = (\<lambda>_. zero_pipe),
     tframes = (\<lambda>_. zero_tf), ticks = 0, kernel_pagetable = 0,
     first_run = True, devsw = (\<lambda>_. None),
     cons = \<lparr>cons_buf = replicate 128 0, cons_r = 0, cons_w = 0, cons_e = 0\<rparr>,
     uart = \<lparr>rx_fifo = [], tx_idle = True, tx_busy = False, uart_out = []\<rparr>,
     gfx = zero_gfx, dbg = zero_dbg, regs = zero_regs,
     syms = \<lparr>sym_forkret = 0x80001000, sym_uservec = 0x80007000, sym_userret = 0x8000709c,
       sym_usertrap = 0x80002000, sym_kernelvec = 0x80003000\<rparr>,
     vdisk = zero_vdisk\<rparr>"

section \<open>Page arithmetic\<close>

lemma PGSIZE_mask: "of_nat PGSIZE - 1 = (mask 12 :: u64)"
  by (simp add: PGSIZE_def mask_eq_exp_minus_1)

lemma unat_PGROUNDDOWN: "unat (PGROUNDDOWN a) = unat a - unat a mod 4096"
proof -
  have "a - take_bit 12 a = a AND NOT (take_bit 12 a)"
    by (rule disjunctive_diff_eq_and_not, rule bit_word_eqI) (simp add: bit_simps)
  also have "\<dots> = PGROUNDDOWN a"
    unfolding PGROUNDDOWN_def PGSIZE_mask take_bit_eq_mask by (rule bit_word_eqI) (auto simp: bit_simps)
  finally have "PGROUNDDOWN a = a - take_bit 12 a" by simp
  moreover have tb: "unat (take_bit 12 a) = unat a mod 4096"
    by (simp add: unsigned_take_bit_eq take_bit_eq_mod unat_mod)
  moreover have "take_bit 12 a \<le> a"
    using tb by (simp add: word_le_nat_alt)
  ultimately show ?thesis by (simp add: unat_sub)
qed

definition page_aligned :: "u64 \<Rightarrow> bool" where
  "page_aligned p \<longleftrightarrow> unat p mod 4096 = 0"

lemma page_aligned_PGROUNDDOWN [simp]: "page_aligned (PGROUNDDOWN a)"
proof -
  have "unat a - unat a mod 4096 = 4096 * (unat a div 4096)"
    by (simp add: minus_mod_eq_mult_div)
  then show ?thesis by (simp add: page_aligned_def unat_PGROUNDDOWN)
qed

lemma page_aligned_room:
  assumes "page_aligned p"
  shows "unat p + 4096 \<le> 2 ^ 64"
proof -
  obtain k where k: "unat p = 4096 * k" using assms by (auto simp: page_aligned_def)
  have "4096 * k < 4096 * 4503599627370496" using unat_u64_lt [of p] k by simp
  then have "k < 4503599627370496" by simp
  with k show ?thesis by simp
qed

lemma unat_in_page: "page_aligned p \<Longrightarrow> i < 4096 \<Longrightarrow> unat (p + of_nat i) = unat p + i"
  using page_aligned_room [of p] by (intro unat_offset_u64) simp

lemma in_page_iff:
  assumes "page_aligned p"
  shows "PGROUNDDOWN x = p \<longleftrightarrow> unat (x - p) < 4096"
proof
  assume "PGROUNDDOWN x = p"
  then have p: "unat p = unat x - unat x mod 4096" by (simp add: unat_PGROUNDDOWN [symmetric])
  then have "p \<le> x" by (simp add: word_le_nat_alt)
  with p have "unat (x - p) = unat x mod 4096" by (simp add: unat_sub)
  then show "unat (x - p) < 4096" by simp
next
  assume *: "unat (x - p) < 4096"
  have "x = p + of_nat (unat (x - p))" by simp
  with unat_in_page [OF assms *] have x: "unat x = unat p + unat (x - p)" by metis
  moreover have "(unat p + unat (x - p)) mod 4096 = unat (x - p)"
    using assms * unfolding page_aligned_def by (metis mod_add_left_eq mod_less add_0)
  ultimately have "unat (PGROUNDDOWN x) = unat p" by (simp add: unat_PGROUNDDOWN)
  then show "PGROUNDDOWN x = p" by (simp add: word_unat_eq_iff)
qed

lemma PGROUNDDOWN_in_page: "page_aligned p \<Longrightarrow> i < 4096 \<Longrightarrow> PGROUNDDOWN (p + of_nat i) = p"
  by (simp add: in_page_iff unat_of_nat_u64)

lemma PGROUNDDOWN_aligned: "page_aligned p \<Longrightarrow> PGROUNDDOWN p = p"
  using PGROUNDDOWN_in_page [of p 0] by simp

text \<open>Writes that stay inside one page leave every other page alone.\<close>

lemma write_bytes_other_page:
  assumes "page_aligned p" and "off + length bs \<le> 4096" and "PGROUNDDOWN x \<noteq> p"
  shows "write_bytes m (p + of_nat off) bs x = m x"
proof -
  have "\<not> unat (x - (p + of_nat off)) < length bs"
  proof
    assume *: "unat (x - (p + of_nat off)) < length bs"
    have "x - p = of_nat (off + unat (x - (p + of_nat off)))" by simp
    then have "unat (x - p) = off + unat (x - (p + of_nat off))"
      using * assms(2) unat_of_nat_u64 [of "off + unat (x - (p + of_nat off))"] by simp
    with * assms show False by (simp add: in_page_iff)
  qed
  then show ?thesis by (simp add: write_bytes_def)
qed

lemma fill_page:
  "page_aligned p \<Longrightarrow>
   write_bytes m p (replicate 4096 c) x = (if PGROUNDDOWN x = p then c else m x)"
  using nth_replicate [of "unat (x - p)" 4096 c] length_replicate [of 4096 c]
  by (simp only: write_bytes_def in_page_iff) argo

lemma store64_other_page:
  "page_aligned p \<Longrightarrow> off + 8 \<le> 4096 \<Longrightarrow> PGROUNDDOWN x \<noteq> p
   \<Longrightarrow> store64 m (p + of_nat off) w x = m x"
  unfolding store64_def by (rule write_bytes_other_page) auto

lemma load64_page_cong:
  assumes "page_aligned p" and "off + 8 \<le> 4096"
    and "\<And>x. PGROUNDDOWN x = p \<Longrightarrow> m x = m' x"
  shows "load64 m (p + of_nat off) = load64 m' (p + of_nat off)"
proof (rule load64_cong)
  fix i :: nat assume "i < 8"
  with assms have "PGROUNDDOWN (p + of_nat (off + i)) = p" by (intro PGROUNDDOWN_in_page) auto
  then show "m (p + of_nat off + of_nat i) = m' (p + of_nat off + of_nat i)"
    by (intro assms(3)) (simp add: algebra_simps)
qed

end
