(* ===== verification/Spinlock.thy ===== *)
theory Spinlock
  imports Kstate
begin

text \<open>
  \<open>kernel/spinlock.c\<close>, at two levels.

  The first level is the code: every hart has its interrupt-enable bit and the fields
  \<open>noff\<close> and \<open>intena\<close> of its \<open>struct cpu\<close>, every lock its words \<open>locked\<close> and \<open>cpu\<close>, and
  \<open>acquire\<close>/\<open>release\<close> are the sequences of C statements. \<open>lock_step\<close> interleaves the harts
  between any two of their shared-memory accesses; mutual exclusion and the interrupt
  discipline are invariants of it.

  The second level is what the rest of the kernel is modelled on: the list \<open>held\<close> of the
  locks of the running hart, with an \<open>acquire\<close> that panics on a lock that is already held and
  a \<open>release\<close> that panics on one that is not. The refinement lemmas at the end of the theory
  show that both panics and both updates of \<open>held\<close> are those of the code.
\<close>

section \<open>The code on several harts\<close>

record cpu =
  sie :: bool
  noff :: int
  intena :: bool

record spinlock =
  sp_locked :: bool
  sp_cpu :: "nat option"

record smp =
  cpus :: "nat \<Rightarrow> cpu"
  spin :: "lockid \<Rightarrow> spinlock"

type_synonym 'a smpm = "('a, smp) stmt"

definition upd_cpu :: "nat \<Rightarrow> (cpu \<Rightarrow> cpu) \<Rightarrow> unit smpm" where
  "upd_cpu h f = modifyK (\<lambda>s. s\<lparr>cpus := (cpus s)(h := f (cpus s h))\<rparr>)"

definition upd_spin :: "lockid \<Rightarrow> (spinlock \<Rightarrow> spinlock) \<Rightarrow> unit smpm" where
  "upd_spin l f = modifyK (\<lambda>s. s\<lparr>spin := (spin s)(l := f (spin s l))\<rparr>)"

definition initlock :: "lockid \<Rightarrow> unit smpm" where
  "initlock l = blockK [upd_spin l (sp_locked_update (\<lambda>_. False)),
                        upd_spin l (sp_cpu_update (\<lambda>_. None))]"

definition push_off :: "nat \<Rightarrow> unit smpm" where
  "push_off h =
     bindK (getsK (\<lambda>s. sie (cpus s h))) (\<lambda>old. blockK [
       upd_cpu h (sie_update (\<lambda>_. False)),
       bindK (getsK (\<lambda>s. noff (cpus s h))) (\<lambda>n.
         whenK (n = 0) (upd_cpu h (intena_update (\<lambda>_. old)))),
       upd_cpu h (noff_update (\<lambda>n. n + 1))])"

definition pop_off :: "nat \<Rightarrow> unit smpm" where
  "pop_off h =
     bindK (getsK (\<lambda>s. cpus s h)) (\<lambda>c.
       if sie c then panicK ''pop_off - interruptible''
       else if noff c < 1 then panicK ''pop_off''
       else blockK [
         upd_cpu h (noff_update (\<lambda>n. n - 1)),
         bindK (getsK (\<lambda>s. cpus s h)) (\<lambda>c.
           whenK (noff c = 0 \<and> intena c) (upd_cpu h (sie_update (\<lambda>_. True))))])"

definition spin_holding :: "nat \<Rightarrow> lockid \<Rightarrow> bool smpm" where
  "spin_holding h l = getsK (\<lambda>s. sp_locked (spin s l) \<and> sp_cpu (spin s l) = Some h)"

definition test_and_set :: "lockid \<Rightarrow> bool smpm" where
  "test_and_set l = bindK (getsK (\<lambda>s. sp_locked (spin s l))) (\<lambda>old.
     thenK (upd_spin l (sp_locked_update (\<lambda>_. True))) (returnK old))"

primrec spin_wait :: "nat \<Rightarrow> lockid \<Rightarrow> unit smpm" where
  "spin_wait 0 l = no_fuelK"
| "spin_wait (Suc n) l = bindK (test_and_set l) (\<lambda>old. if old then spin_wait n l else returnK ())"

definition set_owner :: "lockid \<Rightarrow> nat option \<Rightarrow> unit smpm" where
  "set_owner l h = upd_spin l (sp_cpu_update (\<lambda>_. h))"

definition lock_release :: "lockid \<Rightarrow> unit smpm" where
  "lock_release l = upd_spin l (sp_locked_update (\<lambda>_. False))"

definition spin_acquire :: "nat \<Rightarrow> nat \<Rightarrow> lockid \<Rightarrow> unit smpm" where
  "spin_acquire n h l =
     thenK (push_off h)
       (bindK (spin_holding h l) (\<lambda>r.
          if r then panicK ''acquire''
          else blockK [spin_wait n l, set_owner l (Some h)]))"

definition spin_release :: "nat \<Rightarrow> lockid \<Rightarrow> unit smpm" where
  "spin_release h l =
     bindK (spin_holding h l) (\<lambda>r.
       if \<not> r then panicK ''release''
       else blockK [set_owner l None, lock_release l, pop_off h])"

lemmas smp_defs =
  upd_cpu_def upd_spin_def push_off_def pop_off_def spin_holding_def test_and_set_def
  set_owner_def lock_release_def run_simps

section \<open>Interleaving\<close>

text \<open>
  A hart is between lock operations (\<open>Running\<close>), in the spin loop of \<open>acquire\<close>, between the
  successful swap and the write of \<open>lk->cpu\<close> (\<open>Won\<close>), or, in \<open>release\<close>, after the write of
  \<open>lk->cpu\<close> (\<open>Clearing\<close>) or after the clearing of the lock word (\<open>Popping\<close>). \<open>mine\<close> is the
  list of locks that a hart has acquired and not yet started to release, \<open>pushes\<close> its calls
  of \<open>push_off\<close> outside \<open>acquire\<close> that are not yet undone.
\<close>

datatype lock_pc = Running | Spinning lockid | Won lockid | Clearing lockid | Popping

record config =
  hw :: smp
  pc :: "nat \<Rightarrow> lock_pc"
  mine :: "nat \<Rightarrow> lockid list"
  pushes :: "nat \<Rightarrow> nat"

inductive lock_step :: "config \<Rightarrow> config \<Rightarrow> bool" where
  enter: "\<lbrakk>pc c h = Running; push_off h (hw c) = Ret () s; spin_holding h l s = Ret False s\<rbrakk>
     \<Longrightarrow> lock_step c (c\<lparr>hw := s, pc := (pc c)(h := Spinning l)\<rparr>)"
| spin: "\<lbrakk>pc c h = Spinning l; test_and_set l (hw c) = Ret True s\<rbrakk>
     \<Longrightarrow> lock_step c (c\<lparr>hw := s\<rparr>)"
| win: "\<lbrakk>pc c h = Spinning l; test_and_set l (hw c) = Ret False s\<rbrakk>
     \<Longrightarrow> lock_step c (c\<lparr>hw := s, pc := (pc c)(h := Won l)\<rparr>)"
| own: "\<lbrakk>pc c h = Won l; set_owner l (Some h) (hw c) = Ret () s\<rbrakk>
     \<Longrightarrow> lock_step c (c\<lparr>hw := s, pc := (pc c)(h := Running), mine := (mine c)(h := l # mine c h)\<rparr>)"
| leave: "\<lbrakk>pc c h = Running; spin_holding h l (hw c) = Ret True (hw c);
     set_owner l None (hw c) = Ret () s\<rbrakk>
     \<Longrightarrow> lock_step c (c\<lparr>hw := s, pc := (pc c)(h := Clearing l),
                        mine := (mine c)(h := remove1 l (mine c h))\<rparr>)"
| clear: "\<lbrakk>pc c h = Clearing l; lock_release l (hw c) = Ret () s\<rbrakk>
     \<Longrightarrow> lock_step c (c\<lparr>hw := s, pc := (pc c)(h := Popping)\<rparr>)"
| pop: "\<lbrakk>pc c h = Popping; pop_off h (hw c) = Ret () s\<rbrakk>
     \<Longrightarrow> lock_step c (c\<lparr>hw := s, pc := (pc c)(h := Running)\<rparr>)"
| push: "\<lbrakk>pc c h = Running; push_off h (hw c) = Ret () s\<rbrakk>
     \<Longrightarrow> lock_step c (c\<lparr>hw := s, pushes := (pushes c)(h := Suc (pushes c h))\<rparr>)"
| unpush: "\<lbrakk>pc c h = Running; pushes c h = Suc n; pop_off h (hw c) = Ret () s\<rbrakk>
     \<Longrightarrow> lock_step c (c\<lparr>hw := s, pushes := (pushes c)(h := n)\<rparr>)"
| intr: "\<lbrakk>pc c h = Running; noff (cpus (hw c) h) = 0;
     upd_cpu h (sie_update (\<lambda>_. b)) (hw c) = Ret () s\<rbrakk>
     \<Longrightarrow> lock_step c (c\<lparr>hw := s\<rparr>)"

definition boot_config :: config where
  "boot_config = \<lparr>
     hw = \<lparr>cpus = (\<lambda>_. \<lparr>sie = False, noff = 0, intena = False\<rparr>),
           spin = (\<lambda>_. \<lparr>sp_locked = False, sp_cpu = None\<rparr>)\<rparr>,
     pc = (\<lambda>_. Running), mine = (\<lambda>_. []), pushes = (\<lambda>_. 0)\<rparr>"

definition owns :: "config \<Rightarrow> nat \<Rightarrow> lockid \<Rightarrow> bool" where
  "owns c h l \<longleftrightarrow> l \<in> set (mine c h) \<or> pc c h = Won l \<or> pc c h = Clearing l"

definition intr_ok :: "config \<Rightarrow> bool" where
  "intr_ok c \<longleftrightarrow> (\<forall>h.
     noff (cpus (hw c) h) =
       int (length (mine c h)) + int (pushes c h) + (if pc c h = Running then 0 else 1) \<and>
     (noff (cpus (hw c) h) > 0 \<longrightarrow> \<not> sie (cpus (hw c) h)))"

definition own_ok :: "config \<Rightarrow> bool" where
  "own_ok c \<longleftrightarrow>
     (\<forall>l. if sp_locked (spin (hw c) l) then \<exists>h0. \<forall>h. owns c h l \<longleftrightarrow> h = h0 else \<forall>h. \<not> owns c h l) \<and>
     (\<forall>h. distinct (mine c h)) \<and>
     (\<forall>h l. pc c h = Won l \<or> pc c h = Clearing l \<or> pc c h = Spinning l \<longrightarrow> l \<notin> set (mine c h)) \<and>
     (\<forall>l h. sp_cpu (spin (hw c) l) = Some h \<longleftrightarrow> l \<in> set (mine c h))"

section \<open>The kernel's view: the locks the running hart holds\<close>

definition acquire :: "lockid \<Rightarrow> unit kern" where
  "acquire l = bindK (getsK held) (\<lambda>hs.
     if l \<in> set hs then panicK ''acquire'' else modifyK (\<lambda>s. s\<lparr>held := l # held s\<rparr>))"

definition release :: "lockid \<Rightarrow> unit kern" where
  "release l = bindK (getsK held) (\<lambda>hs.
     if l \<notin> set hs then panicK ''release'' else modifyK (\<lambda>s. s\<lparr>held := remove1 l (held s)\<rparr>))"

definition holding :: "lockid \<Rightarrow> bool kern" where
  "holding l = getsK (\<lambda>s. l \<in> set (held s))"

section \<open>Invariants of the interleaving\<close>

lemma run_push_off:
  "push_off h s = Ret () (s\<lparr>cpus := (cpus s)(h := \<lparr>sie = False, noff = noff (cpus s h) + 1,
     intena = (if noff (cpus s h) = 0 then sie (cpus s h) else intena (cpus s h))\<rparr>)\<rparr>)"
  by (cases "cpus s h") (simp add: smp_defs)

lemma run_pop_off:
  "pop_off h s = (let c = cpus s h in
     if sie c then Panic ''pop_off - interruptible'' else if noff c < 1 then Panic ''pop_off''
     else Ret () (s\<lparr>cpus := (cpus s)(h := c\<lparr>noff := noff c - 1,
                        sie := (noff c = 1 \<and> intena c)\<rparr>)\<rparr>))"
  by (cases "cpus s h") (auto simp: smp_defs Let_def)

lemma run_test_and_set:
  "test_and_set l s = Ret (sp_locked (spin s l))
     (s\<lparr>spin := (spin s)(l := (spin s l)\<lparr>sp_locked := True\<rparr>)\<rparr>)"
  by (simp add: smp_defs)

lemma run_set_owner:
  "set_owner l x s = Ret () (s\<lparr>spin := (spin s)(l := (spin s l)\<lparr>sp_cpu := x\<rparr>)\<rparr>)"
  by (simp add: smp_defs)

lemma run_lock_release:
  "lock_release l s = Ret () (s\<lparr>spin := (spin s)(l := (spin s l)\<lparr>sp_locked := False\<rparr>)\<rparr>)"
  by (simp add: smp_defs)

lemma run_spin_holding:
  "spin_holding h l s = Ret (sp_locked (spin s l) \<and> sp_cpu (spin s l) = Some h) s"
  by (simp add: smp_defs)

lemma run_upd_cpu: "upd_cpu h f s = Ret () (s\<lparr>cpus := (cpus s)(h := f (cpus s h))\<rparr>)"
  by (simp add: smp_defs)

lemmas smp_runs = run_push_off run_pop_off run_test_and_set run_set_owner run_lock_release
  run_spin_holding run_upd_cpu

text \<open>
  Steps that touch no lock word keep the ownership invariant as long as the owners stay the
  same; a step on the lock word of \<open>l\<close> only has to re-establish the part about \<open>l\<close>.
\<close>

lemma own_ok_frame:
  assumes "own_ok c" and "spin (hw c') = spin (hw c)" and "mine c' = mine c"
    and "\<And>h l. owns c' h l = owns c h l"
    and "\<And>h l. pc c' h = Won l \<or> pc c' h = Clearing l \<or> pc c' h = Spinning l
           \<Longrightarrow> l \<notin> set (mine c h)"
  shows "own_ok c'"
  using assms unfolding own_ok_def by simp

lemma own_ok_update:
  assumes "own_ok c"
    and "\<And>l'. l' \<noteq> l \<Longrightarrow> spin (hw c') l' = spin (hw c) l'"
    and "\<And>h' l'. l' \<noteq> l \<Longrightarrow> owns c' h' l' = owns c h' l'"
    and "\<And>h' l'. l' \<noteq> l \<Longrightarrow> l' \<in> set (mine c' h') \<longleftrightarrow> l' \<in> set (mine c h')"
    and "\<And>h'. distinct (mine c' h')"
    and "\<And>h' l'. pc c' h' = Won l' \<or> pc c' h' = Clearing l' \<or> pc c' h' = Spinning l'
           \<Longrightarrow> l' \<notin> set (mine c' h')"
    and "if sp_locked (spin (hw c') l) then \<exists>h0. \<forall>h. owns c' h l \<longleftrightarrow> h = h0
         else \<forall>h. \<not> owns c' h l"
    and "\<And>h'. sp_cpu (spin (hw c') l) = Some h' \<longleftrightarrow> l \<in> set (mine c' h')"
  shows "own_ok c'"
  unfolding own_ok_def
proof (intro conjI allI)
  fix l'
  show "if sp_locked (spin (hw c') l') then \<exists>h0. \<forall>h. owns c' h l' \<longleftrightarrow> h = h0
        else \<forall>h. \<not> owns c' h l'"
    using assms(1-3,7) unfolding own_ok_def by (cases "l' = l") (simp_all del: if_split)
next
  fix l' h
  show "sp_cpu (spin (hw c') l') = Some h \<longleftrightarrow> l' \<in> set (mine c' h)"
    using assms(1,2,4,8) unfolding own_ok_def by (cases "l' = l") simp_all
qed (use assms(5,6) in blast)+

lemma own_ok_step:
  assumes step: "lock_step c c'" and ok: "own_ok c"
  shows "own_ok c'"
proof -
  note parts = ok [unfolded own_ok_def]
  have pcs: "pc c h = Won l \<Longrightarrow> l \<notin> set (mine c h)" "pc c h = Clearing l \<Longrightarrow> l \<notin> set (mine c h)"
    "pc c h = Spinning l \<Longrightarrow> l \<notin> set (mine c h)" for h l using parts by blast+
  have lk: "if sp_locked (spin (hw c) l) then \<exists>h0. \<forall>h. owns c h l \<longleftrightarrow> h = h0
            else \<forall>h. \<not> owns c h l" for l using parts by blast
  have cpu: "sp_cpu (spin (hw c) l) = Some h \<longleftrightarrow> l \<in> set (mine c h)" for l h using parts by blast
  have dst: "distinct (mine c h)" for h using parts by blast
  from step show ?thesis
  proof cases
    case (enter h s l)
    then have "l \<notin> set (mine c h)"
      using lk [of l] cpu [of l h] by (auto simp: smp_runs owns_def split: if_splits)
    with enter show ?thesis
      by (intro own_ok_frame [OF ok]) (auto simp: smp_runs owns_def dest: pcs split: if_splits)
  next
    case (spin h l s)
    then have c': "pc c' = pc c" "mine c' = mine c" by simp_all
    have "(spin (hw c) l)\<lparr>sp_locked := True\<rparr> = spin (hw c) l"
      using spin by (cases "spin (hw c) l") (simp add: smp_runs)
    then have "spin (hw c') = spin (hw c)" using spin by (simp add: smp_runs)
    then show ?thesis by (intro own_ok_frame [OF ok]) (auto simp: owns_def c' dest: pcs)
  next
    case (win h l s)
    then have free: "\<not> owns c h' l" for h' using lk [of l] by (auto simp: smp_runs)
    with win show ?thesis
      by (intro own_ok_update [OF ok, of l])
        (auto simp: smp_runs owns_def cpu dest: pcs split: if_splits intro: dst)
  next
    case (own h l s)
    then have "owns c h l" by (simp add: owns_def)
    then have o: "sp_locked (spin (hw c) l)" "owns c h' l \<longleftrightarrow> h' = h" for h'
      using lk [of l] by (auto split: if_splits)
    have "l \<notin> set (mine c h)" using own pcs by blast
    then have no: "l \<notin> set (mine c h')" "pc c h' = Spinning l \<Longrightarrow> h' \<noteq> h" for h'
      using o(2) [of h'] own by (auto simp: owns_def)
    with own o show ?thesis
      by (intro own_ok_update [OF ok, of l])
        (auto simp: smp_runs owns_def cpu dst dest: pcs split: if_splits)
  next
    case (leave h l s)
    then have lk1: "sp_locked (spin (hw c) l)" and mem: "l \<in> set (mine c h)"
      by (simp_all add: smp_runs cpu)
    then have "owns c h l" by (simp add: owns_def)
    then have o: "owns c h' l \<longleftrightarrow> h' = h" for h'
      using lk [of l] by (auto split: if_splits)
    then have no: "l \<notin> set (mine c h')" "pc c h' \<noteq> Won l" "pc c h' \<noteq> Clearing l" if "h' \<noteq> h" for h'
      using that by (auto simp: owns_def)
    have rm: "set (remove1 l (mine c h')) = set (mine c h') - {l}" for h'
      by (rule set_remove1_eq [OF dst])
    from leave(1) have c': "pc c' = (pc c)(h := Clearing l)"
      "mine c' = (mine c)(h := remove1 l (mine c h))" "hw c' = s" by simp_all
    have s: "spin s = (spin (hw c))(l := (spin (hw c) l)\<lparr>sp_cpu := None\<rparr>)"
      using leave(4) by (auto simp: smp_runs)
    show ?thesis using lk1 no leave(2)
      by (intro own_ok_update [OF ok, of l])
        (auto simp: c' s rm owns_def cpu dst distinct_remove1 dest: pcs split: if_splits)
  next
    case (clear h l s)
    then have "owns c h l" by (simp add: owns_def)
    then have o: "sp_locked (spin (hw c) l)" "owns c h' l \<longleftrightarrow> h' = h" for h'
      using lk [of l] by (auto split: if_splits)
    moreover have "l \<notin> set (mine c h)" using clear pcs by blast
    ultimately show ?thesis using clear
      by (intro own_ok_update [OF ok, of l])
        (auto simp: smp_runs owns_def cpu dst dest: pcs split: if_splits)
  qed (intro own_ok_frame [OF ok], auto simp: smp_runs Let_def owns_def dest: pcs split: if_splits)+
qed

lemma intr_ok_step:
  assumes step: "lock_step c c'" and intr: "intr_ok c" and ok: "own_ok c"
  shows "intr_ok c'"
  unfolding intr_ok_def
proof
  fix k
  have n: "noff (cpus (hw c) k) =
      int (length (mine c k)) + int (pushes c k) + (if pc c k = Running then 0 else 1)"
    and i: "noff (cpus (hw c) k) > 0 \<longrightarrow> \<not> sie (cpus (hw c) k)"
    using intr by (auto simp: intr_ok_def)
  from step show "noff (cpus (hw c') k) =
      int (length (mine c' k)) + int (pushes c' k) + (if pc c' k = Running then 0 else 1) \<and>
      (noff (cpus (hw c') k) > 0 \<longrightarrow> \<not> sie (cpus (hw c') k))"
  proof cases
    case (leave h l s)
    have "sp_cpu (spin (hw c) l) = Some h \<longleftrightarrow> l \<in> set (mine c h)"
      using ok unfolding own_ok_def by blast
    with leave have l: "l \<in> set (mine c h)" by (simp add: smp_runs)
    then have "length (mine c h) = Suc (length (remove1 l (mine c h)))"
      by (metis One_nat_def Suc_pred length_pos_if_in_set length_remove1)
    then show ?thesis using leave n i by (cases "k = h") (auto simp: smp_runs)
  next
    case (enter h s l)
    then show ?thesis using n i by (cases "k = h") (auto simp: smp_runs)
  next
    case (spin h l s)
    then show ?thesis using n i by (cases "k = h") (auto simp: smp_runs)
  next
    case (win h l s)
    then show ?thesis using n i by (cases "k = h") (auto simp: smp_runs)
  next
    case (own h l s)
    then show ?thesis using n i by (cases "k = h") (auto simp: smp_runs)
  next
    case (clear h l s)
    then show ?thesis using n i by (cases "k = h") (auto simp: smp_runs)
  next
    case (push h s)
    then show ?thesis using n i by (cases "k = h") (auto simp: smp_runs)
  next
    case (intr h b s)
    then show ?thesis using n i by (cases "k = h") (auto simp: smp_runs)
  next
    case (pop h s)
    then show ?thesis using n i
      by (cases "k = h") (auto simp: smp_runs Let_def split: if_splits)
  next
    case (unpush h m s)
    then show ?thesis using n i
      by (cases "k = h") (auto simp: smp_runs Let_def split: if_splits)
  qed
qed

lemma lock_reachable_inv:
  assumes "lock_step\<^sup>*\<^sup>* boot_config c"
  shows "own_ok c \<and> intr_ok c"
  using assms
proof induction
  case base
  then show ?case by (simp add: boot_config_def own_ok_def intr_ok_def owns_def)
next
  case (step c c')
  then show ?case using own_ok_step intr_ok_step by blast
qed

lemma spinlock_holding_mine:
  assumes "lock_step\<^sup>*\<^sup>* boot_config c"
  shows "spin_holding h l (hw c) = Ret (l \<in> set (mine c h)) (hw c)"
proof -
  have ok: "own_ok c" using lock_reachable_inv [OF assms] by simp
  have "sp_locked (spin (hw c) l)" if "l \<in> set (mine c h)"
    using ok that by (auto simp: own_ok_def owns_def split: if_splits)
  moreover have "sp_cpu (spin (hw c) l) = Some h \<longleftrightarrow> l \<in> set (mine c h)"
    using ok by (simp add: own_ok_def)
  ultimately show ?thesis by (auto simp: run_spin_holding)
qed

lemma popping_pop_off:
  assumes "lock_step\<^sup>*\<^sup>* boot_config c" and "pc c h = Popping \<or> pc c h = Running \<and> pushes c h > 0"
  shows "\<exists>s. pop_off h (hw c) = Ret () s \<and>
           (sie (cpus s h) \<longleftrightarrow> noff (cpus s h) = 0 \<and> intena (cpus (hw c) h))"
proof -
  have "intr_ok c" using lock_reachable_inv [OF assms(1)] by simp
  then have "noff (cpus (hw c) h) \<ge> 1 \<and> \<not> sie (cpus (hw c) h)"
    using assms(2) unfolding intr_ok_def by (elim allE [of _ h]) auto
  then show ?thesis by (auto simp: smp_runs Let_def)
qed

section \<open>The kernel's view is a refinement of the code\<close>

lemma wp_acquire [wp_simps, simp]:
  "wp (acquire l) Q s \<longleftrightarrow> l \<notin> set (held s) \<and> Q () (s\<lparr>held := l # held s\<rparr>)"
  by (simp add: acquire_def)

lemma wp_release [wp_simps, simp]:
  "wp (release l) Q s \<longleftrightarrow> l \<in> set (held s) \<and> Q () (s\<lparr>held := remove1 l (held s)\<rparr>)"
  by (simp add: release_def)

lemma run_acquire:
  "acquire l s = (if l \<in> set (held s) then Panic ''acquire'' else Ret () (s\<lparr>held := l # held s\<rparr>))"
  by (simp add: acquire_def run_simps)

lemma run_release:
  "release l s = (if l \<in> set (held s) then Ret () (s\<lparr>held := remove1 l (held s)\<rparr>) else Panic ''release'')"
  by (simp add: release_def run_simps)

lemma wp_holding [wp_simps, simp]: "wp (holding l) Q s = Q (l \<in> set (held s)) s"
  by (simp add: holding_def)

text \<open>
  \<open>acquire\<close> at the level of the code, run by a hart without interference: it panics exactly
  when the hart already holds the lock, it spins for as long as the lock word is set, and
  otherwise it adds the lock to those the hart holds, in steps of the interleaving.
\<close>

lemma spin_wait_locked: "sp_locked (spin s l) \<Longrightarrow> spin_wait n l s = OutOfFuel"
proof (induction n arbitrary: s)
  case 0
  then show ?case by (simp add: run_simps)
next
  case (Suc n)
  have "spin_wait n l (s\<lparr>spin := (spin s)(l := (spin s l)\<lparr>sp_locked := True\<rparr>)\<rparr>) = OutOfFuel"
    by (rule Suc.IH) simp
  with Suc.prems show ?case by (simp add: bindK_def run_test_and_set)
qed

lemma spin_acquire_refines:
  assumes reach: "lock_step\<^sup>*\<^sup>* boot_config c" and run: "pc c h = Running"
  shows "if l \<in> set (mine c h) then spin_acquire (Suc n) h l (hw c) = Panic ''acquire''
         else if sp_locked (spin (hw c) l) then spin_acquire (Suc n) h l (hw c) = OutOfFuel
         else \<exists>c'. spin_acquire (Suc n) h l (hw c) = Ret () (hw c') \<and> lock_step\<^sup>*\<^sup>* c c' \<and>
                   pc c' h = Running \<and> mine c' = (mine c)(h := l # mine c h)"
proof -
  have hold: "sp_locked (spin (hw c) l) \<and> sp_cpu (spin (hw c) l) = Some h \<longleftrightarrow> l \<in> set (mine c h)"
    using lock_reachable_inv [OF reach] unfolding own_ok_def owns_def by (metis (lifting))
  obtain s where s: "push_off h (hw c) = Ret () s" and sp: "spin s = spin (hw c)"
    by (simp add: run_push_off)
  show ?thesis
  proof (cases "sp_locked (spin (hw c) l)")
    case True
    then show ?thesis using s sp hold
      by (auto simp: spin_acquire_def thenK_def bindK_def run_spin_holding panicK_def
          spin_wait_locked simp del: spin_wait.simps)
  next
    case free: False
    let ?c1 = "c\<lparr>hw := s, pc := (pc c)(h := Spinning l)\<rparr>"
    let ?s2 = "s\<lparr>spin := (spin s)(l := (spin s l)\<lparr>sp_locked := True\<rparr>)\<rparr>"
    let ?c2 = "?c1\<lparr>hw := ?s2, pc := (pc ?c1)(h := Won l)\<rparr>"
    let ?s3 = "?s2\<lparr>spin := (spin ?s2)(l := (spin ?s2 l)\<lparr>sp_cpu := Some h\<rparr>)\<rparr>"
    let ?c3 = "?c2\<lparr>hw := ?s3, pc := (pc ?c2)(h := Running), mine := (mine ?c2)(h := l # mine ?c2 h)\<rparr>"
    have "lock_step c ?c1" using run s sp free by (intro enter) (auto simp: run_spin_holding)
    moreover have "lock_step ?c1 ?c2" using sp free by (intro win) (auto simp: run_test_and_set)
    moreover have "lock_step ?c2 ?c3" by (intro own) (auto simp: run_set_owner)
    ultimately have "lock_step\<^sup>*\<^sup>* c ?c3" by (meson converse_rtranclp_into_rtranclp rtranclp.rtrancl_refl)
    moreover have "spin_acquire (Suc n) h l (hw c) = Ret () (hw ?c3)" using s sp free
      by (simp add: spin_acquire_def thenK_def bindK_def run_spin_holding run_test_and_set
          run_set_owner returnK_def)
    moreover have "l \<notin> set (mine c h)" using hold free by blast
    moreover have "pc ?c3 h = Running \<and> mine ?c3 = (mine c)(h := l # mine c h)" by simp
    ultimately show ?thesis using free by (simp only: if_False) blast
  qed
qed

lemma spin_release_refines:
  assumes reach: "lock_step\<^sup>*\<^sup>* boot_config c" and run: "pc c h = Running"
  shows "if l \<notin> set (mine c h) then spin_release h l (hw c) = Panic ''release''
         else \<exists>c'. spin_release h l (hw c) = Ret () (hw c') \<and> lock_step\<^sup>*\<^sup>* c c' \<and>
                   pc c' h = Running \<and> mine c' = (mine c)(h := remove1 l (mine c h)) \<and>
                   \<not> sp_locked (spin (hw c') l)"
proof (cases "l \<in> set (mine c h)")
  case False
  then have "spin_holding h l (hw c) = Ret False (hw c)"
    using spinlock_holding_mine [OF reach] by simp
  with False show ?thesis by (simp add: spin_release_def bindK_def panicK_def)
next
  case True
  then have hold: "spin_holding h l (hw c) = Ret True (hw c)"
    using spinlock_holding_mine [OF reach] by simp
  let ?s1 = "(hw c)\<lparr>spin := (spin (hw c))(l := (spin (hw c) l)\<lparr>sp_cpu := None\<rparr>)\<rparr>"
  let ?c1 = "c\<lparr>hw := ?s1, pc := (pc c)(h := Clearing l), mine := (mine c)(h := remove1 l (mine c h))\<rparr>"
  let ?s2 = "?s1\<lparr>spin := (spin ?s1)(l := (spin ?s1 l)\<lparr>sp_locked := False\<rparr>)\<rparr>"
  let ?c2 = "?c1\<lparr>hw := ?s2, pc := (pc ?c1)(h := Popping)\<rparr>"
  have st1: "lock_step c ?c1" using run hold by (intro leave) (auto simp: run_set_owner)
  have st2: "lock_step ?c1 ?c2" by (intro clear) (auto simp: run_lock_release)
  have "lock_step\<^sup>*\<^sup>* boot_config ?c2"
    using reach st1 st2 by (meson rtranclp.rtrancl_into_rtrancl)
  then obtain s3 where s3: "pop_off h ?s2 = Ret () s3"
    using popping_pop_off [of ?c2 h] by auto
  let ?c3 = "?c2\<lparr>hw := s3, pc := (pc ?c2)(h := Running)\<rparr>"
  have st3: "lock_step ?c2 ?c3" using s3 by (intro pop) auto
  have "lock_step\<^sup>*\<^sup>* c ?c3" using st1 st2 st3 by (meson converse_rtranclp_into_rtranclp r_into_rtranclp)
  moreover have "spin_release h l (hw c) = Ret () (hw ?c3)" using s3
    by (simp add: spin_release_def bindK_def hold run_set_owner run_lock_release returnK_def)
  moreover have "\<not> sp_locked (spin (hw ?c3) l)" using s3 by (auto simp: run_pop_off Let_def split: if_splits)
  moreover have "pc ?c3 h = Running \<and> mine ?c3 = (mine c)(h := remove1 l (mine c h))" by simp
  ultimately show ?thesis using True by (simp only: if_False not_True_eq_False) blast
qed

section \<open>The contract of a lock\<close>

text \<open>
  What the clients of a spinlock rely on: acquiring a free lock returns and adds it to the
  locks owned, releasing an owned lock returns and gives it back, and the two misuses (a
  second \<open>acquire\<close>, a \<open>release\<close> without one) panic. The contract holds at both levels.
\<close>

locale mutex =
  fixes acq :: "lockid \<Rightarrow> (unit, 's) stmt"
    and rel :: "lockid \<Rightarrow> (unit, 's) stmt"
    and owned :: "'s \<Rightarrow> lockid set"
    and free :: "'s \<Rightarrow> lockid \<Rightarrow> bool"
    and ok :: "'s \<Rightarrow> bool"
  assumes acq_free: "\<lbrakk>ok s; l \<notin> owned s; free s l\<rbrakk>
      \<Longrightarrow> wp (acq l) (\<lambda>_ t. ok t \<and> owned t = insert l (owned s)) s"
    and acq_owned: "\<lbrakk>ok s; l \<in> owned s\<rbrakk> \<Longrightarrow> acq l s = Panic ''acquire''"
    and rel_owned: "\<lbrakk>ok s; l \<in> owned s\<rbrakk>
      \<Longrightarrow> wp (rel l) (\<lambda>_ t. ok t \<and> owned t = owned s - {l} \<and> free t l) s"
    and rel_other: "\<lbrakk>ok s; l \<notin> owned s\<rbrakk> \<Longrightarrow> rel l s = Panic ''release''"
begin

lemma critical_section:
  assumes "ok s" and "l \<notin> owned s" and "free s l"
    and body: "\<And>t. ok t \<Longrightarrow> owned t = insert l (owned s)
                 \<Longrightarrow> wp body (\<lambda>_ u. ok u \<and> owned u = owned t) t"
  shows "wp (blockK [acq l, body, rel l]) (\<lambda>_ t. ok t \<and> owned t = owned s \<and> free t l) s"
proof -
  have "wp (rel l) (\<lambda>_ t. ok t \<and> owned t = owned s \<and> free t l) u"
    if "ok u" "owned u = insert l (owned s)" for u
    using rel_owned [of u l] that assms(2) by (auto elim!: wp_mono)
  then have "wp (blockK [body, rel l]) (\<lambda>_ t. ok t \<and> owned t = owned s \<and> free t l) t"
    if "ok t" "owned t = insert l (owned s)" for t
    using body [OF that] that by (auto elim!: wp_mono)
  then show ?thesis using acq_free [OF assms(1-3)] by (auto elim!: wp_mono)
qed

lemma self_deadlock_detected:
  assumes "ok s" and "l \<notin> owned s" and "free s l"
  shows "blockK [acq l, acq l] s = Panic ''acquire''"
  using acq_free [OF assms] acq_owned [of _ l] by (auto simp: bindK_def elim!: wpE)

lemma double_release_detected:
  assumes "ok s" and "l \<in> owned s"
  shows "blockK [rel l, rel l] s = Panic ''release''"
  using rel_owned [OF assms] rel_other [of _ l] by (auto simp: bindK_def elim!: wpE)

end

definition hart_owned :: "nat \<Rightarrow> smp \<Rightarrow> lockid set" where
  "hart_owned h s = {l. sp_locked (spin s l) \<and> sp_cpu (spin s l) = Some h}"

definition hart_ok :: "nat \<Rightarrow> smp \<Rightarrow> bool" where
  "hart_ok h s \<longleftrightarrow> finite (hart_owned h s) \<and> noff (cpus s h) = int (card (hart_owned h s)) \<and>
     (noff (cpus s h) > 0 \<longrightarrow> \<not> sie (cpus s h))"

interpretation hart: mutex "spin_acquire (Suc n) h" "spin_release h" "hart_owned h"
  "\<lambda>s l. \<not> sp_locked (spin s l)" "hart_ok h"
proof unfold_locales
  fix s l
  assume ok: "hart_ok h s" and l: "l \<notin> hart_owned h s" and fr: "\<not> sp_locked (spin s l)"
  let ?t = "s\<lparr>cpus := (cpus s)(h := \<lparr>sie = False, noff = noff (cpus s h) + 1,
      intena = (if noff (cpus s h) = 0 then sie (cpus s h) else intena (cpus s h))\<rparr>),
      spin := (spin s)(l := (spin s l)\<lparr>sp_locked := True, sp_cpu := Some h\<rparr>)\<rparr>"
  have "spin_acquire (Suc n) h l s = Ret () ?t"
    using fr by (simp add: spin_acquire_def thenK_def bindK_def smp_runs returnK_def)
  moreover have "hart_owned h ?t = insert l (hart_owned h s)" by (auto simp: hart_owned_def)
  ultimately show "wp (spin_acquire (Suc n) h l)
      (\<lambda>_ t. hart_ok h t \<and> hart_owned h t = insert l (hart_owned h s)) s"
    using ok l by (simp add: wp_Ret hart_ok_def)
next
  fix s l
  assume "hart_ok h s" "l \<in> hart_owned h s"
  then show "spin_acquire (Suc n) h l s = Panic ''acquire''"
    by (simp add: spin_acquire_def thenK_def bindK_def smp_runs panicK_def hart_owned_def)
next
  fix s l
  assume ok: "hart_ok h s" and l: "l \<in> hart_owned h s"
  then have pos: "noff (cpus s h) \<ge> 1" "\<not> sie (cpus s h)"
    by (auto simp: hart_ok_def card_gt_0_iff Suc_le_eq)
  let ?c = "cpus s h"
  let ?t = "s\<lparr>cpus := (cpus s)(h := ?c\<lparr>noff := noff ?c - 1, sie := (noff ?c = 1 \<and> intena ?c)\<rparr>),
      spin := (spin s)(l := (spin s l)\<lparr>sp_cpu := None, sp_locked := False\<rparr>)\<rparr>"
  have "spin_release h l s = Ret () ?t"
    using l pos by (simp add: spin_release_def bindK_def smp_runs Let_def returnK_def hart_owned_def)
  moreover have "hart_owned h ?t = hart_owned h s - {l}" by (auto simp: hart_owned_def)
  moreover have "int (card (hart_owned h s - {l})) = noff ?c - 1"
    using ok l pos by (simp add: hart_ok_def card_Diff_singleton of_nat_diff)
  ultimately show "wp (spin_release h l)
      (\<lambda>_ t. hart_ok h t \<and> hart_owned h t = hart_owned h s - {l} \<and> \<not> sp_locked (spin t l)) s"
    using ok pos by (simp add: wp_Ret hart_ok_def)
next
  fix s l
  assume "hart_ok h s" "l \<notin> hart_owned h s"
  then show "spin_release h l s = Panic ''release''"
    by (auto simp: spin_release_def bindK_def smp_runs panicK_def hart_owned_def)
qed

interpretation kern: mutex acquire release "\<lambda>s. set (held s)" "\<lambda>_ _. True" "\<lambda>s. distinct (held s)"
  by unfold_locales (simp_all add: run_acquire run_release distinct_remove1)

section \<open>Properties\<close>

text \<open>
  C2. Mutual exclusion and the interrupt discipline: in every state that the harts can reach by
  any interleaving of their lock operations, no two harts are in the critical section of the
  same lock, a hart that holds a lock runs with interrupts disabled, \<open>holding\<close> answers
  truthfully, and a hart that is about to undo a \<open>push_off\<close> passes both checks of \<open>pop_off\<close>.
\<close>

theorem spinlock_mutual_exclusion:
  assumes "lock_step\<^sup>*\<^sup>* boot_config c"
  shows "(l \<in> set (mine c h) \<longrightarrow> l \<in> set (mine c h') \<longrightarrow> h = h') \<and>
         (mine c h \<noteq> [] \<longrightarrow> \<not> sie (cpus (hw c) h)) \<and>
         spin_holding h l (hw c) = Ret (l \<in> set (mine c h)) (hw c) \<and>
         (pc c h = Popping \<longrightarrow> (\<exists>s. pop_off h (hw c) = Ret () s))"
proof -
  from lock_reachable_inv [OF assms] have ok: "own_ok c" and intr: "intr_ok c" by auto
  have cpu: "sp_cpu (spin (hw c) l) = Some h'' \<longleftrightarrow> l \<in> set (mine c h'')" for h''
    using ok by (simp add: own_ok_def)
  have "h = h'" if "l \<in> set (mine c h)" "l \<in> set (mine c h')"
    using that by (simp add: cpu [symmetric])
  moreover have "\<not> sie (cpus (hw c) h)" if "mine c h \<noteq> []"
  proof -
    have "length (mine c h) > 0" using that by simp
    then have "noff (cpus (hw c) h) > 0"
      using intr unfolding intr_ok_def by (simp del: length_greater_0_conv)
    then show ?thesis using intr unfolding intr_ok_def by blast
  qed
  moreover note spinlock_holding_mine [OF assms, of h l] popping_pop_off [OF assms, of h]
  ultimately show ?thesis by blast
qed

theorem spinlock_mutual_exclusion_witness:
  "\<exists>c. lock_step\<^sup>*\<^sup>* boot_config c \<and> mine c 0 = [KmemLock] \<and> \<not> sie (cpus (hw c) 0) \<and>
     (KmemLock \<in> set (mine c 1) \<longrightarrow> 0 = (1 :: nat))"
proof -
  obtain c where c: "lock_step\<^sup>*\<^sup>* boot_config c" "mine c = (mine boot_config)(0 := [KmemLock])"
    using spin_acquire_refines [OF rtranclp.rtrancl_refl, of 0 KmemLock]
    by (auto simp: boot_config_def)
  with spinlock_mutual_exclusion [OF c(1), of KmemLock 0 1] show ?thesis by auto
qed

text \<open>
  C5. The kernel's view of locking is the code's: from any reachable state, \<open>acquire\<close> and
  \<open>release\<close> as written in C panic in exactly the cases in which the operations on the list of
  held locks panic, spin exactly while another hart has the lock, and otherwise return in a
  state that the interleaving also reaches and in which the list has changed the same way.
\<close>

theorem lock_code_refines_held:
  assumes "lock_step\<^sup>*\<^sup>* boot_config c" and "pc c h = Running" and "held s = mine c h"
  shows "(case acquire l s of
            Ret _ t \<Rightarrow> if sp_locked (spin (hw c) l) then spin_acquire (Suc n) h l (hw c) = OutOfFuel
              else \<exists>c'. spin_acquire (Suc n) h l (hw c) = Ret () (hw c') \<and> lock_step\<^sup>*\<^sup>* c c' \<and>
                        held t = mine c' h
          | out \<Rightarrow> spin_acquire (Suc n) h l (hw c) = Panic ''acquire'' \<and> out = Panic ''acquire'') \<and>
         (case release l s of
            Ret _ t \<Rightarrow> \<exists>c'. spin_release h l (hw c) = Ret () (hw c') \<and> lock_step\<^sup>*\<^sup>* c c' \<and>
                        held t = mine c' h \<and> \<not> sp_locked (spin (hw c') l)
          | out \<Rightarrow> spin_release h l (hw c) = Panic ''release'' \<and> out = Panic ''release'')"
  using spin_acquire_refines [OF assms(1,2), of l n] spin_release_refines [OF assms(1,2), of l] assms(3)
  by (cases "l \<in> set (mine c h)"; cases "sp_locked (spin (hw c) l)")
    (auto simp: run_acquire run_release)

theorem lock_code_refines_held_witness:
  "\<exists>c'. spin_acquire 1 0 KmemLock (hw boot_config) = Ret () (hw c') \<and> lock_step\<^sup>*\<^sup>* boot_config c' \<and>
     mine c' 0 = [KmemLock]"
  using lock_code_refines_held [of boot_config 0 zero_kstate KmemLock 0]
  by (auto simp: boot_config_def zero_kstate_def run_acquire run_release)

end
