(* ===== verification/Kalloc.thy ===== *)
theory Kalloc
  imports Spinlock
begin

text \<open>
  \<open>kernel/kalloc.c\<close>: the physical page allocator. Free pages form a linked list threaded
  through their own first eight bytes. \<open>free_chain\<close> abstracts the list of pages from memory;
  \<open>kmem_inv s xs\<close> says that the chain that starts at \<open>kmem.freelist\<close> consists of exactly the
  distinct, page-aligned pages \<open>xs\<close> between the end of the kernel and \<open>PHYSTOP\<close>.

  \<open>kalloc\<close> and \<open>kfree\<close> implement the contract \<open>allocator\<close>, which the block allocator of the
  file system also implements.
\<close>

section \<open>The code\<close>

definition kfree :: "u64 \<Rightarrow> unit kern" where
  "kfree pa = bindK (getsK kend) (\<lambda>e.
     if pa mod of_nat PGSIZE \<noteq> 0 \<or> pa < e \<or> pa \<ge> PHYSTOP then panicK ''kfree''
     else blockK [
       modifyK (\<lambda>s. s\<lparr>mem := memset (mem s) pa 1 PGSIZE\<rparr>),
       acquire KmemLock,
       modifyK (\<lambda>s. s\<lparr>mem := store64 (mem s) pa (freelist s)\<rparr>),
       modifyK (\<lambda>s. s\<lparr>freelist := pa\<rparr>),
       release KmemLock])"

definition kalloc :: "u64 kern" where
  "kalloc =
     thenK (acquire KmemLock) (bindK (getsK freelist) (\<lambda>r.
       thenK (blockK [
         whenK (r \<noteq> 0) (modifyK (\<lambda>s. s\<lparr>freelist := load64 (mem s) r\<rparr>)),
         release KmemLock,
         whenK (r \<noteq> 0) (modifyK (\<lambda>s. s\<lparr>mem := memset (mem s) r 5 PGSIZE\<rparr>))])
       (returnK r)))"

text \<open>
  The loop of \<open>freerange\<close>. The fuel chosen by \<open>freerange\<close> exceeds the number of pages that
  fit below \<open>pa_end\<close>.
\<close>

primrec freerange_loop :: "nat \<Rightarrow> u64 \<Rightarrow> u64 \<Rightarrow> unit kern" where
  "freerange_loop 0 p pa_end = no_fuelK"
| "freerange_loop (Suc n) p pa_end =
     (if p + of_nat PGSIZE \<le> pa_end
      then thenK (kfree p) (freerange_loop n (p + of_nat PGSIZE) pa_end)
      else returnK ())"

definition freerange :: "u64 \<Rightarrow> u64 \<Rightarrow> unit kern" where
  "freerange pa_start pa_end = freerange_loop (Suc (unat pa_end div PGSIZE)) (PGROUNDUP pa_start) pa_end"

definition kinit :: "unit kern" where
  "kinit = bindK (getsK kend) (\<lambda>e. freerange e PHYSTOP)"

section \<open>The free list in memory\<close>

primrec free_chain :: "memory \<Rightarrow> u64 \<Rightarrow> u64 list \<Rightarrow> bool" where
  "free_chain m p [] \<longleftrightarrow> p = 0"
| "free_chain m p (x # xs) \<longleftrightarrow> p = x \<and> x \<noteq> 0 \<and> free_chain m (load64 m x) xs"

definition phys_page :: "kstate \<Rightarrow> u64 \<Rightarrow> bool" where
  "phys_page s x \<longleftrightarrow> page_aligned x \<and> kend s \<le> x \<and> x < PHYSTOP"

definition kmem_inv :: "kstate \<Rightarrow> u64 list \<Rightarrow> bool" where
  "kmem_inv s xs \<longleftrightarrow> free_chain (mem s) (freelist s) xs \<and> distinct xs \<and>
     (\<forall>x\<in>set xs. phys_page s x) \<and> kend s \<noteq> 0"

lemma PGSIZE_u64: "of_nat PGSIZE = (4096 :: u64)"
  by (simp add: PGSIZE_def)

lemma mod_PGSIZE: "(pa :: u64) mod of_nat PGSIZE = 0 \<longleftrightarrow> page_aligned pa"
  by (simp add: PGSIZE_u64 page_aligned_def word_unat_eq_iff unat_mod)

lemma memset_page: "page_aligned p \<Longrightarrow>
  memset m p c PGSIZE = (\<lambda>x. if PGROUNDDOWN x = p then word_of_int c else m x)"
  by (rule ext) (simp add: memset_eq PGSIZE_def fill_page)

lemma store64_page: "page_aligned p \<Longrightarrow> PGROUNDDOWN x \<noteq> p \<Longrightarrow> store64 m p w x = m x"
  using store64_other_page [of p 0 x m w] by simp

lemma load64_page:
  "page_aligned p \<Longrightarrow> (\<And>x. PGROUNDDOWN x = p \<Longrightarrow> m x = m' x) \<Longrightarrow> load64 m p = load64 m' p"
  using load64_page_cong [of p 0 m m'] by simp

lemma free_chain_cong:
  assumes "\<And>x a. x \<in> set xs \<Longrightarrow> PGROUNDDOWN a = x \<Longrightarrow> m a = m' a"
    and "\<forall>x\<in>set xs. page_aligned x"
  shows "free_chain m p xs = free_chain m' p xs"
  using assms
proof (induction xs arbitrary: p)
  case (Cons x xs)
  have "load64 m x = load64 m' x" using Cons.prems by (intro load64_page) auto
  then show ?case using Cons by auto
qed simp

section \<open>Weakest preconditions\<close>

lemma wp_kfree:
  "KmemLock \<notin> set (held s) \<Longrightarrow>
   wp (kfree pa) Q s \<longleftrightarrow> phys_page s pa \<and>
     Q () (s\<lparr>mem := store64 (memset (mem s) pa 1 PGSIZE) pa (freelist s), freelist := pa\<rparr>)"
  by (auto simp: kfree_def phys_page_def mod_PGSIZE not_less not_le)

lemma wp_kalloc:
  "KmemLock \<notin> set (held s) \<Longrightarrow>
   wp kalloc Q s \<longleftrightarrow> (if freelist s = 0 then Q 0 s
     else Q (freelist s) (s\<lparr>freelist := load64 (mem s) (freelist s),
                            mem := memset (mem s) (freelist s) 5 PGSIZE\<rparr>))"
  by (simp add: kalloc_def)

lemma kfree_panics:
  "\<not> phys_page s pa \<Longrightarrow> kfree pa s = Panic ''kfree''"
  by (auto simp: kfree_def run_simps phys_page_def mod_PGSIZE)

lemma kmem_inv_kfree:
  assumes inv: "kmem_inv s xs" and pa: "phys_page s pa" and new: "pa \<notin> set xs"
    and mem: "mem t = store64 (memset (mem s) pa 1 PGSIZE) pa (freelist s)"
    and fl: "freelist t = pa" and ke: "kend t = kend s"
  shows "kmem_inv t (pa # xs)"
proof -
  have al: "page_aligned pa" using pa by (simp add: phys_page_def)
  have "mem s a = mem t a" if "PGROUNDDOWN a = x" "x \<in> set xs" for x a
  proof -
    have "PGROUNDDOWN a \<noteq> pa" using new that by auto
    then show ?thesis by (simp add: mem store64_page memset_page al)
  qed
  then have "free_chain (mem t) (freelist s) xs"
    using inv free_chain_cong [of xs "mem s" "mem t"]
    by (auto simp: kmem_inv_def phys_page_def)
  moreover have "load64 (mem t) pa = freelist s" by (simp add: mem load64_store64_same)
  moreover have "pa \<noteq> 0" using inv pa by (auto simp: kmem_inv_def phys_page_def)
  ultimately show ?thesis
    using inv pa new by (simp add: kmem_inv_def phys_page_def fl ke)
qed

lemma kmem_inv_kalloc:
  assumes inv: "kmem_inv s (x # xs)"
    and mem: "mem t = memset (mem s) x 5 PGSIZE"
    and fl: "freelist t = load64 (mem s) x" and ke: "kend t = kend s"
  shows "kmem_inv t xs"
proof -
  have al: "page_aligned x" using inv by (simp add: kmem_inv_def phys_page_def)
  have "mem s a = mem t a" if "PGROUNDDOWN a = y" "y \<in> set xs" for y a
    using inv that by (auto simp: mem memset_page al kmem_inv_def)
  then have "free_chain (mem t) (load64 (mem s) x) xs"
    using inv free_chain_cong [of xs "mem s" "mem t"]
    by (auto simp: kmem_inv_def phys_page_def)
  then show ?thesis using inv by (simp add: kmem_inv_def phys_page_def fl ke)
qed

section \<open>\<open>kinit\<close>\<close>

lemma PGROUNDUP_eq: "PGROUNDUP a = PGROUNDDOWN (a + 4095)"
  by (simp add: PGROUNDUP_def PGROUNDDOWN_def PGSIZE_u64 add.commute)

lemma unat_next_page: "unat (p :: u64) + 4096 < 2 ^ 64 \<Longrightarrow> unat (p + 4096) = unat p + 4096"
  using unat_offset_u64 [of p 4096] by simp

lemma phystop_bound: "a \<le> PHYSTOP \<Longrightarrow> unat a \<le> 0x88000000"
  by (simp add: PHYSTOP_def KERNBASE_def word_le_nat_alt)

definition pages_from :: "u64 \<Rightarrow> nat \<Rightarrow> u64 list" where
  "pages_from p k = map (\<lambda>i. p + of_nat (4096 * i)) [0..<k]"

lemma pages_from_Suc: "pages_from p (Suc k) = p # pages_from (p + 4096) k"
  by (simp add: pages_from_def upt_conv_Cons map_Suc_upt [symmetric] algebra_simps del: upt_Suc)

lemma wp_freerange_loop:
  assumes "k < n" and "page_aligned p" and "kend s \<le> p"
    and "unat p + 4096 * k \<le> unat pa_end" and "unat pa_end < unat p + 4096 * Suc k"
    and "pa_end \<le> PHYSTOP" and "KmemLock \<notin> set (held s)"
    and "kmem_inv s xs" and "\<forall>x\<in>set xs. x < p"
  shows "wp (freerange_loop n p pa_end) (\<lambda>_ t. kmem_inv t (rev (pages_from p k) @ xs) \<and>
           kend t = kend s \<and> held t = held s) s"
  using assms
proof (induction k arbitrary: n p s xs)
  case 0
  then obtain n' where n: "n = Suc n'" by (cases n) auto
  have top: "unat pa_end \<le> 0x88000000" using "0.prems"(6) by (rule phystop_bound)
  then have "unat (p + 4096) = unat p + 4096" using "0.prems" by (intro unat_next_page) auto
  then have "\<not> p + 4096 \<le> pa_end" using "0.prems" by (simp add: word_le_nat_alt)
  then show ?case using "0.prems" by (simp add: n PGSIZE_u64 pages_from_def)
next
  case (Suc k)
  then obtain n' where n: "n = Suc n'" by (cases n) auto
  have top: "unat pa_end \<le> 0x88000000" using Suc.prems(6) by (rule phystop_bound)
  then have nx: "unat (p + 4096) = unat p + 4096" using Suc.prems by (intro unat_next_page) auto
  have le: "p + 4096 \<le> pa_end" using Suc.prems nx by (simp add: word_le_nat_alt)
  have pp: "phys_page s p"
    using Suc.prems nx le by (auto simp: phys_page_def word_less_nat_alt word_le_nat_alt)
  have new: "p \<notin> set xs" using Suc.prems by auto
  let ?t = "s\<lparr>mem := store64 (memset (mem s) p 1 PGSIZE) p (freelist s), freelist := p\<rparr>"
  have "kmem_inv ?t (p # xs)" by (rule kmem_inv_kfree [OF Suc.prems(8) pp new]) simp_all
  moreover have "page_aligned (p + 4096)" using Suc.prems(2) nx by (simp add: page_aligned_def)
  moreover have "\<forall>x\<in>set (p # xs). x < p + 4096"
    using Suc.prems(9) nx by (auto simp: word_less_nat_alt)
  moreover have "kend ?t \<le> p + 4096" using Suc.prems(3) nx by (simp add: word_le_nat_alt)
  ultimately have "wp (freerange_loop n' (p + 4096) pa_end)
      (\<lambda>_ t. kmem_inv t (rev (pages_from (p + 4096) k) @ (p # xs)) \<and> kend t = kend ?t \<and> held t = held ?t) ?t"
    using Suc.prems n nx by (intro Suc.IH) auto
  then show ?case using le pp Suc.prems(7)
    by (simp add: n PGSIZE_u64 pages_from_Suc wp_kfree)
qed

lemma set_pages_from:
  assumes "page_aligned p" and "unat q = unat p + 4096 * k"
  shows "set (pages_from p k) = {x. page_aligned x \<and> p \<le> x \<and> x < q}"
proof -
  have un: "unat (p + of_nat (4096 * i)) = unat p + 4096 * i" if "i < k" for i
    using assms(2) that unat_u64_lt [of q] by (intro unat_offset_u64) simp
  have "x \<in> set (pages_from p k)" if "page_aligned x" "p \<le> x" "x < q" for x
  proof -
    have al: "4096 dvd unat x" "4096 dvd unat p" "unat p \<le> unat x"
      using that assms(1) by (auto simp: page_aligned_def word_le_nat_alt)
    then obtain i where i: "unat x = unat p + 4096 * i"
      by (metis dvd_diff_nat dvdE le_add_diff_inverse)
    then have "i < k" using that assms(2) by (simp add: word_less_nat_alt)
    moreover have "x = p + of_nat (4096 * i)" using i un [OF \<open>i < k\<close>] by (simp add: word_unat_eq_iff)
    ultimately show ?thesis by (auto simp: pages_from_def)
  qed
  then show ?thesis using assms un
    by (auto simp: pages_from_def page_aligned_def word_le_nat_alt word_less_nat_alt)
qed

lemma unat_PGROUNDUP:
  assumes "unat a + 4095 < 2 ^ 64"
  shows "unat (PGROUNDUP a) = 4096 * ((unat a + 4095) div 4096)"
proof -
  have "unat (a + 4095) = unat a + 4095" using unat_offset_u64 [of a 4095] assms by simp
  then show ?thesis by (simp add: PGROUNDUP_eq unat_PGROUNDDOWN minus_mod_eq_mult_div)
qed

lemma PGROUNDUP_le_iff:
  assumes "page_aligned x" and "unat a + 4095 < 2 ^ 64"
  shows "PGROUNDUP a \<le> x \<longleftrightarrow> a \<le> x"
proof -
  obtain k where "unat x = 4096 * k" using assms(1) by (auto simp: page_aligned_def)
  moreover have "(unat a + 4095) div 4096 \<le> k \<longleftrightarrow> unat a \<le> 4096 * k"
    using div_less_iff_less_mult [of 4096 "unat a + 4095" "Suc k"] by (auto simp: less_Suc_eq_le)
  ultimately show ?thesis by (simp add: word_le_nat_alt unat_PGROUNDUP [OF assms(2)])
qed

lemma wp_kinit:
  assumes "kend s \<noteq> 0" and "kend s \<le> PHYSTOP" and "freelist s = 0" and "KmemLock \<notin> set (held s)"
  shows "wp kinit (\<lambda>_ t. \<exists>xs. kmem_inv t xs \<and> set xs = Collect (phys_page s) \<and>
           kend t = kend s \<and> held t = held s) s"
proof -
  let ?p = "PGROUNDUP (kend s)"
  have e: "unat (kend s) \<le> 0x88000000" using assms(2) by (rule phystop_bound)
  have top: "unat PHYSTOP = 4096 * 0x88000" by (simp add: PHYSTOP_def KERNBASE_def)
  have al: "page_aligned ?p" by (simp add: PGROUNDUP_eq)
  have up: "unat ?p = 4096 * ((unat (kend s) + 4095) div 4096)" using e by (intro unat_PGROUNDUP) simp
  have "(unat (kend s) + 4095) div 4096 \<le> 0x88000" using e by simp
  then obtain k where k: "(unat (kend s) + 4095) div 4096 + k = 0x88000" by (metis le_iff_add)
  then have q: "unat PHYSTOP = unat ?p + 4096 * k" by (simp add: up top)
  have "kend s \<le> ?p" using PGROUNDUP_le_iff [OF al, of "kend s"] e by simp
  moreover have "kmem_inv s []" using assms by (simp add: kmem_inv_def)
  moreover have "k < Suc (unat PHYSTOP div PGSIZE)" using k by (simp add: top PGSIZE_def)
  ultimately have "wp (freerange_loop (Suc (unat PHYSTOP div PGSIZE)) ?p PHYSTOP)
      (\<lambda>_ t. kmem_inv t (rev (pages_from ?p k) @ []) \<and> kend t = kend s \<and> held t = held s) s"
    using al q assms by (intro wp_freerange_loop) auto
  moreover have "set (pages_from ?p k) = Collect (phys_page s)"
    using set_pages_from [OF al q] PGROUNDUP_le_iff [of _ "kend s"] e by (auto simp: phys_page_def)
  ultimately show ?thesis
    by (simp add: kinit_def freerange_def del: freerange_loop.simps) (auto elim!: wp_mono simp del: freerange_loop.simps)
qed

section \<open>The contract of an allocator\<close>

primrec repeatK :: "nat \<Rightarrow> ('a, 's) stmt \<Rightarrow> ('a list, 's) stmt" where
  "repeatK 0 m = returnK []"
| "repeatK (Suc n) m = bindK m (\<lambda>r. bindK (repeatK n m) (\<lambda>rs. returnK (r # rs)))"

text \<open>
  An allocator hands out the members of a finite pool, none of them twice without a free in
  between, and answers with the null value exactly when nothing is left.
\<close>

locale allocator =
  fixes alloc :: "('a :: zero, 's) stmt"
    and free :: "'a \<Rightarrow> (unit, 's) stmt"
    and avail :: "'s \<Rightarrow> 'a set"
    and pool :: "'s \<Rightarrow> 'a set"
    and inv :: "'s \<Rightarrow> bool"
  assumes alloc_some: "\<lbrakk>inv s; avail s \<noteq> {}\<rbrakk> \<Longrightarrow>
      wp alloc (\<lambda>r t. inv t \<and> pool t = pool s \<and> r \<in> avail s \<and> avail t = avail s - {r}) s"
    and alloc_none: "\<lbrakk>inv s; avail s = {}\<rbrakk> \<Longrightarrow>
      wp alloc (\<lambda>r t. inv t \<and> pool t = pool s \<and> r = 0 \<and> avail t = {}) s"
    and free_ok: "\<lbrakk>inv s; r \<in> pool s; r \<notin> avail s\<rbrakk> \<Longrightarrow>
      wp (free r) (\<lambda>_ t. inv t \<and> pool t = pool s \<and> avail t = insert r (avail s)) s"
    and avail_pool: "inv s \<Longrightarrow> avail s \<subseteq> pool s \<and> finite (avail s) \<and> 0 \<notin> pool s"
begin

lemma alloc_null_iff:
  "inv s \<Longrightarrow> wp alloc (\<lambda>r t. inv t \<and> (r = 0 \<longleftrightarrow> avail s = {})) s"
  using alloc_some [of s] alloc_none [of s] avail_pool [of s]
  by (cases "avail s = {}") (auto elim!: wp_mono)

lemma alloc_many:
  "inv s \<Longrightarrow> n \<le> card (avail s) \<Longrightarrow>
   wp (repeatK n alloc) (\<lambda>rs t. inv t \<and> pool t = pool s \<and> length rs = n \<and> distinct rs \<and>
        set rs \<subseteq> avail s \<and> avail t = avail s - set rs) s"
proof (induction n arbitrary: s)
  case (Suc n)
  then have ne: "avail s \<noteq> {}" by auto
  have "wp (repeatK n alloc) (\<lambda>rs u. inv u \<and> pool u = pool s \<and> length rs = n \<and> distinct (r # rs) \<and>
        set (r # rs) \<subseteq> avail s \<and> avail u = avail s - set (r # rs)) t"
    if "inv t" "pool t = pool s" "r \<in> avail s" "avail t = avail s - {r}" for r t
  proof -
    have "n \<le> card (avail t)"
      using that Suc.prems avail_pool [of s] by (simp add: card_Diff_singleton)
    from Suc.IH [OF that(1) this] show ?thesis
      by (rule wp_mono) (use that in auto)
  qed
  then show ?case using alloc_some [OF Suc.prems(1) ne] by (auto elim!: wp_mono)
qed simp

lemma alloc_free_restores:
  "inv s \<Longrightarrow> avail s \<noteq> {} \<Longrightarrow>
   wp (bindK alloc free) (\<lambda>_ t. inv t \<and> pool t = pool s \<and> avail t = avail s) s"
proof -
  assume s: "inv s" "avail s \<noteq> {}"
  have "wp (free r) (\<lambda>_ u. inv u \<and> pool u = pool s \<and> avail u = avail s) t"
    if "inv t" "pool t = pool s" "r \<in> avail s" "avail t = avail s - {r}" for r t
  proof -
    have "r \<in> pool t" "r \<notin> avail t" using avail_pool [OF s(1)] that by auto
    from free_ok [OF that(1) this] show ?thesis by (rule wp_mono) (use that in auto)
  qed
  then show ?thesis using alloc_some [OF s] by (auto elim!: wp_mono)
qed

end

section \<open>The page allocator meets the contract\<close>

definition free_pages :: "kstate \<Rightarrow> u64 set" where
  "free_pages s = {x. \<exists>xs. kmem_inv s xs \<and> x \<in> set xs}"

definition kmem_ok :: "kstate \<Rightarrow> bool" where
  "kmem_ok s \<longleftrightarrow> (\<exists>xs. kmem_inv s xs) \<and> KmemLock \<notin> set (held s)"

lemma free_chain_unique: "free_chain m p xs \<Longrightarrow> free_chain m p ys \<Longrightarrow> xs = ys"
proof (induction xs arbitrary: p ys)
  case Nil
  then show ?case by (cases ys) auto
next
  case (Cons x xs)
  then show ?case by (cases ys) auto
qed

lemma free_pages_eq: "kmem_inv s xs \<Longrightarrow> free_pages s = set xs"
  using free_chain_unique unfolding free_pages_def kmem_inv_def by blast

interpretation pages: allocator kalloc kfree free_pages "\<lambda>s. Collect (phys_page s)" kmem_ok
proof unfold_locales
  fix s assume ok: "kmem_ok s" and ne: "free_pages s \<noteq> {}"
  then obtain x xs where inv: "kmem_inv s (x # xs)" and lk: "KmemLock \<notin> set (held s)"
    unfolding kmem_ok_def by (metis free_pages_eq list.set(1) neq_Nil_conv)
  let ?t = "s\<lparr>freelist := load64 (mem s) x, mem := memset (mem s) x 5 PGSIZE\<rparr>"
  have fl: "freelist s = x" "x \<noteq> 0" using inv by (auto simp: kmem_inv_def)
  have inv': "kmem_inv ?t xs" by (rule kmem_inv_kalloc [OF inv]) simp_all
  have "phys_page ?t = phys_page s" by (simp add: fun_eq_iff phys_page_def)
  moreover have "x \<notin> set xs" using inv by (simp add: kmem_inv_def)
  ultimately show "wp kalloc (\<lambda>r t. kmem_ok t \<and> Collect (phys_page t) = Collect (phys_page s) \<and>
      r \<in> free_pages s \<and> free_pages t = free_pages s - {r}) s"
    using inv' lk fl by (auto simp: wp_kalloc kmem_ok_def free_pages_eq [OF inv] free_pages_eq [OF inv'])
next
  fix s assume ok: "kmem_ok s" and "free_pages s = {}"
  then have "freelist s = 0" "KmemLock \<notin> set (held s)"
    unfolding kmem_ok_def using free_pages_eq by (auto simp: kmem_inv_def)
  then show "wp kalloc (\<lambda>r t. kmem_ok t \<and> Collect (phys_page t) = Collect (phys_page s) \<and>
      r = 0 \<and> free_pages t = {}) s"
    using ok \<open>free_pages s = {}\<close> by (simp add: wp_kalloc)
next
  fix s r assume ok: "kmem_ok s" and r: "r \<in> Collect (phys_page s)" "r \<notin> free_pages s"
  then obtain xs where inv: "kmem_inv s xs" and lk: "KmemLock \<notin> set (held s)"
    unfolding kmem_ok_def by blast
  let ?t = "s\<lparr>mem := store64 (memset (mem s) r 1 PGSIZE) r (freelist s), freelist := r\<rparr>"
  have inv': "kmem_inv ?t (r # xs)"
    by (rule kmem_inv_kfree [OF inv]) (use r in \<open>auto simp: free_pages_eq [OF inv]\<close>)
  have "phys_page ?t = phys_page s" by (simp add: fun_eq_iff phys_page_def)
  then show "wp (kfree r) (\<lambda>_ t. kmem_ok t \<and> Collect (phys_page t) = Collect (phys_page s) \<and>
      free_pages t = insert r (free_pages s)) s"
    using inv' lk r by (auto simp: wp_kfree kmem_ok_def free_pages_eq [OF inv] free_pages_eq [OF inv'])
next
  fix s assume "kmem_ok s"
  then obtain xs where inv: "kmem_inv s xs" unfolding kmem_ok_def by blast
  then show "free_pages s \<subseteq> Collect (phys_page s) \<and> finite (free_pages s) \<and>
      0 \<notin> Collect (phys_page s)"
    by (auto simp: free_pages_eq [OF inv] kmem_inv_def phys_page_def)
qed

section \<open>Properties\<close>

text \<open>
  C22. \<open>kinit\<close> (with \<open>freerange\<close>) terminates without a panic and leaves on the free list exactly
  the page frames between the end of the kernel image and \<open>PHYSTOP\<close>, each of them once, the
  list being well formed in memory.
\<close>

theorem kinit_frees_all:
  assumes "kend s \<noteq> 0" and "kend s \<le> PHYSTOP" and "freelist s = 0" and "KmemLock \<notin> set (held s)"
  shows "wp kinit (\<lambda>_ t. kmem_ok t \<and> free_pages t = {x. phys_page s x} \<and> held t = held s) s"
  by (rule wp_mono [OF wp_kinit [OF assms]]) (use assms(4) in \<open>auto simp: kmem_ok_def free_pages_eq\<close>)

theorem kinit_frees_all_witness:
  "wp kinit (\<lambda>_ t. kmem_ok t \<and> free_pages t = {x. phys_page zero_kstate x} \<and>
     held t = held zero_kstate) zero_kstate"
  by (rule kinit_frees_all) (simp_all add: zero_kstate_def PHYSTOP_def KERNBASE_def)

text \<open>
  C23. Any number of pages up to the number of free ones can be allocated in a row: \<open>kalloc\<close>
  never returns null on the way, all pages are distinct, all come from the free list, and
  exactly they are missing from it afterwards.
\<close>

theorem kalloc_distinct_pages:
  assumes "kmem_ok s" and "n \<le> card (free_pages s)"
  shows "wp (repeatK n kalloc) (\<lambda>rs t. kmem_ok t \<and> length rs = n \<and> distinct rs \<and> 0 \<notin> set rs \<and>
           set rs \<subseteq> free_pages s \<and> free_pages t = free_pages s - set rs) s"
  using pages.alloc_many [OF assms] pages.avail_pool [OF assms(1)]
  by (auto elim!: wp_mono)

definition one_free_page :: kstate where
  "one_free_page = zero_kstate\<lparr>freelist := 0x80041000\<rparr>"

lemma load64_zero [simp]: "load64 (\<lambda>_. 0) a = 0"
  by (simp add: load64_def read_bytes_def map_replicate_const)

lemma one_free_page_inv: "kmem_inv one_free_page [0x80041000]"
  by (simp add: one_free_page_def zero_kstate_def kmem_inv_def phys_page_def page_aligned_def
      PHYSTOP_def KERNBASE_def)

lemma one_free_page_ok: "kmem_ok one_free_page"
  using one_free_page_inv by (auto simp: kmem_ok_def one_free_page_def zero_kstate_def)

theorem kalloc_distinct_pages_witness:
  "wp (repeatK 1 kalloc) (\<lambda>rs t. kmem_ok t \<and> length rs = 1 \<and> distinct rs \<and> 0 \<notin> set rs \<and>
     set rs \<subseteq> free_pages one_free_page \<and> free_pages t = free_pages one_free_page - set rs) one_free_page"
  by (rule kalloc_distinct_pages [OF one_free_page_ok]) (simp add: free_pages_eq [OF one_free_page_inv])

text \<open>
  C24. \<open>kfree\<close> on every argument: an address that is not page aligned, lies below the end of the
  kernel or at or above \<open>PHYSTOP\<close> is refused by a panic; a page that is in use goes to the
  head of the free list, and the next \<open>kalloc\<close> returns it, filled with the junk byte 5, all
  other memory outside the page unchanged.
\<close>

theorem kfree_then_kalloc:
  assumes "kmem_ok s"
  shows "if \<not> phys_page s pa then kfree pa s = Panic ''kfree''
         else pa \<notin> free_pages s \<longrightarrow>
           wp (thenK (kfree pa) kalloc) (\<lambda>r t. r = pa \<and> kmem_ok t \<and> free_pages t = free_pages s \<and>
             (\<forall>x. mem t x = (if PGROUNDDOWN x = pa then 5 else mem s x))) s"
proof (cases "phys_page s pa")
  case False
  then show ?thesis by (simp add: kfree_panics)
next
  case pp: True
  from assms obtain xs where inv: "kmem_inv s xs" and lk: "KmemLock \<notin> set (held s)"
    unfolding kmem_ok_def by blast
  have al: "page_aligned pa" and nz: "pa \<noteq> 0"
    using pp inv by (auto simp: phys_page_def kmem_inv_def)
  let ?s1 = "s\<lparr>mem := store64 (memset (mem s) pa 1 PGSIZE) pa (freelist s), freelist := pa\<rparr>"
  let ?s2 = "?s1\<lparr>freelist := load64 (mem ?s1) pa, mem := memset (mem ?s1) pa 5 PGSIZE\<rparr>"
  have "kmem_ok ?s2 \<and> free_pages ?s2 = free_pages s" if "pa \<notin> free_pages s"
  proof -
    have "kmem_inv ?s1 (pa # xs)"
      using that by (intro kmem_inv_kfree [OF inv pp]) (auto simp: free_pages_eq [OF inv])
    then have inv2: "kmem_inv ?s2 xs" by (rule kmem_inv_kalloc) simp_all
    then have "free_pages ?s2 = free_pages s"
      using free_pages_eq [OF inv2] free_pages_eq [OF inv] by (simp only:)
    moreover have "kmem_ok ?s2" using inv2 lk unfolding kmem_ok_def by auto
    ultimately show ?thesis by blast
  qed
  moreover have "mem ?s2 x = (if PGROUNDDOWN x = pa then 5 else mem s x)" for x
    by (simp add: memset_page al store64_page)
  moreover have "wp (thenK (kfree pa) kalloc) Q s = Q pa ?s2" for Q
    using pp lk nz by (simp add: wp_kfree wp_kalloc)
  ultimately show ?thesis using pp by (simp only: simp_thms if_False) blast
qed

theorem kfree_then_kalloc_witness:
  "wp (thenK (kfree 0x80042000) kalloc) (\<lambda>r t. r = 0x80042000 \<and> kmem_ok t \<and>
     free_pages t = free_pages one_free_page \<and>
     (\<forall>x. mem t x = (if PGROUNDDOWN x = 0x80042000 then 5 else mem one_free_page x))) one_free_page"
proof -
  have "phys_page one_free_page 0x80042000"
    by (simp add: one_free_page_def zero_kstate_def phys_page_def page_aligned_def PHYSTOP_def KERNBASE_def)
  then show ?thesis
    using kfree_then_kalloc [OF one_free_page_ok, of "0x80042000"] by (simp add: free_pages_eq [OF one_free_page_inv])
qed

end
