(* ===== verification/Sched.thy ===== *)
theory Sched
  imports Kalloc
begin

text \<open>
  The part of \<open>kernel/proc.c\<close> that switches between kernel threads: the process table and its
  locks, \<open>sched\<close>, \<open>yield\<close>, \<open>sleep\<close>, \<open>wakeup\<close>, \<open>kkill\<close>, the scheduler.

  A thread that calls \<open>sched\<close> leaves the CPU in the middle of a C function. In the model the
  call ends with the outcome \<open>Asleep\<close> in the state at that moment; what the function does once
  the scheduler has switched back is a definition of its own (\<open>sleep_resume\<close>,
  \<open>yield_resume\<close>). A loop of the form \<open>while(cond) sleep(chan, lk);\<close> is the definition of one
  evaluation of the condition and what follows; a resumed thread runs \<open>sleep_resume\<close> and then
  that definition again.

  \<open>run_step\<close> is the resulting step relation between threads on one hart.
\<close>

section \<open>The process table\<close>

definition upd_proc :: "nat \<Rightarrow> (proc \<Rightarrow> proc) \<Rightarrow> unit kern" where
  "upd_proc p f = modifyK (\<lambda>s. s\<lparr>procs := (procs s)(p := f (procs s p))\<rparr>)"

definition myproc :: "nat kern" where
  "myproc = bindK (getsK cur) (\<lambda>c. case c of None \<Rightarrow> undefK ''myproc'' | Some p \<Rightarrow> returnK p)"

definition procinit :: "unit kern" where
  "procinit = forK [0..<NPROC] (\<lambda>p. blockK [
     upd_proc p (\<lambda>q. q\<lparr>p_state := UNUSED\<rparr>),
     upd_proc p (\<lambda>q. q\<lparr>p_kstack := KSTACK p\<rparr>)])"

definition allocpid :: "int kern" where
  "allocpid = thenK (acquire PidLock) (bindK (getsK nextpid) (\<lambda>pid.
     thenK (blockK [modifyK (\<lambda>s. s\<lparr>nextpid := nextpid s + 1\<rparr>), release PidLock])
       (returnK pid)))"

section \<open>Giving up the CPU\<close>

text \<open>
  The last check of \<open>sched\<close> (interrupts must be off) cannot fail once the first has passed: a
  hart that holds a lock runs with interrupts disabled.
\<close>

definition sched :: "'a kern" where
  "sched = bindK myproc (\<lambda>p.
     bindK (holding (ProcLock p)) (\<lambda>h.
       if \<not> h then panicK ''sched p->lock''
       else bindK (getsK (\<lambda>s. length (held s))) (\<lambda>n.
         if n \<noteq> 1 then panicK ''sched locks''
         else bindK (getsK (\<lambda>s. p_state (procs s p))) (\<lambda>st.
           if st = RUNNING then panicK ''sched RUNNING''
           else asleepK))))"

definition yield :: "unit kern" where
  "yield = bindK myproc (\<lambda>p. blockK [
     acquire (ProcLock p),
     upd_proc p (\<lambda>q. q\<lparr>p_state := RUNNABLE\<rparr>),
     sched])"

definition yield_resume :: "unit kern" where
  "yield_resume = bindK myproc (\<lambda>p. release (ProcLock p))"

definition sleep :: "chan \<Rightarrow> lockid \<Rightarrow> 'a kern" where
  "sleep c lk = bindK myproc (\<lambda>p.
     thenK (blockK [
       acquire (ProcLock p),
       release lk,
       upd_proc p (\<lambda>q. q\<lparr>p_chan := c\<rparr>),
       upd_proc p (\<lambda>q. q\<lparr>p_state := SLEEPING\<rparr>)])
     sched)"

definition sleep_resume :: "lockid \<Rightarrow> unit kern" where
  "sleep_resume lk = bindK myproc (\<lambda>p. blockK [
     upd_proc p (\<lambda>q. q\<lparr>p_chan := ChanNull\<rparr>),
     release (ProcLock p),
     acquire lk])"

definition wakeup_one :: "chan \<Rightarrow> nat \<Rightarrow> unit kern" where
  "wakeup_one c p = bindK (getsK cur) (\<lambda>me.
     whenK (Some p \<noteq> me) (blockK [
       acquire (ProcLock p),
       bindK (getsK (\<lambda>s. procs s p)) (\<lambda>q.
         whenK (p_state q = SLEEPING \<and> p_chan q = c) (upd_proc p (\<lambda>q. q\<lparr>p_state := RUNNABLE\<rparr>))),
       release (ProcLock p)]))"

definition wakeup :: "chan \<Rightarrow> unit kern" where
  "wakeup c = forK [0..<NPROC] (wakeup_one c)"

section \<open>Killing\<close>

primrec kkill_scan :: "nat list \<Rightarrow> int \<Rightarrow> int kern" where
  "kkill_scan [] pid = returnK (- 1)"
| "kkill_scan (p # ps) pid = thenK (acquire (ProcLock p))
     (bindK (getsK (\<lambda>s. procs s p)) (\<lambda>q.
       if p_pid q = pid
       then thenK (blockK [
           upd_proc p (\<lambda>q. q\<lparr>p_killed := True\<rparr>),
           whenK (p_state q = SLEEPING) (upd_proc p (\<lambda>q. q\<lparr>p_state := RUNNABLE\<rparr>)),
           release (ProcLock p)])
         (returnK 0)
       else thenK (release (ProcLock p)) (kkill_scan ps pid)))"

definition kkill :: "int \<Rightarrow> int kern" where
  "kkill pid = kkill_scan [0..<NPROC] pid"

definition setkilled :: "nat \<Rightarrow> unit kern" where
  "setkilled p = blockK [
     acquire (ProcLock p), upd_proc p (\<lambda>q. q\<lparr>p_killed := True\<rparr>), release (ProcLock p)]"

definition killed :: "nat \<Rightarrow> bool kern" where
  "killed p = thenK (acquire (ProcLock p))
     (bindK (getsK (\<lambda>s. p_killed (procs s p))) (\<lambda>k.
       thenK (release (ProcLock p)) (returnK k)))"

section \<open>The scheduler\<close>

text \<open>
  \<open>scheduler_visit p\<close> is the body of the inner loop up to \<open>swtch\<close>: it returns \<open>True\<close> in the
  state in which the thread of \<open>p\<close> starts to run (still holding \<open>p->lock\<close>), \<open>False\<close> when
  \<open>p\<close> is not runnable. \<open>scheduler_back\<close> is the rest of the body, run when the thread has
  switched back. \<open>scheduler_pass\<close> visits the table from a given entry on and stops at the first
  process it switches to.
\<close>

definition scheduler_visit :: "nat \<Rightarrow> bool kern" where
  "scheduler_visit p = thenK (acquire (ProcLock p))
     (bindK (getsK (\<lambda>s. p_state (procs s p))) (\<lambda>st.
       if st = RUNNABLE
       then thenK (blockK [
           upd_proc p (\<lambda>q. q\<lparr>p_state := RUNNING\<rparr>),
           modifyK (\<lambda>s. s\<lparr>cur := Some p\<rparr>)])
         (returnK True)
       else thenK (release (ProcLock p)) (returnK False)))"

definition scheduler_back :: "nat \<Rightarrow> unit kern" where
  "scheduler_back p = blockK [modifyK (\<lambda>s. s\<lparr>cur := None\<rparr>), release (ProcLock p)]"

primrec scheduler_pass :: "nat list \<Rightarrow> nat option kern" where
  "scheduler_pass [] = returnK None"
| "scheduler_pass (p # ps) = bindK (scheduler_visit p) (\<lambda>r.
     if r then returnK (Some p) else scheduler_pass ps)"

section \<open>Effects\<close>

lemma wp_upd_proc [wp_simps, simp]:
  "wp (upd_proc p f) Q s = Q () (s\<lparr>procs := (procs s)(p := f (procs s p))\<rparr>)"
  by (simp add: upd_proc_def)

lemma wp_myproc [wp_simps]: "wp myproc Q s \<longleftrightarrow> (\<exists>p. cur s = Some p \<and> Q p s)"
  by (auto simp: myproc_def wp_simps split: option.splits)

lemma run_myproc: "cur s = Some p \<Longrightarrow> myproc s = Ret p s"
  by (simp add: myproc_def run_simps)

text \<open>\<open>sched\<close> and \<open>sleep\<close> never return to their caller: no postcondition holds of them.\<close>

lemma run_sched:
  assumes "cur s = Some p"
  shows "sched s = (if ProcLock p \<notin> set (held s) then Panic ''sched p->lock''
     else if length (held s) \<noteq> 1 then Panic ''sched locks''
     else if p_state (procs s p) = RUNNING then Panic ''sched RUNNING'' else Asleep s)"
  using assms by (simp add: sched_def bindK_def run_myproc holding_def run_simps)

lemma wp_sched [wp_simps, simp]: "wp sched Q s = False"
  by (auto simp: sched_def wp_simps)

lemma wp_sleep [wp_simps, simp]: "wp (sleep c lk) Q s = False"
  by (auto simp: sleep_def wp_simps)

definition asleep_on :: "chan \<Rightarrow> nat \<Rightarrow> kstate \<Rightarrow> kstate" where
  "asleep_on c p s = s\<lparr>held := [ProcLock p],
     procs := (procs s)(p := (procs s p)\<lparr>p_chan := c, p_state := SLEEPING\<rparr>)\<rparr>"

lemma run_sleep:
  assumes "cur s = Some p" and "held s = [lk]" and "lk \<noteq> ProcLock p"
  shows "sleep c lk s = Asleep (asleep_on c p s)"
  using assms by (simp add: sleep_def thenK_def bindK_def run_myproc run_acquire run_release
      upd_proc_def modifyK_def returnK_def run_sched asleep_on_def)

lemma run_sleep_locks:
  assumes "cur s = Some p" and "lk \<in> set (held s)" and "ProcLock p \<notin> set (held s)"
    and "length (held s) \<noteq> 1"
  shows "sleep c lk s = Panic ''sched locks''"
  using assms by (auto simp: sleep_def thenK_def bindK_def run_myproc run_acquire run_release
      upd_proc_def modifyK_def returnK_def run_sched length_remove1 le_Suc_eq)

lemma run_yield:
  assumes "cur s = Some p" and "held s = []"
  shows "yield s = Asleep (s\<lparr>held := [ProcLock p],
           procs := (procs s)(p := (procs s p)\<lparr>p_state := RUNNABLE\<rparr>)\<rparr>)"
  using assms by (simp add: yield_def thenK_def bindK_def run_myproc run_acquire run_release
      upd_proc_def modifyK_def returnK_def run_sched)

definition woken :: "chan \<Rightarrow> nat set \<Rightarrow> kstate \<Rightarrow> nat \<Rightarrow> proc" where
  "woken c ps s p = (if p \<in> ps \<and> Some p \<noteq> cur s \<and> p_state (procs s p) = SLEEPING \<and> p_chan (procs s p) = c
     then (procs s p)\<lparr>p_state := RUNNABLE\<rparr> else procs s p)"

lemma wp_wakeup_one:
  "(Some p \<noteq> cur s \<Longrightarrow> ProcLock p \<notin> set (held s)) \<Longrightarrow>
   wp (wakeup_one c p) Q s = Q () (s\<lparr>procs := woken c {p} s\<rparr>)"
proof -
  assume *: "Some p \<noteq> cur s \<Longrightarrow> ProcLock p \<notin> set (held s)"
  have "woken c {p} s = (if Some p \<noteq> cur s \<and> p_state (procs s p) = SLEEPING \<and> p_chan (procs s p) = c
      then (procs s)(p := (procs s p)\<lparr>p_state := RUNNABLE\<rparr>) else procs s)"
    by (auto simp: woken_def fun_eq_iff)
  with * show ?thesis by (auto simp: wakeup_one_def)
qed

lemma wp_wakeup_list:
  assumes "\<forall>p\<in>set ps. Some p \<noteq> cur s \<longrightarrow> ProcLock p \<notin> set (held s)"
  shows "wp (forK ps (wakeup_one c)) Q s = Q () (s\<lparr>procs := woken c (set ps) s\<rparr>)"
  using assms
proof (induction ps arbitrary: s)
  case Nil
  have "woken c {} s = procs s" by (simp add: woken_def fun_eq_iff)
  then show ?case by simp
next
  case (Cons p ps)
  have "woken c (set ps) (s\<lparr>procs := woken c {p} s\<rparr>) = woken c (set (p # ps)) s"
    by (auto simp: woken_def fun_eq_iff)
  then show ?case using Cons by (simp add: wp_wakeup_one)
qed

definition no_proc_locks :: "kstate \<Rightarrow> bool" where
  "no_proc_locks s \<longleftrightarrow> (\<forall>p. ProcLock p \<notin> set (held s))"

lemma wp_wakeup:
  "no_proc_locks s \<Longrightarrow> wp (wakeup c) Q s = Q () (s\<lparr>procs := woken c {0..<NPROC} s\<rparr>)"
  unfolding wakeup_def by (subst wp_wakeup_list) (auto simp: no_proc_locks_def)

lemma wp_killed: "ProcLock p \<notin> set (held s) \<Longrightarrow> wp (killed p) Q s = Q (p_killed (procs s p)) s"
  by (simp add: killed_def)

lemma wp_allocpid:
  "PidLock \<notin> set (held s) \<Longrightarrow> wp allocpid Q s = Q (nextpid s) (s\<lparr>nextpid := nextpid s + 1\<rparr>)"
  by (simp add: allocpid_def)

section \<open>Threads on one hart\<close>

text \<open>
  A running thread (\<open>cur = Some p\<close>) may yield, may sleep on any channel under any lock that is
  its only one, may acquire and release locks other than those of processes, may wake or kill
  others; the
  scheduler (\<open>cur = None\<close>) switches to a runnable process. A dispatched thread first releases
  its own \<open>p->lock\<close> (\<open>yield_resume\<close>, \<open>sleep_resume\<close>, \<open>forkret\<close> all start with it).
\<close>

inductive run_step :: "kstate \<Rightarrow> kstate \<Rightarrow> bool" where
  dispatch: "cur s = None \<Longrightarrow> p < NPROC \<Longrightarrow> scheduler_visit p s = Ret True t \<Longrightarrow> run_step s t"
| resume_yield: "yield_resume s = Ret () t \<Longrightarrow> run_step s t"
| resume_sleep: "sleep_resume lk s = Ret () t \<Longrightarrow> \<forall>q. lk \<noteq> ProcLock q \<Longrightarrow> run_step s t"
| yields: "cur s = Some p \<Longrightarrow> yield s = Asleep t \<Longrightarrow> scheduler_back p t = Ret () u \<Longrightarrow> run_step s u"
| sleeps: "cur s = Some p \<Longrightarrow> \<forall>q. lk \<noteq> ProcLock q \<Longrightarrow> sleep c lk s = (Asleep t :: (unit, kstate) outcome)
    \<Longrightarrow> scheduler_back p t = Ret () u \<Longrightarrow> run_step s u"
| locks: "cur s = Some p \<Longrightarrow> \<forall>q. lk \<noteq> ProcLock q \<Longrightarrow> acquire lk s = Ret () t \<Longrightarrow> run_step s t"
| unlocks: "cur s = Some p \<Longrightarrow> \<forall>q. lk \<noteq> ProcLock q \<Longrightarrow> release lk s = Ret () t \<Longrightarrow> run_step s t"
| wakes: "no_proc_locks s \<Longrightarrow> wakeup c s = Ret () t \<Longrightarrow> run_step s t"
| kills: "no_proc_locks s \<Longrightarrow> kkill pid s = Ret r t \<Longrightarrow> run_step s t"

definition run_inv :: "kstate \<Rightarrow> bool" where
  "run_inv s \<longleftrightarrow> (\<forall>p<NPROC. p_state (procs s p) = RUNNING \<longleftrightarrow> cur s = Some p) \<and>
     (\<forall>p. cur s = Some p \<longrightarrow> p < NPROC) \<and> (cur s = None \<longrightarrow> held s = []) \<and> distinct (held s) \<and>
     (\<forall>q. ProcLock q \<in> set (held s) \<longrightarrow> cur s = Some q)"

lemma sleep_AsleepD:
  assumes "cur s = Some p" and "sleep c lk s = Asleep t" and "lk \<noteq> ProcLock p"
  shows "held s = [lk] \<and> t = asleep_on c p s"
proof -
  have "held s = [lk]"
    using assms by (cases "held s") (auto simp: sleep_def thenK_def bindK_def run_myproc run_acquire
        run_release upd_proc_def modifyK_def returnK_def run_sched split: if_splits)
  with assms show ?thesis by (simp add: run_sleep)
qed

lemma yield_AsleepD:
  assumes "cur s = Some p" and "yield s = Asleep t"
  shows "held s = [] \<and> t = s\<lparr>held := [ProcLock p],
           procs := (procs s)(p := (procs s p)\<lparr>p_state := RUNNABLE\<rparr>)\<rparr>"
proof -
  have "held s = []"
    using assms by (cases "held s") (auto simp: yield_def thenK_def bindK_def run_myproc run_acquire
        run_release upd_proc_def modifyK_def returnK_def run_sched split: if_splits)
  with assms show ?thesis using run_yield [OF assms(1)] by simp
qed

lemma run_scheduler_back:
  "ProcLock p \<in> set (held s) \<Longrightarrow>
   scheduler_back p s = Ret () (s\<lparr>cur := None, held := remove1 (ProcLock p) (held s)\<rparr>)"
  by (simp add: scheduler_back_def run_simps run_release)

lemma run_scheduler_visit:
  assumes "ProcLock p \<notin> set (held s)"
  shows "scheduler_visit p s = (if p_state (procs s p) = RUNNABLE
     then Ret True (s\<lparr>held := ProcLock p # held s, procs := (procs s)(p := (procs s p)\<lparr>p_state := RUNNING\<rparr>),
                      cur := Some p\<rparr>)
     else Ret False s)"
  using assms by (simp add: scheduler_visit_def run_simps upd_proc_def run_acquire run_release)

definition kill_proc :: "proc \<Rightarrow> proc" where
  "kill_proc q = q\<lparr>p_killed := True, p_state := (if p_state q = SLEEPING then RUNNABLE else p_state q)\<rparr>"

lemma wp_kkill_scan:
  assumes "no_proc_locks s"
  shows "wp (kkill_scan ps pid) Q s = (case find (\<lambda>p. p_pid (procs s p) = pid) ps of
      None \<Rightarrow> Q (- 1) s
    | Some p \<Rightarrow> Q 0 (s\<lparr>procs := (procs s)(p := kill_proc (procs s p))\<rparr>))"
  using assms
proof (induction ps)
  case (Cons p ps)
  have "(procs s p)\<lparr>p_killed := True\<rparr> = kill_proc (procs s p)" if "p_state (procs s p) \<noteq> SLEEPING"
    using that by (simp add: kill_proc_def)
  moreover have "(procs s p)\<lparr>p_killed := True, p_state := RUNNABLE\<rparr> = kill_proc (procs s p)"
    if "p_state (procs s p) = SLEEPING" using that by (simp add: kill_proc_def)
  ultimately show ?case using Cons by (auto simp: no_proc_locks_def)
qed simp

lemma run_inv_cong:
  assumes "run_inv s" and "cur t = cur s" and "distinct (held t)" and "cur s = None \<longrightarrow> held t = []"
    and "\<And>q. ProcLock q \<in> set (held t) \<Longrightarrow> ProcLock q \<in> set (held s)"
    and "\<And>p. p_state (procs t p) = RUNNING \<longleftrightarrow> p_state (procs s p) = RUNNING"
  shows "run_inv t"
  using assms(1,3-5) unfolding run_inv_def assms(2) assms(6) by blast

lemma run_inv_distinct: "run_inv s \<Longrightarrow> distinct (held s)"
  by (simp add: run_inv_def)

lemma run_inv_step: "run_step s t \<Longrightarrow> run_inv s \<Longrightarrow> run_inv t"
proof (induction rule: run_step.induct)
  case (dispatch s p t)
  then have "held s = []" by (simp add: run_inv_def)
  with dispatch(3) have "t = s\<lparr>held := [ProcLock p],
      procs := (procs s)(p := (procs s p)\<lparr>p_state := RUNNING\<rparr>), cur := Some p\<rparr>"
    by (simp add: run_scheduler_visit split: if_splits)
  with dispatch show ?case by (simp add: run_inv_def)
next
  case (resume_yield s t)
  have "wp yield_resume (\<lambda>_ u. u = t) s" by (simp add: wp_def resume_yield(1))
  then obtain p where "cur s = Some p" "t = s\<lparr>held := remove1 (ProcLock p) (held s)\<rparr>"
    by (auto simp: yield_resume_def wp_simps)
  with run_inv_distinct [OF resume_yield(2)] show ?case
    by (intro run_inv_cong [OF resume_yield(2)]) (auto dest: notin_set_remove1)
next
  case (resume_sleep lk s t)
  have "wp (sleep_resume lk) (\<lambda>_ u. u = t) s" by (simp add: wp_def resume_sleep(1))
  then obtain p where p: "cur s = Some p" and lk: "lk \<notin> set (remove1 (ProcLock p) (held s))"
    and t: "t = s\<lparr>procs := (procs s)(p := (procs s p)\<lparr>p_chan := ChanNull\<rparr>),
          held := lk # remove1 (ProcLock p) (held s)\<rparr>"
    by (auto simp: sleep_resume_def wp_simps)
  show ?case using p lk run_inv_distinct [OF resume_sleep(3)] resume_sleep(2)
    by (intro run_inv_cong [OF resume_sleep(3)]) (auto simp: t dest: notin_set_remove1)
next
  case (yields s p t u)
  from yield_AsleepD [OF yields(1,2)] yields(3) have "held s = []" and
    u: "u = s\<lparr>cur := None, held := [], procs := (procs s)(p := (procs s p)\<lparr>p_state := RUNNABLE\<rparr>)\<rparr>"
    by (auto simp: run_scheduler_back)
  with yields(1,4) show ?case by (simp add: run_inv_def)
next
  case (sleeps s p lk c t u)
  from sleep_AsleepD [OF sleeps(1,3)] sleeps show ?case
    by (auto simp: run_scheduler_back run_inv_def asleep_on_def)
next
  case (locks s p lk t)
  with run_inv_distinct [OF locks(4)] show ?case
    by (intro run_inv_cong [OF locks(4)]) (auto simp: run_acquire split: if_splits)
next
  case (unlocks s p lk t)
  with run_inv_distinct [OF unlocks(4)] show ?case
    by (intro run_inv_cong [OF unlocks(4)]) (auto simp: run_release split: if_splits)
next
  case (wakes s c t)
  have "wp (wakeup c) (\<lambda>_ u. u = t) s" by (simp add: wp_def wakes(2))
  then have t: "t = s\<lparr>procs := woken c {0..<NPROC} s\<rparr>" by (simp add: wp_wakeup wakes(1))
  show ?case using wakes(3) by (intro run_inv_cong [OF wakes(3)]) (auto simp: t woken_def run_inv_def)
next
  case (kills s pid r t)
  have "wp (kkill pid) (\<lambda>_ u. u = t) s" by (simp add: wp_def kills(2))
  then obtain p where t: "t = s \<or> t = s\<lparr>procs := (procs s)(p := kill_proc (procs s p))\<rparr>"
    by (auto simp: kkill_def wp_kkill_scan [OF kills(1)] split: option.splits)
  show ?case using kills(3) t
    by (intro run_inv_cong [OF kills(3)]) (auto simp: kill_proc_def run_inv_def split: if_splits)
qed

lemma run_inv_reachable: "run_step\<^sup>*\<^sup>* s t \<Longrightarrow> run_inv s \<Longrightarrow> run_inv t"
  by (induction rule: rtranclp_induct) (auto intro: run_inv_step)

lemma wp_scheduler_pass:
  "no_proc_locks s \<Longrightarrow>
   wp (scheduler_pass ps) Q s = (case find (\<lambda>p. p_state (procs s p) = RUNNABLE) ps of
      None \<Rightarrow> Q None s
    | Some p \<Rightarrow> Q (Some p) (s\<lparr>held := ProcLock p # held s,
        procs := (procs s)(p := (procs s p)\<lparr>p_state := RUNNING\<rparr>), cur := Some p\<rparr>))"
  by (induction ps) (auto simp: wp_def bindK_def run_scheduler_visit no_proc_locks_def returnK_def)

section \<open>Properties\<close>



text \<open>
  C20. \<open>wakeup\<close> changes exactly the processes of the table, other than the caller, that sleep on
  the channel: they become RUNNABLE and nothing else about them changes; no other process and
  no other part of the kernel state changes, and all locks are as before.
\<close>

theorem wakeup_exact:
  assumes "no_proc_locks s"
  shows "wp (wakeup c) (\<lambda>_ t. t = s\<lparr>procs := procs t\<rparr> \<and>
    (\<forall>p. procs t p = (if p < NPROC \<and> cur s \<noteq> Some p \<and> p_state (procs s p) = SLEEPING \<and> p_chan (procs s p) = c
                     then (procs s p)\<lparr>p_state := RUNNABLE\<rparr> else procs s p))) s"
  by (auto simp: wp_wakeup [OF assms] woken_def)

definition two_sleepers :: kstate where
  "two_sleepers = zero_kstate\<lparr>cur := Some 0, procs := (\<lambda>p. zero_proc\<lparr>p_state := SLEEPING,
     p_chan := (if p = 1 then ChanLog else ChanTicks)\<rparr>)\<rparr>"

theorem wakeup_exact_witness:
  "wp (wakeup ChanLog) (\<lambda>_ t. p_state (procs t 1) = RUNNABLE \<and> p_state (procs t 2) = SLEEPING) two_sleepers"
proof -
  have "no_proc_locks two_sleepers" by (simp add: no_proc_locks_def two_sleepers_def zero_kstate_def)
  from wakeup_exact [OF this, of ChanLog] show ?thesis
    by (rule wp_mono) (simp add: two_sleepers_def zero_kstate_def NPROC_def)
qed

text \<open>
  C21. \<open>sleep\<close> under its condition lock and no other: the thread leaves the CPU in the state
  SLEEPING on its channel, with the condition lock released and only its own \<open>p->lock\<close> held.
  With any further lock held, \<open>sched\<close> panics instead of sleeping with it.
\<close>

theorem sleep_releases_its_lock:
  assumes "cur s = Some p" and "lk \<in> set (held s)" and "ProcLock p \<notin> set (held s)"
  shows "sleep c lk s = (if held s = [lk]
     then Asleep (s\<lparr>held := [ProcLock p],
       procs := (procs s)(p := (procs s p)\<lparr>p_chan := c, p_state := SLEEPING\<rparr>)\<rparr>)
     else Panic ''sched locks'' :: (unit, kstate) outcome)"
proof (cases "held s = [lk]")
  case True
  then have "lk \<noteq> ProcLock p" using assms by auto
  then show ?thesis using True assms by (simp add: run_sleep asleep_on_def)
next
  case False
  then have "length (held s) \<noteq> 1" using assms(2) by (cases "held s") auto
  then show ?thesis using False assms by (simp add: run_sleep_locks)
qed

theorem sleep_releases_its_lock_witness:
  "sleep ChanTicks TicksLock (zero_kstate\<lparr>cur := Some 3, held := [TicksLock, ConsLock]\<rparr>)
     = (Panic ''sched locks'' :: (unit, kstate) outcome)"
  using sleep_releases_its_lock [of "zero_kstate\<lparr>cur := Some 3, held := [TicksLock, ConsLock]\<rparr>" 3 TicksLock ChanTicks]
  by simp

end
