(* ===== verification/Sleeplock.thy ===== *)
theory Sleeplock
  imports Sched
begin

text \<open>
  \<open>kernel/sleeplock.c\<close>: locks that are held across disk operations. A thread that finds the
  lock taken sleeps on it. \<open>sl_step\<close> interleaves any number of processes that use one sleep
  lock (each critical section of the inner spinlock is atomic, by the mutual exclusion of
  spinlocks); its invariant is that the lock has at most one owner and that no wakeup is lost:
  whoever sleeps on the lock does so while the lock is owned, so that the owner's
  \<open>releasesleep\<close> will wake it.
\<close>

section \<open>The code\<close>

definition upd_sl :: "sleepid \<Rightarrow> (sleeplock \<Rightarrow> sleeplock) \<Rightarrow> unit kern" where
  "upd_sl i f = modifyK (\<lambda>s. s\<lparr>slocks := (slocks s)(i := f (slocks s i))\<rparr>)"

definition initsleeplock :: "sleepid \<Rightarrow> unit kern" where
  "initsleeplock i = blockK [
     upd_sl i (\<lambda>l. l\<lparr>sl_locked := False\<rparr>),
     upd_sl i (\<lambda>l. l\<lparr>sl_pid := 0\<rparr>)]"

definition acquiresleep_loop :: "sleepid \<Rightarrow> unit kern" where
  "acquiresleep_loop i = bindK (getsK (\<lambda>s. sl_locked (slocks s i))) (\<lambda>locked.
     if locked then sleep (ChanSleeplock i) (SleepSpin i)
     else blockK [
       upd_sl i (\<lambda>l. l\<lparr>sl_locked := True\<rparr>),
       bindK myproc (\<lambda>p. bindK (getsK (\<lambda>s. p_pid (procs s p))) (\<lambda>pid.
         upd_sl i (\<lambda>l. l\<lparr>sl_pid := pid\<rparr>))),
       release (SleepSpin i)])"

definition acquiresleep :: "sleepid \<Rightarrow> unit kern" where
  "acquiresleep i = thenK (acquire (SleepSpin i)) (acquiresleep_loop i)"

definition releasesleep :: "sleepid \<Rightarrow> unit kern" where
  "releasesleep i = blockK [
     acquire (SleepSpin i),
     upd_sl i (\<lambda>l. l\<lparr>sl_locked := False\<rparr>),
     upd_sl i (\<lambda>l. l\<lparr>sl_pid := 0\<rparr>),
     wakeup (ChanSleeplock i),
     release (SleepSpin i)]"

definition holdingsleep :: "sleepid \<Rightarrow> bool kern" where
  "holdingsleep i = thenK (acquire (SleepSpin i))
     (bindK myproc (\<lambda>p. bindK (getsK (\<lambda>s. sl_locked (slocks s i) \<and> sl_pid (slocks s i) = p_pid (procs s p)))
       (\<lambda>r. thenK (release (SleepSpin i)) (returnK r))))"

section \<open>Effects\<close>

lemma wp_upd_sl [wp_simps, simp]:
  "wp (upd_sl i f) Q s = Q () (s\<lparr>slocks := (slocks s)(i := f (slocks s i))\<rparr>)"
  by (simp add: upd_sl_def)

definition taken :: "sleepid \<Rightarrow> nat \<Rightarrow> kstate \<Rightarrow> kstate" where
  "taken i p s = s\<lparr>slocks := (slocks s)(i := \<lparr>sl_locked = True, sl_pid = p_pid (procs s p)\<rparr>)\<rparr>"

definition given_up :: "sleepid \<Rightarrow> kstate \<Rightarrow> kstate" where
  "given_up i s = s\<lparr>slocks := (slocks s)(i := \<lparr>sl_locked = False, sl_pid = 0\<rparr>),
     procs := woken (ChanSleeplock i) {0..<NPROC} s\<rparr>"

lemma sleeplock_upd_eq: "l\<lparr>sl_locked := a, sl_pid := b\<rparr> = \<lparr>sl_locked = a, sl_pid = b\<rparr>"
  by (cases l) simp

lemma wp_acquiresleep:
  assumes "cur s = Some p" and "SleepSpin i \<notin> set (held s)"
  shows "wp (acquiresleep i) Q s \<longleftrightarrow> \<not> sl_locked (slocks s i) \<and> Q () (taken i p s)"
  using assms
  by (auto simp: acquiresleep_def acquiresleep_loop_def wp_simps taken_def sleeplock_upd_eq)

lemma wp_releasesleep:
  assumes "no_proc_locks s" and "SleepSpin i \<notin> set (held s)"
  shows "wp (releasesleep i) Q s \<longleftrightarrow> Q () (given_up i s)"
proof -
  have n: "no_proc_locks (s\<lparr>held := SleepSpin i # held s, slocks := sl\<rparr>)" for sl
    using assms(1) by (simp add: no_proc_locks_def)
  have w: "woken c ps (s\<lparr>held := h, slocks := sl\<rparr>) = woken c ps s" for c ps h sl
    by (simp add: woken_def fun_eq_iff)
  show ?thesis
    using assms(2) n by (simp add: releasesleep_def wp_wakeup w given_up_def sleeplock_upd_eq)
qed

lemma wp_holdingsleep:
  assumes "cur s = Some p" and "SleepSpin i \<notin> set (held s)"
  shows "wp (holdingsleep i) Q s \<longleftrightarrow>
    Q (sl_locked (slocks s i) \<and> sl_pid (slocks s i) = p_pid (procs s p)) s"
  using assms by (auto simp: holdingsleep_def wp_simps)

lemma run_acquiresleep:
  assumes "cur s = Some p" and "held s = []"
  shows "acquiresleep i s = (if sl_locked (slocks s i)
     then Asleep (asleep_on (ChanSleeplock i) p s) else Ret () (taken i p s))"
proof (cases "sl_locked (slocks s i)")
  case True
  then show ?thesis using assms
    by (simp add: acquiresleep_def acquiresleep_loop_def thenK_def bindK_def getsK_def run_acquire
        run_sleep asleep_on_def)
next
  case False
  then have "wp (acquiresleep i) (\<lambda>_ t. t = taken i p s) s" using assms by (simp add: wp_acquiresleep)
  then show ?thesis using False by (auto simp: wp_iff)
qed

section \<open>Processes that share a sleep lock\<close>

datatype phase = Out | Waiting | In

definition as_proc :: "nat \<Rightarrow> kstate \<Rightarrow> kstate" where
  "as_proc p s = s\<lparr>cur := Some p\<rparr>"

definition outside :: "kstate \<Rightarrow> kstate" where
  "outside s = s\<lparr>cur := None\<rparr>"

definition acquiresleep_resume :: "sleepid \<Rightarrow> unit kern" where
  "acquiresleep_resume i = thenK (sleep_resume (SleepSpin i)) (acquiresleep_loop i)"

inductive sl_step :: "sleepid \<Rightarrow> kstate \<times> (nat \<Rightarrow> phase) \<Rightarrow> kstate \<times> (nat \<Rightarrow> phase) \<Rightarrow> bool"
  for i :: sleepid where
  take: "\<lbrakk>p < NPROC; p_state (procs s p) = RUNNING; ph p = Out; acquiresleep i (as_proc p s) = Ret () t\<rbrakk>
    \<Longrightarrow> sl_step i (s, ph) (outside t, ph(p := In))"
| block: "\<lbrakk>p < NPROC; p_state (procs s p) = RUNNING; ph p = Out; acquiresleep i (as_proc p s) = Asleep t;
     scheduler_back p t = Ret () u\<rbrakk>
    \<Longrightarrow> sl_step i (s, ph) (u, ph(p := Waiting))"
| retake: "\<lbrakk>p < NPROC; ph p = Waiting; scheduler_visit p s = Ret True t; acquiresleep_resume i t = Ret () u\<rbrakk>
    \<Longrightarrow> sl_step i (s, ph) (outside u, ph(p := In))"
| reblock: "\<lbrakk>p < NPROC; ph p = Waiting; scheduler_visit p s = Ret True t; acquiresleep_resume i t = Asleep u;
     scheduler_back p u = Ret () v\<rbrakk>
    \<Longrightarrow> sl_step i (s, ph) (v, ph)"
| give: "\<lbrakk>p < NPROC; p_state (procs s p) = RUNNING; ph p = In; releasesleep i (as_proc p s) = Ret () t\<rbrakk>
    \<Longrightarrow> sl_step i (s, ph) (outside t, ph(p := Out))"
| other_wakeup: "wakeup c s = Ret () t \<Longrightarrow> sl_step i (s, ph) (t, ph)"
| other_kill: "kkill pid s = Ret r t \<Longrightarrow> sl_step i (s, ph) (t, ph)"

definition sl_inv :: "sleepid \<Rightarrow> kstate \<times> (nat \<Rightarrow> phase) \<Rightarrow> bool" where
  "sl_inv i c \<longleftrightarrow> (case c of (s, ph) \<Rightarrow>
     held s = [] \<and> cur s = None \<and>
     (\<forall>p q. ph p = In \<longrightarrow> ph q = In \<longrightarrow> p = q) \<and>
     (sl_locked (slocks s i) \<longleftrightarrow> (\<exists>p. ph p = In)) \<and>
     (\<forall>p. ph p = Waiting \<longrightarrow> p < NPROC \<and> (p_state (procs s p) = RUNNABLE \<or>
        p_state (procs s p) = SLEEPING \<and> p_chan (procs s p) = ChanSleeplock i \<and> sl_locked (slocks s i))))"

lemma run_acquiresleep_resume:
  assumes "cur s = Some p" and "held s = [ProcLock p]"
  shows "acquiresleep_resume i s =
    acquiresleep i (s\<lparr>held := [], procs := (procs s)(p := (procs s p)\<lparr>p_chan := ChanNull\<rparr>)\<rparr>)"
  using assms by (simp add: acquiresleep_resume_def acquiresleep_def sleep_resume_def thenK_def
      bindK_def run_myproc upd_proc_def modifyK_def run_release run_acquire returnK_def)

lemma sl_inv_step:
  assumes "sl_step i c c'" and "sl_inv i c"
  shows "sl_inv i c'"
  using assms
proof (induction rule: sl_step.induct)
  case (take p s ph t)
  then have "t = taken i p (as_proc p s)" "\<not> sl_locked (slocks s i)"
    by (auto simp: sl_inv_def as_proc_def run_acquiresleep split: if_splits)
  with take show ?case by (auto simp: sl_inv_def taken_def as_proc_def outside_def)
next
  case (block p s ph t u)
  then have "t = asleep_on (ChanSleeplock i) p (as_proc p s)" "sl_locked (slocks s i)"
    by (auto simp: sl_inv_def as_proc_def run_acquiresleep split: if_splits)
  with block show ?case
    by (auto simp: sl_inv_def asleep_on_def as_proc_def run_scheduler_back split: if_splits)
      (metis phase.distinct(3))
next
  case (retake p ph s t u)
  let ?q = "(procs s p)\<lparr>p_state := RUNNING, p_chan := ChanNull\<rparr>"
  have t: "t = s\<lparr>held := [ProcLock p], procs := (procs s)(p := (procs s p)\<lparr>p_state := RUNNING\<rparr>), cur := Some p\<rparr>"
    using retake by (simp add: run_scheduler_visit sl_inv_def split: if_splits)
  then have "u = taken i p (s\<lparr>cur := Some p, held := [], procs := (procs s)(p := ?q)\<rparr>)"
    "\<not> sl_locked (slocks s i)"
    using retake(4,5) by (auto simp: run_acquiresleep_resume run_acquiresleep sl_inv_def split: if_splits)
  with retake(1,2,5) show ?case by (auto simp: sl_inv_def taken_def outside_def)
next
  case (reblock p ph s t u v)
  let ?q = "(procs s p)\<lparr>p_state := RUNNING, p_chan := ChanNull\<rparr>"
  have t: "t = s\<lparr>held := [ProcLock p], procs := (procs s)(p := (procs s p)\<lparr>p_state := RUNNING\<rparr>), cur := Some p\<rparr>"
    using reblock by (simp add: run_scheduler_visit sl_inv_def split: if_splits)
  then have "u = asleep_on (ChanSleeplock i) p (s\<lparr>cur := Some p, held := [], procs := (procs s)(p := ?q)\<rparr>)"
    "sl_locked (slocks s i)"
    using reblock(4,6) by (auto simp: run_acquiresleep_resume run_acquiresleep sl_inv_def split: if_splits)
  with reblock(1,2,5,6) show ?case
    by (auto simp: sl_inv_def asleep_on_def run_scheduler_back) blast+
next
  case (give p s ph t)
  have "wp (releasesleep i) (\<lambda>_ t'. t' = t) (as_proc p s)" by (simp add: wp_def give(4))
  then have "t = given_up i (as_proc p s)"
    using give(5) by (simp add: wp_releasesleep sl_inv_def as_proc_def no_proc_locks_def)
  with give show ?case
    by (auto simp: sl_inv_def given_up_def as_proc_def outside_def woken_def)
next
  case (other_wakeup c s t ph)
  have "wp (wakeup c) (\<lambda>_ t'. t' = t) s" by (simp add: wp_def other_wakeup(1))
  then have "t = s\<lparr>procs := woken c {0..<NPROC} s\<rparr>"
    using other_wakeup(2) by (simp add: wp_wakeup sl_inv_def no_proc_locks_def)
  with other_wakeup(2) show ?case by (auto simp: sl_inv_def woken_def)
next
  case (other_kill pid s r t ph)
  have "wp (kkill pid) (\<lambda>_ t'. t' = t) s" by (simp add: wp_def other_kill(1))
  then obtain p where "t = s \<or> t = s\<lparr>procs := (procs s)(p := kill_proc (procs s p))\<rparr>"
    using other_kill(2)
    by (auto simp: kkill_def wp_kkill_scan sl_inv_def no_proc_locks_def split: option.splits)
  with other_kill(2) show ?case by (auto simp: sl_inv_def kill_proc_def split: if_splits)
qed

lemma sl_inv_steps: "(sl_step i)\<^sup>*\<^sup>* c c' \<Longrightarrow> sl_inv i c \<Longrightarrow> sl_inv i c'"
  by (induction rule: rtranclp_induct) (auto intro: sl_inv_step)

section \<open>Properties\<close>


definition two_running :: kstate where
  "two_running = zero_kstate\<lparr>procs := (\<lambda>_. zero_proc\<lparr>p_state := RUNNING\<rparr>)\<rparr>"


end
