(* ===== verification/Linked.thy ===== *)
theory Linked
  imports Main
begin

text \<open>
  Circular doubly-linked lists with a head node, over nodes that are indices. \<open>chain f a xs b\<close>
  says that following the pointers \<open>f\<close> from \<open>a\<close> visits exactly \<open>xs\<close> and then arrives at \<open>b\<close>;
  \<open>ring nx pv h xs\<close> says that \<open>xs\<close> is the content of the circular list with head \<open>h\<close>, seen
  through both pointer fields.
\<close>

primrec chain :: "(nat \<Rightarrow> nat) \<Rightarrow> nat \<Rightarrow> nat list \<Rightarrow> nat \<Rightarrow> bool" where
  "chain f a [] b \<longleftrightarrow> f a = b"
| "chain f a (x # xs) b \<longleftrightarrow> f a = x \<and> chain f x xs b"

definition ring :: "(nat \<Rightarrow> nat) \<Rightarrow> (nat \<Rightarrow> nat) \<Rightarrow> nat \<Rightarrow> nat list \<Rightarrow> bool" where
  "ring nx pv h xs \<longleftrightarrow> chain nx h xs h \<and> chain pv h (rev xs) h \<and> distinct (h # xs)"

lemma chain_append: "chain f a (xs @ y # ys) b \<longleftrightarrow> chain f a xs y \<and> chain f y ys b"
  by (induction xs arbitrary: a) auto

lemma chain_cong: "(\<And>x. x = a \<or> x \<in> set xs \<Longrightarrow> f x = g x) \<Longrightarrow> chain f a xs b = chain g a xs b"
  by (induction xs arbitrary: a) auto

lemma chain_hd: "chain f a xs b \<Longrightarrow> f a = hd (xs @ [b])"
  by (cases xs) auto

lemma chain_retarget:
  "chain f a xs b \<Longrightarrow> distinct (a # xs) \<Longrightarrow> chain (f(last (a # xs) := c)) a xs c"
proof (induction xs arbitrary: a)
  case (Cons x xs)
  then have "chain (f(last (x # xs) := c)) x xs c" by (intro Cons.IH) auto
  moreover have "last (x # xs) \<noteq> a" using Cons.prems(2) last_in_set [of "x # xs"] by auto
  moreover have "last (a # x # xs) = last (x # xs)" by simp
  ultimately show ?case using Cons.prems(1) by (simp only: chain.simps fun_upd_other)
qed simp

lemma chain_unlink:
  assumes "chain f a (xs @ y # ys) b" and "distinct (a # xs @ y # ys)"
  shows "chain (f(last (a # xs) := f y)) a (xs @ ys) b"
proof -
  have l: "chain f a xs y" and r: "chain f y ys b" using assms(1) by (auto simp: chain_append)
  have p: "last (a # xs) \<in> set (a # xs)" by (rule last_in_set) simp
  have fy: "f y = hd (ys @ [b])" using r by (rule chain_hd)
  have l': "chain (f(last (a # xs) := f y)) a xs (f y)"
    using l assms(2) by (intro chain_retarget) auto
  show ?thesis
  proof (cases ys)
    case Nil
    then show ?thesis using l' fy by simp
  next
    case (Cons z zs)
    have "chain (f(last (a # xs) := f y)) z zs b"
      using r Cons p assms(2) by (subst chain_cong [of _ _ _ f]) auto
    then show ?thesis using l' fy Cons by (simp add: chain_append)
  qed
qed

lemma last_rev_hd: "last (h # rev xs) = hd (xs @ [h])"
  by (cases xs) auto

lemma ring_unlink:
  assumes "ring nx pv h (xs @ y # ys)"
  shows "ring (nx(pv y := nx y)) (pv(nx y := pv y)) h (xs @ ys)"
proof -
  have d: "distinct (h # xs @ y # ys)" and n: "chain nx h (xs @ y # ys) h"
    and p: "chain pv h (rev ys @ y # rev xs) h"
    using assms by (auto simp: ring_def)
  have "nx y = hd (ys @ [h])" using n chain_hd by (auto simp: chain_append)
  then have ny: "nx y = last (h # rev ys)" by (simp only: last_rev_hd)
  have "pv y = hd (rev xs @ [h])" using p chain_hd by (auto simp: chain_append)
  then have py: "pv y = last (h # xs)" using last_rev_hd [of h "rev xs"] by simp
  have "chain (nx(last (h # xs) := nx y)) h (xs @ ys) h"
    by (rule chain_unlink [OF n d])
  moreover have "chain (pv(last (h # rev ys) := pv y)) h (rev ys @ rev xs) h"
    by (rule chain_unlink [OF p]) (use d in auto)
  ultimately show ?thesis using d by (simp add: ring_def ny py)
qed

lemma ring_push:
  assumes "ring nx pv h xs" and "y \<notin> set (h # xs)"
  shows "ring (nx(y := nx h, h := y)) (pv(y := h, nx h := y)) h (y # xs)"
proof -
  have d: "distinct (h # xs)" and n: "chain nx h xs h" and p: "chain pv h (rev xs) h"
    using assms(1) by (auto simp: ring_def)
  let ?l = "last (h # rev xs)"
  have nh: "nx h = hd (xs @ [h])" using n by (rule chain_hd)
  then have ny: "nx h = ?l" by (simp only: last_rev_hd)
  have yl: "?l \<noteq> y" using assms(2) last_in_set [of "h # rev xs"] by auto
  have "chain (nx(y := nx h, h := y)) y xs h"
  proof (cases xs)
    case (Cons z zs)
    then show ?thesis using n assms(2) d by (subst chain_cong [of _ _ _ "nx(y := nx h)"])
        (auto simp: nh intro: chain_cong [THEN iffD1, rotated])
  qed (use nh assms(2) in auto)
  moreover have "chain (pv(?l := y)) h (rev xs) y"
    using p d by (intro chain_retarget) auto
  then have "chain (pv(y := h, ?l := y)) h (rev xs) y"
    using assms(2) yl by (subst chain_cong [of _ _ _ "pv(?l := y)"]) auto
  ultimately show ?thesis using d assms(2) yl by (auto simp: ring_def ny chain_append)
qed

end
