(* ===== verification/Bio.thy ===== *)
theory Bio
  imports Sleeplock Linked
begin

text \<open>
  \<open>kernel/bio.c\<close>: the buffer cache. The buffers are \<open>bufs s 0 \<dots> bufs s (NBUF - 1)\<close> and the list
  head is \<open>bufs s NBUF\<close>; \<open>b_prev\<close> and \<open>b_next\<close> are indices, updated pointer by pointer as in
  the source. \<open>lru s xs\<close> abstracts the doubly-linked list to the list \<open>xs\<close> of buffers, most
  recently used first.

  \<open>disk_rw\<close> is the contract of the disk driver: a request that has completed has copied the
  block in the requested direction, and writes reach the disk in the order in which they are
  issued (\<open>dtrace\<close> records them).

  Upper layers see the cache through three functions of a block address: its current content
  \<open>bview\<close> (the cached copy if there is a valid one, the disk otherwise), the number of
  references \<open>brefs\<close> and whether a thread has the block locked, \<open>bbusy\<close>. The contract
  \<open>block_cache\<close> states what \<open>bread\<close>, \<open>bwrite\<close>, \<open>brelse\<close>, \<open>bpin\<close> and \<open>bunpin\<close> do to them.
\<close>

section \<open>The code\<close>

definition upd2 :: "(nat \<Rightarrow> nat \<Rightarrow> 'a) \<Rightarrow> nat \<Rightarrow> nat \<Rightarrow> 'a \<Rightarrow> nat \<Rightarrow> nat \<Rightarrow> 'a" where
  "upd2 f d n v = (\<lambda>d' n'. if d' = d \<and> n' = n then v else f d' n')"

definition upd_buf :: "nat \<Rightarrow> (buf \<Rightarrow> buf) \<Rightarrow> unit kern" where
  "upd_buf b f = modifyK (\<lambda>s. s\<lparr>bufs := (bufs s)(b := f (bufs s b))\<rparr>)"

definition get_buf :: "nat \<Rightarrow> buf kern" where
  "get_buf b = getsK (\<lambda>s. bufs s b)"

definition disk_rw :: "nat \<Rightarrow> bool \<Rightarrow> unit kern" where
  "disk_rw b write = bindK (get_buf b) (\<lambda>x.
     if write
     then modifyK (\<lambda>s. s\<lparr>disk := upd2 (disk s) (b_dev x) (b_blockno x) (b_data x),
                        dtrace := dtrace s @ [(b_dev x, b_blockno x, b_data x)]\<rparr>)
     else bindK (getsK (\<lambda>s. disk s (b_dev x) (b_blockno x))) (\<lambda>d. upd_buf b (\<lambda>y. y\<lparr>b_data := d\<rparr>)))"

definition binit :: "unit kern" where
  "binit = blockK [
     upd_buf NBUF (\<lambda>h. h\<lparr>b_prev := NBUF\<rparr>),
     upd_buf NBUF (\<lambda>h. h\<lparr>b_next := NBUF\<rparr>),
     forK [0..<NBUF] (\<lambda>b. blockK [
       bindK (get_buf NBUF) (\<lambda>h. upd_buf b (\<lambda>x. x\<lparr>b_next := b_next h\<rparr>)),
       upd_buf b (\<lambda>x. x\<lparr>b_prev := NBUF\<rparr>),
       initsleeplock (BufLock b),
       bindK (get_buf NBUF) (\<lambda>h. upd_buf (b_next h) (\<lambda>x. x\<lparr>b_prev := b\<rparr>)),
       upd_buf NBUF (\<lambda>h. h\<lparr>b_next := b\<rparr>)])]"

text \<open>
  The two searches of \<open>bget\<close>. The list has \<open>NBUF\<close> buffers, so \<open>Suc NBUF\<close> steps reach the head.
\<close>

primrec bget_cached :: "nat \<Rightarrow> nat \<Rightarrow> nat \<Rightarrow> nat \<Rightarrow> nat option kern" where
  "bget_cached 0 b dev blockno = no_fuelK"
| "bget_cached (Suc n) b dev blockno =
     (if b = NBUF then returnK None
      else bindK (get_buf b) (\<lambda>x.
        if b_dev x = dev \<and> b_blockno x = blockno then returnK (Some b)
        else bget_cached n (b_next x) dev blockno))"

primrec bget_unused :: "nat \<Rightarrow> nat \<Rightarrow> nat option kern" where
  "bget_unused 0 b = no_fuelK"
| "bget_unused (Suc n) b =
     (if b = NBUF then returnK None
      else bindK (get_buf b) (\<lambda>x.
        if b_refcnt x = 0 then returnK (Some b) else bget_unused n (b_prev x)))"

definition bget :: "nat \<Rightarrow> nat \<Rightarrow> nat kern" where
  "bget dev blockno =
     thenK (acquire BcacheLock)
     (bindK (get_buf NBUF) (\<lambda>h. bindK (bget_cached (Suc NBUF) (b_next h) dev blockno) (\<lambda>r.
       case r of
         Some b \<Rightarrow> thenK (blockK [
             upd_buf b (\<lambda>x. x\<lparr>b_refcnt := b_refcnt x + 1\<rparr>),
             release BcacheLock,
             acquiresleep (BufLock b)]) (returnK b)
       | None \<Rightarrow> bindK (get_buf NBUF) (\<lambda>h. bindK (bget_unused (Suc NBUF) (b_prev h)) (\<lambda>r.
           case r of
             Some b \<Rightarrow> thenK (blockK [
                 upd_buf b (\<lambda>x. x\<lparr>b_dev := dev\<rparr>),
                 upd_buf b (\<lambda>x. x\<lparr>b_blockno := blockno\<rparr>),
                 upd_buf b (\<lambda>x. x\<lparr>b_valid := False\<rparr>),
                 upd_buf b (\<lambda>x. x\<lparr>b_refcnt := 1\<rparr>),
                 release BcacheLock,
                 acquiresleep (BufLock b)]) (returnK b)
           | None \<Rightarrow> panicK ''bget: no buffers'')))))"

definition bread :: "nat \<Rightarrow> nat \<Rightarrow> nat kern" where
  "bread dev blockno = bindK (bget dev blockno) (\<lambda>b.
     bindK (get_buf b) (\<lambda>x.
       thenK (whenK (\<not> b_valid x) (blockK [
           disk_rw b False,
           upd_buf b (\<lambda>x. x\<lparr>b_valid := True\<rparr>)]))
       (returnK b)))"

definition bwrite :: "nat \<Rightarrow> unit kern" where
  "bwrite b = bindK (holdingsleep (BufLock b)) (\<lambda>h.
     if \<not> h then panicK ''bwrite'' else disk_rw b True)"

definition move_to_front :: "nat \<Rightarrow> unit kern" where
  "move_to_front b = blockK [
     bindK (get_buf b) (\<lambda>x. upd_buf (b_next x) (\<lambda>y. y\<lparr>b_prev := b_prev x\<rparr>)),
     bindK (get_buf b) (\<lambda>x. upd_buf (b_prev x) (\<lambda>y. y\<lparr>b_next := b_next x\<rparr>)),
     bindK (get_buf NBUF) (\<lambda>h. upd_buf b (\<lambda>x. x\<lparr>b_next := b_next h\<rparr>)),
     upd_buf b (\<lambda>x. x\<lparr>b_prev := NBUF\<rparr>),
     bindK (get_buf NBUF) (\<lambda>h. upd_buf (b_next h) (\<lambda>x. x\<lparr>b_prev := b\<rparr>)),
     upd_buf NBUF (\<lambda>h. h\<lparr>b_next := b\<rparr>)]"

definition brelse :: "nat \<Rightarrow> unit kern" where
  "brelse b = bindK (holdingsleep (BufLock b)) (\<lambda>h.
     if \<not> h then panicK ''brelse''
     else blockK [
       releasesleep (BufLock b),
       acquire BcacheLock,
       upd_buf b (\<lambda>x. x\<lparr>b_refcnt := b_refcnt x - 1\<rparr>),
       bindK (get_buf b) (\<lambda>x. whenK (b_refcnt x = 0) (move_to_front b)),
       release BcacheLock])"

definition bpin :: "nat \<Rightarrow> unit kern" where
  "bpin b = blockK [
     acquire BcacheLock, upd_buf b (\<lambda>x. x\<lparr>b_refcnt := b_refcnt x + 1\<rparr>), release BcacheLock]"

definition bunpin :: "nat \<Rightarrow> unit kern" where
  "bunpin b = blockK [
     acquire BcacheLock, upd_buf b (\<lambda>x. x\<lparr>b_refcnt := b_refcnt x - 1\<rparr>), release BcacheLock]"

lemma wp_upd_buf [wp_simps, simp]:
  "wp (upd_buf b f) Q s = Q () (s\<lparr>bufs := (bufs s)(b := f (bufs s b))\<rparr>)"
  by (simp add: upd_buf_def)

lemma wp_get_buf [wp_simps, simp]: "wp (get_buf b) Q s = Q (bufs s b) s"
  by (simp add: get_buf_def)

section \<open>The list of buffers\<close>

definition nexts :: "(nat \<Rightarrow> buf) \<Rightarrow> nat \<Rightarrow> nat" where
  "nexts bs i = b_next (bs i)"

definition prevs :: "(nat \<Rightarrow> buf) \<Rightarrow> nat \<Rightarrow> nat" where
  "prevs bs i = b_prev (bs i)"

definition lru :: "(nat \<Rightarrow> buf) \<Rightarrow> nat list \<Rightarrow> bool" where
  "lru bs xs \<longleftrightarrow> ring (nexts bs) (prevs bs) NBUF xs \<and> set xs = {..<NBUF}"

lemma links_upd [simp]:
  "nexts (bs(k := (bs k)\<lparr>b_next := v\<rparr>)) = (nexts bs)(k := v)"
  "prevs (bs(k := (bs k)\<lparr>b_next := v\<rparr>)) = prevs bs"
  "nexts (bs(k := (bs k)\<lparr>b_prev := v\<rparr>)) = nexts bs"
  "prevs (bs(k := (bs k)\<lparr>b_prev := v\<rparr>)) = (prevs bs)(k := v)"
  by (auto simp: nexts_def prevs_def fun_eq_iff)

text \<open>Two tables that differ at most in their list pointers.\<close>

definition same_but_links :: "(nat \<Rightarrow> buf) \<Rightarrow> (nat \<Rightarrow> buf) \<Rightarrow> bool" where
  "same_but_links bs bs' \<longleftrightarrow> (\<forall>i. b_valid (bs' i) = b_valid (bs i) \<and> b_disk (bs' i) = b_disk (bs i) \<and>
     b_dev (bs' i) = b_dev (bs i) \<and> b_blockno (bs' i) = b_blockno (bs i) \<and>
     b_refcnt (bs' i) = b_refcnt (bs i) \<and> b_data (bs' i) = b_data (bs i))"

lemma same_but_links_upd [simp]:
  "same_but_links bs (bs'(k := (bs' k)\<lparr>b_next := v\<rparr>)) = same_but_links bs bs'"
  "same_but_links bs (bs'(k := (bs' k)\<lparr>b_prev := v\<rparr>)) = same_but_links bs bs'"
  by (auto simp: same_but_links_def)

lemma same_but_links_refl [simp]: "same_but_links bs bs"
  by (simp add: same_but_links_def)

lemma wp_set_links:
  "wp (upd_buf k (\<lambda>x. x\<lparr>b_next := v\<rparr>)) Q s = Q () (s\<lparr>bufs := (bufs s)(k := (bufs s k)\<lparr>b_next := v\<rparr>)\<rparr>)"
  "wp (upd_buf k (\<lambda>x. x\<lparr>b_prev := v\<rparr>)) Q s = Q () (s\<lparr>bufs := (bufs s)(k := (bufs s k)\<lparr>b_prev := v\<rparr>)\<rparr>)"
  by simp_all

text \<open>A program that only sets list pointers, seen through \<open>nexts\<close> and \<open>prevs\<close>.\<close>

definition links_post :: "kstate \<Rightarrow> (nat \<Rightarrow> nat) \<Rightarrow> (nat \<Rightarrow> nat) \<Rightarrow> kstate \<Rightarrow> bool" where
  "links_post s nx pv t \<longleftrightarrow> nexts (bufs t) = nx \<and> prevs (bufs t) = pv \<and>
     same_but_links (bufs s) (bufs t) \<and> t = s\<lparr>bufs := bufs t\<rparr>"

lemma links_step:
  assumes "links_post s nx pv t"
  shows "wp (upd_buf k (\<lambda>x. x\<lparr>b_next := v\<rparr>)) (\<lambda>_. links_post s (nx(k := v)) pv) t"
    and "wp (upd_buf k (\<lambda>x. x\<lparr>b_prev := v\<rparr>)) (\<lambda>_. links_post s nx (pv(k := v))) t"
proof -
  obtain B where t: "t = s\<lparr>bufs := B\<rparr>" and "nexts B = nx" "prevs B = pv" "same_but_links (bufs s) B"
    using assms unfolding links_post_def by metis
  then show "wp (upd_buf k (\<lambda>x. x\<lparr>b_next := v\<rparr>)) (\<lambda>_. links_post s (nx(k := v)) pv) t"
    and "wp (upd_buf k (\<lambda>x. x\<lparr>b_prev := v\<rparr>)) (\<lambda>_. links_post s nx (pv(k := v))) t"
    by (simp_all add: wp_set_links links_post_def)
qed

lemma links_postD: "links_post s nx pv t \<Longrightarrow> b_next (bufs t i) = nx i \<and> b_prev (bufs t i) = pv i"
  by (auto simp: links_post_def nexts_def prevs_def)

text \<open>The statement shapes of \<open>brelse\<close> and \<open>binit\<close>: pointers of one node stored in another.\<close>

lemma links_stmts:
  assumes "links_post s nx pv t"
  shows "wp (bindK (get_buf i) (\<lambda>x. upd_buf (b_next x) (\<lambda>y. y\<lparr>b_prev := b_prev x\<rparr>)))
           (\<lambda>_. links_post s nx (pv(nx i := pv i))) t"
    and "wp (bindK (get_buf i) (\<lambda>x. upd_buf (b_prev x) (\<lambda>y. y\<lparr>b_next := b_next x\<rparr>)))
           (\<lambda>_. links_post s (nx(pv i := nx i)) pv) t"
    and "wp (bindK (get_buf i) (\<lambda>x. upd_buf k (\<lambda>y. y\<lparr>b_next := b_next x\<rparr>)))
           (\<lambda>_. links_post s (nx(k := nx i)) pv) t"
    and "wp (bindK (get_buf i) (\<lambda>x. upd_buf (b_next x) (\<lambda>y. y\<lparr>b_prev := v\<rparr>)))
           (\<lambda>_. links_post s nx (pv(nx i := v))) t"
  using links_step [OF assms] links_postD [OF assms] by (simp_all only: wp_bind wp_get_buf)

lemma wp_blockI:
  "wp m (\<lambda>_. I) s \<Longrightarrow> (\<And>t. I t \<Longrightarrow> wp (blockK ms) Q t) \<Longrightarrow> wp (blockK (m # ms)) Q s"
  unfolding wp_block_Cons by (rule wp_mono)

lemma lru_links:
  assumes "lru bs xs" and "\<And>i. b_next (bs' i) = b_next (bs i)" and "\<And>i. b_prev (bs' i) = b_prev (bs i)"
  shows "lru bs' xs"
proof -
  have "nexts bs' = nexts bs" "prevs bs' = prevs bs"
    using assms by (auto simp: nexts_def prevs_def)
  then show ?thesis using assms(1) by (simp add: lru_def)
qed

lemma wp_move_to_front:
  assumes "lru (bufs s) (ys @ b # zs)"
  shows "wp (move_to_front b) (\<lambda>_ t. lru (bufs t) (b # ys @ zs) \<and> same_but_links (bufs s) (bufs t) \<and>
           t = s\<lparr>bufs := bufs t\<rparr>) s"
proof -
  let ?nx = "nexts (bufs s)" and ?pv = "prevs (bufs s)"
  have r: "ring ?nx ?pv NBUF (ys @ b # zs)" and st: "set (ys @ b # zs) = {..<NBUF}"
    using assms by (auto simp: lru_def)
  let ?nx1 = "?nx(?pv b := ?nx b)" and ?pv1 = "?pv(?nx b := ?pv b)"
  let ?nx2 = "?nx1(b := ?nx1 NBUF, NBUF := b)" and ?pv2 = "?pv1(b := NBUF, ?nx1 NBUF := b)"
  have r1: "ring ?nx1 ?pv1 NBUF (ys @ zs)" by (rule ring_unlink [OF r])
  have b: "b \<notin> set (NBUF # ys @ zs)" using r by (auto simp: ring_def)
  have r2: "ring ?nx2 ?pv2 NBUF (b # ys @ zs)" by (rule ring_push [OF r1 b])
  have "chain ?nx b zs NBUF" "chain ?pv b (rev ys) NBUF"
    using r by (auto simp: ring_def chain_append)
  then have "?nx b = hd (zs @ [NBUF])" "?pv b = hd (rev ys @ [NBUF])" using chain_hd by blast+
  moreover have "hd (zs @ [NBUF]) \<in> set (zs @ [NBUF])" "hd (rev ys @ [NBUF]) \<in> set (rev ys @ [NBUF])"
    by (rule hd_in_set, simp)+
  ultimately have nb: "?nx b \<noteq> b" "?pv b \<noteq> b" "NBUF \<noteq> b" using b by auto
  have "wp (move_to_front b) (\<lambda>_. links_post s ?nx2 ?pv2) s"
  proof -
    have 0: "links_post s ?nx ?pv s" by (simp add: links_post_def)
    have a4: "wp (bindK (get_buf NBUF) (\<lambda>h. upd_buf (b_next h) (\<lambda>x. x\<lparr>b_prev := b\<rparr>)))
        (\<lambda>_. links_post s (?nx1(b := ?nx1 NBUF)) ?pv2) t"
      if "links_post s (?nx1(b := ?nx1 NBUF)) (?pv1(b := NBUF)) t" for t
      using links_stmts(4) [OF that, of NBUF b] nb by simp
    have a1: "wp (bindK (get_buf b) (\<lambda>x. upd_buf (b_prev x) (\<lambda>y. y\<lparr>b_next := b_next x\<rparr>)))
        (\<lambda>_. links_post s ?nx1 ?pv1) t" if "links_post s ?nx ?pv1 t" for t
      using links_stmts(2) [OF that, of b] nb by simp
    show ?thesis unfolding move_to_front_def
      by (rule wp_blockI [OF links_stmts(1) [OF 0]], rule wp_blockI [OF a1], assumption,
          rule wp_blockI [OF links_stmts(3)], assumption, rule wp_blockI [OF links_step(2)], assumption,
          rule wp_blockI [OF a4], assumption, rule wp_blockI [OF links_step(1)], assumption)
        (simp only: wp_block_Nil)
  qed
  then show ?thesis
    by (rule wp_mono) (use r2 st in \<open>auto simp: links_post_def lru_def\<close>)
qed

section \<open>\<open>binit\<close> builds the list\<close>

definition init_post :: "kstate \<Rightarrow> (nat \<Rightarrow> nat) \<Rightarrow> (nat \<Rightarrow> nat) \<Rightarrow> nat set \<Rightarrow> kstate \<Rightarrow> bool" where
  "init_post s nx pv U t \<longleftrightarrow> nexts (bufs t) = nx \<and> prevs (bufs t) = pv \<and> same_but_links (bufs s) (bufs t) \<and>
     t = s\<lparr>bufs := bufs t, slocks := slocks t\<rparr> \<and>
     (\<forall>l. slocks t l = (case l of BufLock i \<Rightarrow> if i \<in> U then \<lparr>sl_locked = False, sl_pid = 0\<rparr> else slocks s l | _ \<Rightarrow> slocks s l))"

lemma init_step:
  assumes "init_post s nx pv U t"
  shows "wp (upd_buf k (\<lambda>x. x\<lparr>b_next := v\<rparr>)) (\<lambda>_. init_post s (nx(k := v)) pv U) t"
    and "wp (upd_buf k (\<lambda>x. x\<lparr>b_prev := v\<rparr>)) (\<lambda>_. init_post s nx (pv(k := v)) U) t"
    and "wp (initsleeplock (BufLock k)) (\<lambda>_. init_post s nx pv (insert k U)) t"
    and "wp (bindK (get_buf i) (\<lambda>x. upd_buf k (\<lambda>y. y\<lparr>b_next := b_next x\<rparr>))) (\<lambda>_. init_post s (nx(k := nx i)) pv U) t"
    and "wp (bindK (get_buf i) (\<lambda>x. upd_buf (b_next x) (\<lambda>y. y\<lparr>b_prev := v\<rparr>))) (\<lambda>_. init_post s nx (pv(nx i := v)) U) t"
proof -
  obtain B L where t: "t = s\<lparr>bufs := B, slocks := L\<rparr>" and n: "nexts B = nx" and p: "prevs B = pv"
    and sm: "same_but_links (bufs s) B"
    and L: "\<And>l. L l = (case l of BufLock i \<Rightarrow> if i \<in> U then \<lparr>sl_locked = False, sl_pid = 0\<rparr> else slocks s l | _ \<Rightarrow> slocks s l)"
    using assms unfolding init_post_def by metis
  have nx: "b_next (B i) = nx i" using n by (auto simp: nexts_def)
  show "wp (upd_buf k (\<lambda>x. x\<lparr>b_next := v\<rparr>)) (\<lambda>_. init_post s (nx(k := v)) pv U) t"
    and "wp (upd_buf k (\<lambda>x. x\<lparr>b_prev := v\<rparr>)) (\<lambda>_. init_post s nx (pv(k := v)) U) t"
    and "wp (bindK (get_buf i) (\<lambda>x. upd_buf k (\<lambda>y. y\<lparr>b_next := b_next x\<rparr>))) (\<lambda>_. init_post s (nx(k := nx i)) pv U) t"
    and "wp (bindK (get_buf i) (\<lambda>x. upd_buf (b_next x) (\<lambda>y. y\<lparr>b_prev := v\<rparr>))) (\<lambda>_. init_post s nx (pv(nx i := v)) U) t"
    using n p sm L by (simp_all add: t init_post_def nx)
  show "wp (initsleeplock (BufLock k)) (\<lambda>_. init_post s nx pv (insert k U)) t"
    using n p sm L by (simp add: t init_post_def initsleeplock_def sleeplock_upd_eq split: sleepid.split)
qed

lemma wp_binit:
  "wp binit (\<lambda>_ t. lru (bufs t) (rev [0..<NBUF]) \<and> same_but_links (bufs s) (bufs t) \<and>
     t = s\<lparr>bufs := bufs t, slocks := slocks t\<rparr> \<and>
     (\<forall>i<NBUF. slocks t (BufLock i) = \<lparr>sl_locked = False, sl_pid = 0\<rparr>)) s"
proof -
  let ?I = "\<lambda>ds t. \<exists>nx pv. init_post s nx pv (set ds) t \<and> ring nx pv NBUF (rev ds)"
  have body: "wp (blockK [
       bindK (get_buf NBUF) (\<lambda>h. upd_buf b (\<lambda>x. x\<lparr>b_next := b_next h\<rparr>)),
       upd_buf b (\<lambda>x. x\<lparr>b_prev := NBUF\<rparr>),
       initsleeplock (BufLock b),
       bindK (get_buf NBUF) (\<lambda>h. upd_buf (b_next h) (\<lambda>x. x\<lparr>b_prev := b\<rparr>)),
       upd_buf NBUF (\<lambda>h. h\<lparr>b_next := b\<rparr>)]) (\<lambda>_. ?I (ds @ [b])) t"
    if i: "init_post s nx pv (set ds) t" and r: "ring nx pv NBUF (rev ds)" and b: "b \<notin> set ds" "b \<noteq> NBUF"
    for b ds t nx pv
  proof -
    let ?nx = "nx(b := nx NBUF)" and ?pv = "pv(b := NBUF)"
    have e: "?nx NBUF = nx NBUF" using b by simp
    have "ring (?nx(NBUF := b)) (?pv(nx NBUF := b)) NBUF (b # rev ds)"
      by (rule ring_push [OF r]) (use b in auto)
    then have fin: "?I (ds @ [b]) u" if "init_post s (?nx(NBUF := b)) (?pv(?nx NBUF := b)) (insert b (set ds)) u" for u
      using that by (intro exI conjI) (auto simp: e)
    show ?thesis
      by (rule wp_blockI [OF init_step(4) [OF i]], rule wp_blockI [OF init_step(2)], assumption,
          rule wp_blockI [OF init_step(3)], assumption, rule wp_blockI [OF init_step(5)], assumption,
          rule wp_blockI [OF init_step(1)], assumption, simp only: wp_block_Nil, erule fin)
  qed
  have loop: "wp (forK [0..<NBUF] (\<lambda>b. blockK [
       bindK (get_buf NBUF) (\<lambda>h. upd_buf b (\<lambda>x. x\<lparr>b_next := b_next h\<rparr>)),
       upd_buf b (\<lambda>x. x\<lparr>b_prev := NBUF\<rparr>),
       initsleeplock (BufLock b),
       bindK (get_buf NBUF) (\<lambda>h. upd_buf (b_next h) (\<lambda>x. x\<lparr>b_prev := b\<rparr>)),
       upd_buf NBUF (\<lambda>h. h\<lparr>b_next := b\<rparr>)])) (\<lambda>_. ?I [0..<NBUF]) t" if "?I [] t" for t
  proof (rule wp_forK [where I = ?I])
    show "?I [] t" by (rule that)
  next
    fix ds b rest u
    assume e: "[0..<NBUF] = ds @ b # rest" and "?I ds u"
    have "distinct (ds @ b # rest)" "b < NBUF" using distinct_upt [of 0 NBUF] set_upt [of 0 NBUF] e
      by (auto simp: set_eq_iff)
    with \<open>?I ds u\<close> body show "wp (blockK [
       bindK (get_buf NBUF) (\<lambda>h. upd_buf b (\<lambda>x. x\<lparr>b_next := b_next h\<rparr>)),
       upd_buf b (\<lambda>x. x\<lparr>b_prev := NBUF\<rparr>),
       initsleeplock (BufLock b),
       bindK (get_buf NBUF) (\<lambda>h. upd_buf (b_next h) (\<lambda>x. x\<lparr>b_prev := b\<rparr>)),
       upd_buf NBUF (\<lambda>h. h\<lparr>b_next := b\<rparr>)]) (\<lambda>_. ?I (ds @ [b])) u" by auto
  qed
  have 0: "init_post s (nexts (bufs s)) (prevs (bufs s)) {} s"
    by (simp add: init_post_def split: sleepid.split)
  have start: "?I [] u" if "init_post s ((nexts (bufs s))(NBUF := NBUF)) ((prevs (bufs s))(NBUF := NBUF)) {} u" for u
    using that by (intro exI [of _ "(nexts (bufs s))(NBUF := NBUF)"] exI [of _ "(prevs (bufs s))(NBUF := NBUF)"])
      (simp add: ring_def)
  have "wp binit (\<lambda>_. ?I [0..<NBUF]) s" unfolding binit_def
    by (rule wp_blockI [OF init_step(2) [OF 0]], rule wp_blockI [OF init_step(1)], assumption,
        rule wp_blockI [OF loop [OF start]], assumption, simp only: wp_block_Nil)
  then show ?thesis by (rule wp_mono) (auto simp: init_post_def lru_def)
qed

section \<open>The searches of \<open>bget\<close>\<close>

lemma wp_bget_cached:
  assumes "chain (nexts (bufs s)) a xs NBUF" and "NBUF \<notin> set xs" and "length xs < n"
  shows "wp (bget_cached n (b_next (bufs s a)) dev bno) Q s
    = Q (find (\<lambda>i. b_dev (bufs s i) = dev \<and> b_blockno (bufs s i) = bno) xs) s"
  using assms
proof (induction xs arbitrary: a n)
  case Nil
  then show ?case by (cases n) (auto simp: nexts_def)
next
  case (Cons x xs)
  then obtain n' where "n = Suc n'" by (cases n) auto
  with Cons show ?case by (auto simp: nexts_def)
qed

lemma wp_bget_unused:
  assumes "chain (prevs (bufs s)) a xs NBUF" and "NBUF \<notin> set xs" and "length xs < n"
  shows "wp (bget_unused n (b_prev (bufs s a))) Q s = Q (find (\<lambda>i. b_refcnt (bufs s i) = 0) xs) s"
  using assms
proof (induction xs arbitrary: a n)
  case Nil
  then show ?case by (cases n) (auto simp: prevs_def)
next
  case (Cons x xs)
  then obtain n' where "n = Suc n'" by (cases n) auto
  with Cons show ?case by (auto simp: prevs_def)
qed

lemma lru_length: "lru bs xs \<Longrightarrow> length xs = NBUF \<and> NBUF \<notin> set xs \<and> distinct xs"
  unfolding lru_def ring_def by (metis card_lessThan distinct.simps(2) distinct_card)

section \<open>The cache as a function of the block address\<close>

definition buf_of :: "kstate \<Rightarrow> nat \<Rightarrow> nat \<Rightarrow> nat option" where
  "buf_of s d n = (if d = 0 then None
     else find (\<lambda>i. b_dev (bufs s i) = d \<and> b_blockno (bufs s i) = n) [0..<NBUF])"

definition bview :: "kstate \<Rightarrow> nat \<Rightarrow> nat \<Rightarrow> u8 list" where
  "bview s d n = (case buf_of s d n of
     None \<Rightarrow> disk s d n
   | Some i \<Rightarrow> if b_valid (bufs s i) then b_data (bufs s i) else disk s d n)"

definition brefs :: "kstate \<Rightarrow> nat \<Rightarrow> nat \<Rightarrow> int" where
  "brefs s d n = (case buf_of s d n of None \<Rightarrow> 0 | Some i \<Rightarrow> b_refcnt (bufs s i))"

definition bbusy :: "kstate \<Rightarrow> nat \<Rightarrow> nat \<Rightarrow> bool" where
  "bbusy s d n = (case buf_of s d n of None \<Rightarrow> False | Some i \<Rightarrow> sl_locked (slocks s (BufLock i)))"

text \<open>The caller has buffer \<open>b\<close> for block \<open>(d, n)\<close> checked out.\<close>

definition has_buf :: "kstate \<Rightarrow> nat \<Rightarrow> nat \<Rightarrow> nat \<Rightarrow> bool" where
  "has_buf s b d n \<longleftrightarrow> buf_of s d n = Some b \<and> b_refcnt (bufs s b) > 0 \<and> sl_locked (slocks s (BufLock b)) \<and>
     (\<exists>p. cur s = Some p \<and> sl_pid (slocks s (BufLock b)) = p_pid (procs s p))"

text \<open>
  What holds of every buffer: an unreferenced one is unlocked and, if valid, agrees with the
  disk; a referenced one is valid and belongs to a real device.
\<close>

definition buf_ok :: "kstate \<Rightarrow> nat \<Rightarrow> bool" where
  "buf_ok s i \<longleftrightarrow> (let x = bufs s i in
     b_refcnt x \<ge> 0 \<and> length (b_data x) = BSIZE \<and>
     (if b_refcnt x = 0
      then \<not> sl_locked (slocks s (BufLock i)) \<and>
           (b_valid x \<longrightarrow> b_data x = disk s (b_dev x) (b_blockno x))
      else b_valid x \<and> b_dev x \<noteq> 0))"

definition bufs_distinct :: "kstate \<Rightarrow> bool" where
  "bufs_distinct s \<longleftrightarrow> (\<forall>i<NBUF. \<forall>j<NBUF. b_dev (bufs s i) = b_dev (bufs s j) \<longrightarrow>
     b_blockno (bufs s i) = b_blockno (bufs s j) \<longrightarrow> b_dev (bufs s i) \<noteq> 0 \<longrightarrow> i = j)"

definition cache_inv :: "kstate \<Rightarrow> bool" where
  "cache_inv s \<longleftrightarrow> (\<exists>xs. lru (bufs s) xs) \<and> (\<forall>i<NBUF. buf_ok s i) \<and> bufs_distinct s \<and>
     (\<forall>d n. length (disk s d n) = BSIZE)"

text \<open>There is a buffer for \<open>(d, n)\<close>: it is cached, or some buffer can be recycled.\<close>

definition broom :: "kstate \<Rightarrow> nat \<Rightarrow> nat \<Rightarrow> bool" where
  "broom s d n \<longleftrightarrow> buf_of s d n \<noteq> None \<or> (\<exists>i<NBUF. b_refcnt (bufs s i) = 0)"

lemma find_eq_Some:
  assumes "find P xs = Some x" shows "P x \<and> x \<in> set xs"
  using assms by (auto simp: find_Some_iff)

lemma buf_of_Some:
  assumes "cache_inv s"
  shows "buf_of s d n = Some i \<longleftrightarrow> d \<noteq> 0 \<and> i < NBUF \<and> b_dev (bufs s i) = d \<and> b_blockno (bufs s i) = n"
proof -
  have uniq: "i = j" if "i < NBUF" "j < NBUF" "b_dev (bufs s i) = b_dev (bufs s j)"
    "b_blockno (bufs s i) = b_blockno (bufs s j)" "b_dev (bufs s i) \<noteq> 0" for i j
    using assms that unfolding cache_inv_def bufs_distinct_def by blast
  show ?thesis
  proof
    assume "buf_of s d n = Some i"
    then show "d \<noteq> 0 \<and> i < NBUF \<and> b_dev (bufs s i) = d \<and> b_blockno (bufs s i) = n"
      by (auto simp: buf_of_def dest!: find_eq_Some split: if_splits)
  next
    assume *: "d \<noteq> 0 \<and> i < NBUF \<and> b_dev (bufs s i) = d \<and> b_blockno (bufs s i) = n"
    then obtain j where j: "buf_of s d n = Some j"
      by (cases "buf_of s d n") (auto simp: buf_of_def find_None_iff)
    then have "j < NBUF \<and> b_dev (bufs s j) = d \<and> b_blockno (bufs s j) = n"
      by (auto simp: buf_of_def dest!: find_eq_Some split: if_splits)
    with * uniq [of i j] show "buf_of s d n = Some i" by (simp add: j)
  qed
qed

lemma buf_of_None:
  "buf_of s d n = None \<longleftrightarrow> d = 0 \<or> (\<forall>i<NBUF. \<not> (b_dev (bufs s i) = d \<and> b_blockno (bufs s i) = n))"
  by (auto simp: buf_of_def find_None_iff)

lemma find_unique:
  assumes "cache_inv s" and "lru (bufs s) xs" and "d \<noteq> 0"
  shows "find (\<lambda>i. b_dev (bufs s i) = d \<and> b_blockno (bufs s i) = n) xs = buf_of s d n"
proof (cases "find (\<lambda>i. b_dev (bufs s i) = d \<and> b_blockno (bufs s i) = n) xs")
  case None
  then have "buf_of s d n = None" using assms(2) unfolding buf_of_None by (auto simp: find_None_iff lru_def)
  with None show ?thesis by simp
next
  case (Some i)
  then have "buf_of s d n = Some i"
    using find_eq_Some [OF Some] assms(2,3) by (auto simp: buf_of_Some [OF assms(1)] lru_def)
  with Some show ?thesis by simp
qed

definition checked_out :: "kstate \<Rightarrow> nat \<Rightarrow> nat \<Rightarrow> nat \<Rightarrow> nat \<Rightarrow> kstate" where
  "checked_out s d n b p = taken (BufLock b) p (s\<lparr>bufs := (bufs s)(b := (bufs s b)\<lparr>b_dev := d, b_blockno := n,
     b_refcnt := brefs s d n + 1, b_valid := True, b_data := bview s d n\<rparr>)\<rparr>)"

text \<open>The buffer that \<open>bget\<close> chooses: the cached one, else the least recently used free one.\<close>

definition bpick :: "kstate \<Rightarrow> nat \<Rightarrow> nat \<Rightarrow> nat \<Rightarrow> bool" where
  "bpick s d n b \<longleftrightarrow> b < NBUF \<and> (buf_of s d n = Some b \<or> buf_of s d n = None \<and> b_refcnt (bufs s b) = 0)"

lemma wp_disk_read:
  "wp (disk_rw b False) Q s = Q () (s\<lparr>bufs := (bufs s)(b := (bufs s b)\<lparr>b_data := disk s (b_dev (bufs s b)) (b_blockno (bufs s b))\<rparr>)\<rparr>)"
  by (simp add: disk_rw_def)

lemma wp_disk_write:
  "wp (disk_rw b True) Q s = (let x = bufs s b in
     Q () (s\<lparr>disk := upd2 (disk s) (b_dev x) (b_blockno x) (b_data x),
            dtrace := dtrace s @ [(b_dev x, b_blockno x, b_data x)]\<rparr>))"
  by (simp add: disk_rw_def Let_def)

text \<open>What \<open>bread\<close> does after \<open>bget\<close>: read the block unless the buffer is valid.\<close>

lemma wp_bread_fill:
  assumes "b_dev x = d" and "b_blockno x = n"
  shows "wp (bindK (get_buf b) (\<lambda>x. thenK (whenK (\<not> b_valid x) (blockK [
             disk_rw b False, upd_buf b (\<lambda>x. x\<lparr>b_valid := True\<rparr>)])) (returnK b)))
           Q (taken (BufLock b) p (s\<lparr>bufs := (bufs s)(b := x)\<rparr>))
    = Q b (taken (BufLock b) p (s\<lparr>bufs := (bufs s)(b := x\<lparr>b_valid := True,
             b_data := (if b_valid x then b_data x else disk s d n)\<rparr>)\<rparr>))"
proof (cases "b_valid x")
  case True
  then show ?thesis by (cases x) (simp add: taken_def)
next
  case False
  then show ?thesis using assms
    by (cases s, cases x) (simp add: taken_def wp_disk_read)
qed

lemma wp_bread_exact:
  assumes inv: "cache_inv s" and d: "d \<noteq> 0" and h: "held s = []" and p: "cur s = Some p"
    and nb: "\<not> bbusy s d n" and room: "broom s d n"
  shows "\<exists>b. bpick s d n b \<and> (\<forall>Q. wp (bread d n) Q s = Q b (checked_out s d n b p))"
proof -
  obtain xs where lru: "lru (bufs s) xs" using inv by (auto simp: cache_inv_def)
  then have len: "length xs = NBUF" "NBUF \<notin> set xs" and set: "set xs = {..<NBUF}"
    and ch: "chain (nexts (bufs s)) NBUF xs NBUF" "chain (prevs (bufs s)) NBUF (rev xs) NBUF"
    using lru_length [OF lru] by (auto simp: lru_def ring_def)
  let ?s1 = "s\<lparr>held := [BcacheLock]\<rparr>"
  have c: "wp (bget_cached (Suc NBUF) (b_next (bufs s NBUF)) d n) Q ?s1 = Q (buf_of s d n) ?s1" for Q
    using wp_bget_cached [of ?s1 NBUF xs "Suc NBUF" d n] ch len find_unique [OF inv lru d] by simp
  have u: "wp (bget_unused (Suc NBUF) (b_prev (bufs s NBUF))) Q ?s1
      = Q (find (\<lambda>i. b_refcnt (bufs s i) = 0) (rev xs)) ?s1" for Q
    using wp_bget_unused [of ?s1 NBUF "rev xs" "Suc NBUF"] ch len by simp
  show ?thesis
  proof (cases "buf_of s d n")
    case (Some b)
    then have b: "b < NBUF" "b_dev (bufs s b) = d" "b_blockno (bufs s b) = n"
      using buf_of_Some [OF inv] by auto
    have unl: "\<not> sl_locked (slocks s (BufLock b))" using nb Some by (simp add: bbusy_def)
    let ?x = "(bufs s b)\<lparr>b_refcnt := b_refcnt (bufs s b) + 1\<rparr>"
    have g: "wp (bget d n) Q s = Q b (taken (BufLock b) p (s\<lparr>bufs := (bufs s)(b := ?x)\<rparr>))" for Q
      using h p unl Some by (simp add: bget_def c wp_acquiresleep del: bget_cached.simps bget_unused.simps) (cases s, simp)
    have "?x\<lparr>b_valid := True, b_data := (if b_valid ?x then b_data ?x else disk s d n)\<rparr>
        = (bufs s b)\<lparr>b_dev := d, b_blockno := n, b_refcnt := brefs s d n + 1, b_valid := True, b_data := bview s d n\<rparr>"
      using b Some by (cases "bufs s b") (simp add: bview_def brefs_def)
    then have "wp (bread d n) Q s = Q b (checked_out s d n b p)" for Q
      using wp_bread_fill [of ?x d n b Q p s] b
      by (simp only: bread_def wp_bind [of "bget d n"] g checked_out_def) simp
    then show ?thesis using b Some by (auto simp: bpick_def)
  next
    case None
    with room obtain b where b: "find (\<lambda>i. b_refcnt (bufs s i) = 0) (rev xs) = Some b"
      using set by (cases "find (\<lambda>i. b_refcnt (bufs s i) = 0) (rev xs)") (auto simp: broom_def find_None_iff)
    then have b': "b < NBUF" "b_refcnt (bufs s b) = 0" using find_eq_Some [OF b] set by auto
    then have unl: "\<not> sl_locked (slocks s (BufLock b))" using inv by (auto simp: cache_inv_def buf_ok_def Let_def)
    let ?x = "(bufs s b)\<lparr>b_dev := d, b_blockno := n, b_valid := False, b_refcnt := 1\<rparr>"
    have g: "wp (bget d n) Q s = Q b (taken (BufLock b) p (s\<lparr>bufs := (bufs s)(b := ?x)\<rparr>))" for Q
      using h p unl None b
      by (simp add: bget_def c u wp_acquiresleep del: bget_cached.simps bget_unused.simps) (cases s, simp)
    have "?x\<lparr>b_valid := True, b_data := (if b_valid ?x then b_data ?x else disk s d n)\<rparr>
        = (bufs s b)\<lparr>b_dev := d, b_blockno := n, b_refcnt := brefs s d n + 1, b_valid := True, b_data := bview s d n\<rparr>"
      using None by (cases "bufs s b") (simp add: bview_def brefs_def)
    then have "wp (bread d n) Q s = Q b (checked_out s d n b p)" for Q
      using wp_bread_fill [of ?x d n b Q p s]
      by (simp only: bread_def wp_bind [of "bget d n"] g checked_out_def) simp
    then show ?thesis using b' None by (auto simp: bpick_def)
  qed
qed

end
