(* ===== verification/Bcache.thy ===== *)
theory Bcache
  imports Bio
begin

text \<open>
  The contract of the buffer cache (\<open>kernel/bio.c\<close>). \<open>cache_inv\<close> is preserved by every
  operation, and the effect of each operation is a one-point update of the content, the
  reference count or the lock of one block.
\<close>

section \<open>How the operations change the view of the cache\<close>

text \<open>Two states agree on buffer \<open>i\<close> up to list pointers.\<close>

definition same_buf :: "kstate \<Rightarrow> kstate \<Rightarrow> nat \<Rightarrow> bool" where
  "same_buf s t i \<longleftrightarrow> b_refcnt (bufs t i) = b_refcnt (bufs s i) \<and> b_valid (bufs t i) = b_valid (bufs s i) \<and>
     b_dev (bufs t i) = b_dev (bufs s i) \<and> b_blockno (bufs t i) = b_blockno (bufs s i) \<and>
     b_data (bufs t i) = b_data (bufs s i) \<and> slocks t (BufLock i) = slocks s (BufLock i)"

lemma cache_inv_upd:
  assumes inv: "cache_inv s" and lru: "lru (bufs t) ys"
    and same: "\<And>i. i < NBUF \<Longrightarrow> i \<noteq> b \<Longrightarrow> same_buf s t i"
    and dsk: "\<And>i. i < NBUF \<Longrightarrow> i \<noteq> b \<Longrightarrow> b_refcnt (bufs s i) = 0 \<Longrightarrow> b_valid (bufs s i) \<Longrightarrow>
       disk t (b_dev (bufs s i)) (b_blockno (bufs s i)) = disk s (b_dev (bufs s i)) (b_blockno (bufs s i))"
    and ok: "buf_ok t b"
    and uniq: "\<And>i. i < NBUF \<Longrightarrow> i \<noteq> b \<Longrightarrow> b_dev (bufs t b) \<noteq> 0 \<Longrightarrow>
       \<not> (b_dev (bufs s i) = b_dev (bufs t b) \<and> b_blockno (bufs s i) = b_blockno (bufs t b))"
    and len: "\<And>d n. length (disk t d n) = BSIZE"
  shows "cache_inv t"
proof -
  have "buf_ok t i" if "i < NBUF" for i
  proof (cases "i = b")
    case False
    have "buf_ok s i" using inv that by (simp add: cache_inv_def)
    then show ?thesis using same [OF that False] dsk [OF that False]
      by (auto simp: buf_ok_def same_buf_def Let_def split: if_splits)
  qed (use ok in simp)
  moreover have "bufs_distinct t"
    unfolding bufs_distinct_def
  proof (intro allI impI)
    fix i j
    assume *: "i < NBUF" "j < NBUF" "b_dev (bufs t i) = b_dev (bufs t j)"
      "b_blockno (bufs t i) = b_blockno (bufs t j)" "b_dev (bufs t i) \<noteq> 0"
    have dist: "bufs_distinct s" using inv by (simp add: cache_inv_def)
    show "i = j"
    proof (cases "i = b \<or> j = b")
      case True
      with * uniq [of i] uniq [of j] same [of i] same [of j] show ?thesis
        by (cases "i = b"; cases "j = b") (auto simp: same_buf_def)
    next
      case False
      with * same [of i] same [of j] dist show ?thesis
        unfolding bufs_distinct_def same_buf_def by metis
    qed
  qed
  ultimately show ?thesis using lru len unfolding cache_inv_def by blast
qed

lemma cache_invD:
  assumes "cache_inv s" and "i < NBUF"
  shows "b_refcnt (bufs s i) \<ge> 0" "length (b_data (bufs s i)) = BSIZE"
    "b_refcnt (bufs s i) = 0 \<Longrightarrow> \<not> sl_locked (slocks s (BufLock i))"
    "b_refcnt (bufs s i) = 0 \<Longrightarrow> b_valid (bufs s i) \<Longrightarrow>
       b_data (bufs s i) = disk s (b_dev (bufs s i)) (b_blockno (bufs s i))"
    "b_refcnt (bufs s i) > 0 \<Longrightarrow> b_valid (bufs s i)" "b_refcnt (bufs s i) > 0 \<Longrightarrow> b_dev (bufs s i) \<noteq> 0"
  using assms by (auto simp: cache_inv_def buf_ok_def Let_def split: if_splits)

lemma length_disk [simp]: "cache_inv s \<Longrightarrow> length (disk s d n) = BSIZE"
  by (simp add: cache_inv_def)

lemma length_bview [simp]: "cache_inv s \<Longrightarrow> length (bview s d n) = BSIZE"
  by (auto simp: bview_def buf_of_Some cache_invD split: option.splits)

lemma cache_inv_lru: "cache_inv s \<Longrightarrow> \<exists>xs. lru (bufs s) xs"
  by (simp add: cache_inv_def)

lemma checked_out_bufs [simp]:
  "bufs (checked_out s d n b p) = (bufs s)(b := (bufs s b)\<lparr>b_dev := d, b_blockno := n,
     b_refcnt := brefs s d n + 1, b_valid := True, b_data := bview s d n\<rparr>)"
  "disk (checked_out s d n b p) = disk s" "dtrace (checked_out s d n b p) = dtrace s"
  "cur (checked_out s d n b p) = cur s" "held (checked_out s d n b p) = held s"
  "procs (checked_out s d n b p) = procs s"
  "slocks (checked_out s d n b p) = (slocks s)(BufLock b := \<lparr>sl_locked = True, sl_pid = p_pid (procs s p)\<rparr>)"
  by (simp_all add: checked_out_def taken_def)

lemma brefs_nonneg: "cache_inv s \<Longrightarrow> brefs s d n \<ge> 0"
  by (auto simp: brefs_def buf_of_Some cache_invD split: option.splits)

lemma checked_out_inv:
  assumes inv: "cache_inv s" and d: "d \<noteq> 0" and b: "bpick s d n b"
  shows "cache_inv (checked_out s d n b p)"
proof -
  obtain xs where "lru (bufs s) xs" using inv cache_inv_lru by blast
  then have lru: "lru (bufs (checked_out s d n b p)) xs" by (rule lru_links) auto
  have "b < NBUF" using b by (simp add: bpick_def)
  moreover have "\<not> (b_dev (bufs s i) = d \<and> b_blockno (bufs s i) = n)" if "i < NBUF" "i \<noteq> b" for i
  proof
    assume "b_dev (bufs s i) = d \<and> b_blockno (bufs s i) = n"
    then have "buf_of s d n = Some i" using that d by (simp add: buf_of_Some [OF inv])
    with b that show False by (simp add: bpick_def)
  qed
  ultimately show ?thesis
    using inv d brefs_nonneg [OF inv, of d n]
    by (intro cache_inv_upd [OF inv lru, of b]) (auto simp: same_buf_def buf_ok_def Let_def)
qed

lemma upd2_apply: "upd2 f d n v d' n' = (if d' = d \<and> n' = n then v else f d' n')"
  by (simp add: upd2_def)

lemma upd2_same [simp]: "upd2 f d n v d n = v"
  by (simp add: upd2_def)

lemma upd2_other [simp]: "n' \<noteq> n \<Longrightarrow> upd2 f d n v d' n' = f d' n'"
  by (simp add: upd2_def)

lemma upd2_id [simp]: "upd2 f d n (f d n) = f"
  by (auto simp: upd2_def fun_eq_iff)

lemma upd2_upd2 [simp]: "upd2 (upd2 f d n v) d n w = upd2 f d n w"
  by (auto simp: upd2_def fun_eq_iff)

lemma option_eqI: "(\<And>i. x = Some i \<longleftrightarrow> y = Some i) \<Longrightarrow> x = y"
  by (cases x; cases y) auto

lemma buf_of_checked_out:
  assumes inv: "cache_inv s" and d: "d \<noteq> 0" and b: "bpick s d n b"
  shows "buf_of (checked_out s d n b p) d' n' = (if d' = d \<and> n' = n then Some b
    else if buf_of s d' n' = Some b then None else buf_of s d' n')"
proof (rule option_eqI)
  fix i
  have inv': "cache_inv (checked_out s d n b p)" by (rule checked_out_inv [OF assms])
  have "b < NBUF" using b by (simp add: bpick_def)
  moreover have "\<not> (b_dev (bufs s i) = d \<and> b_blockno (bufs s i) = n)" if "i < NBUF" "i \<noteq> b"
  proof
    assume "b_dev (bufs s i) = d \<and> b_blockno (bufs s i) = n"
    then have "buf_of s d n = Some i" using that d by (simp add: buf_of_Some [OF inv])
    with b that show False by (simp add: bpick_def)
  qed
  moreover have "i = b" if "i < NBUF" "b_dev (bufs s i) = b_dev (bufs s b)"
    "b_blockno (bufs s i) = b_blockno (bufs s b)" "b_dev (bufs s i) \<noteq> 0"
    using inv that \<open>b < NBUF\<close> unfolding cache_inv_def bufs_distinct_def by blast
  ultimately show "buf_of (checked_out s d n b p) d' n' = Some i \<longleftrightarrow>
      (if d' = d \<and> n' = n then Some b else if buf_of s d' n' = Some b then None else buf_of s d' n') = Some i"
    using d by (auto simp: buf_of_Some [OF inv'] buf_of_Some [OF inv])
qed

lemma checked_out_view:
  assumes inv: "cache_inv s" and d: "d \<noteq> 0" and b: "bpick s d n b"
  shows "bview (checked_out s d n b p) = bview s"
    and "brefs (checked_out s d n b p) = upd2 (brefs s) d n (brefs s d n + 1)"
    and "bbusy (checked_out s d n b p) = upd2 (bbusy s) d n True"
proof -
  note bo = buf_of_checked_out [OF assms]
  have ev: "b_refcnt (bufs s b) = 0" if "buf_of s d' n' = Some b" "\<not> (d' = d \<and> n' = n)" for d' n'
    using b that by (auto simp: bpick_def buf_of_Some [OF inv])
  have "b < NBUF" using b by (simp add: bpick_def)
  note inv_b = cache_invD [OF inv this]
  have "bview (checked_out s d n b p) d' n' = bview s d' n'" for d' n'
  proof (cases "buf_of s d' n' = Some b \<and> \<not> (d' = d \<and> n' = n)")
    case True
    then have "b_dev (bufs s b) = d'" "b_blockno (bufs s b) = n'" using buf_of_Some [OF inv] by auto
    with True ev [of d' n'] inv_b(4) show ?thesis by (auto simp: bview_def bo)
  next
    case False
    show ?thesis
    proof (cases "d' = d \<and> n' = n")
      case True
      then show ?thesis by (simp add: bview_def [of "checked_out s d n b p"] bo)
    next
      case other: False
      then have "buf_of s d' n' \<noteq> Some b" using False by blast
      then show ?thesis using other by (cases "buf_of s d' n'") (auto simp: bview_def bo)
    qed
  qed
  then show "bview (checked_out s d n b p) = bview s" by blast
  have "brefs (checked_out s d n b p) d' n' = upd2 (brefs s) d n (brefs s d n + 1) d' n'" for d' n'
    using ev [of d' n'] by (auto simp: upd2_apply brefs_def bo split: option.splits)
  then show "brefs (checked_out s d n b p) = upd2 (brefs s) d n (brefs s d n + 1)" by blast
  have "bbusy (checked_out s d n b p) d' n' = upd2 (bbusy s) d n True d' n'" for d' n'
    using ev [of d' n'] inv_b(3) by (auto simp: upd2_apply bbusy_def bo split: option.splits)
  then show "bbusy (checked_out s d n b p) = upd2 (bbusy s) d n True" by blast
qed

text \<open>
  What no operation of the cache touches: the kernel state outside the cache, the disk and the
  sleep locks of buffers, except that \<open>brelse\<close> may make sleeping processes runnable.
\<close>

definition bframe :: "kstate \<Rightarrow> kstate \<Rightarrow> bool" where
  "bframe s t \<longleftrightarrow> (\<exists>P L B D T. t = s\<lparr>procs := P, slocks := L, bufs := B, disk := D, dtrace := T\<rparr> \<and>
     (\<forall>i. L (InodeLock i) = slocks s (InodeLock i)) \<and>
     (\<forall>p. P p = procs s p \<or> Some p \<noteq> cur s \<and> p_state (procs s p) = SLEEPING \<and>
            P p = (procs s p)\<lparr>p_state := RUNNABLE\<rparr>))"

lemma bframe_refl [simp]: "bframe s s"
  unfolding bframe_def
  by (intro exI [of _ "procs s"] exI [of _ "slocks s"] exI [of _ "bufs s"] exI [of _ "disk s"]
      exI [of _ "dtrace s"]) simp

lemma bframe_trans:
  assumes "bframe s t" and "bframe t u"
  shows "bframe s u"
proof -
  obtain P L B D T where t: "t = s\<lparr>procs := P, slocks := L, bufs := B, disk := D, dtrace := T\<rparr>"
    and tL: "\<And>i. L (InodeLock i) = slocks s (InodeLock i)"
    and tP: "\<And>p. P p = procs s p \<or> Some p \<noteq> cur s \<and> p_state (procs s p) = SLEEPING \<and>
            P p = (procs s p)\<lparr>p_state := RUNNABLE\<rparr>"
    using assms(1) unfolding bframe_def by blast
  obtain P' L' B' D' T' where u: "u = t\<lparr>procs := P', slocks := L', bufs := B', disk := D', dtrace := T'\<rparr>"
    and uL: "\<And>i. L' (InodeLock i) = slocks t (InodeLock i)"
    and uP: "\<And>p. P' p = procs t p \<or> Some p \<noteq> cur t \<and> p_state (procs t p) = SLEEPING \<and>
            P' p = (procs t p)\<lparr>p_state := RUNNABLE\<rparr>"
    using assms(2) unfolding bframe_def by blast
  have "u = s\<lparr>procs := P', slocks := L', bufs := B', disk := D', dtrace := T'\<rparr>" by (simp add: u t)
  moreover have "P' p = procs s p \<or> Some p \<noteq> cur s \<and> p_state (procs s p) = SLEEPING \<and>
      P' p = (procs s p)\<lparr>p_state := RUNNABLE\<rparr>" for p
    using tP [of p] uP [of p] by (auto simp: t)
  moreover have "L' (InodeLock i) = slocks s (InodeLock i)" for i using tL uL by (simp add: t)
  ultimately show ?thesis unfolding bframe_def by blast
qed

lemma bframe_simps:
  assumes "bframe s t"
  shows "cur t = cur s" "held t = held s" "klog t = klog s" "superb t = superb s" "mem t = mem s"
    "inodes t = inodes s" "files t = files s" "cur s = Some p \<Longrightarrow> procs t p = procs s p"
    "p_pid (procs t q) = p_pid (procs s q)" "slocks t (InodeLock i) = slocks s (InodeLock i)"
proof -
  obtain P L B D T where t: "t = s\<lparr>procs := P, slocks := L, bufs := B, disk := D, dtrace := T\<rparr>"
    and tL: "\<And>i. L (InodeLock i) = slocks s (InodeLock i)"
    and tP: "\<And>p. P p = procs s p \<or> Some p \<noteq> cur s \<and> p_state (procs s p) = SLEEPING \<and>
            P p = (procs s p)\<lparr>p_state := RUNNABLE\<rparr>"
    using assms unfolding bframe_def by blast
  show "cur t = cur s" "held t = held s" "klog t = klog s" "superb t = superb s" "mem t = mem s"
    "inodes t = inodes s" "files t = files s" "slocks t (InodeLock i) = slocks s (InodeLock i)"
    by (simp_all add: t tL)
  show "procs t p = procs s p" if "cur s = Some p" using tP [of p] that by (auto simp: t)
  show "p_pid (procs t q) = p_pid (procs s q)" using tP [of q] by (auto simp: t)
qed

lemma bframe_upd_bufs [simp]: "bframe s (s\<lparr>bufs := B\<rparr>)"
  unfolding bframe_def
  by (intro exI [of _ "procs s"] exI [of _ "slocks s"] exI [of _ B] exI [of _ "disk s"]
      exI [of _ "dtrace s"]) simp

lemma bframe_checked_out: "bframe s (checked_out s d n b p)"
  unfolding bframe_def checked_out_def taken_def
  by (intro exI [of _ "procs s"] exI [of _ "(slocks s)(BufLock b := \<lparr>sl_locked = True, sl_pid = p_pid (procs s p)\<rparr>)"]
      exI [of _ "(bufs s)(b := (bufs s b)\<lparr>b_dev := d, b_blockno := n, b_refcnt := brefs s d n + 1,
        b_valid := True, b_data := bview s d n\<rparr>)"] exI [of _ "disk s"] exI [of _ "dtrace s"])
    (cases s, simp)

definition quiet :: "kstate \<Rightarrow> bool" where
  "quiet s \<longleftrightarrow> held s = [] \<and> cur s \<noteq> None"

lemma bframe_quiet: "bframe s t \<Longrightarrow> quiet s \<Longrightarrow> quiet t"
  by (simp add: quiet_def bframe_simps)

lemma wp_bread:
  assumes inv: "cache_inv s" and q: "quiet s" and d: "d \<noteq> 0" and nb: "\<not> bbusy s d n" and room: "broom s d n"
  shows "wp (bread d n) (\<lambda>b t. has_buf t b d n \<and> cache_inv t \<and> bframe s t \<and> bview t = bview s \<and>
    brefs t = upd2 (brefs s) d n (brefs s d n + 1) \<and> bbusy t = upd2 (bbusy s) d n True \<and>
    disk t = disk s \<and> dtrace t = dtrace s \<and> (\<forall>b' d' n'. has_buf s b' d' n' \<longrightarrow> has_buf t b' d' n')) s"
proof -
  obtain p where p: "cur s = Some p" and h: "held s = []" using q by (auto simp: quiet_def)
  obtain b where b: "bpick s d n b" and w: "\<And>Q. wp (bread d n) Q s = Q b (checked_out s d n b p)"
    using wp_bread_exact [OF inv d h p nb room] by blast
  have "has_buf (checked_out s d n b p) b' d' n'" if "has_buf s b' d' n'" for b' d' n'
  proof -
    have "b' \<noteq> b" using that b nb
      by (auto simp: has_buf_def bpick_def bbusy_def)
    moreover have "\<not> (d' = d \<and> n' = n)" using that nb by (auto simp: has_buf_def bbusy_def)
    ultimately show ?thesis using that by (auto simp: has_buf_def buf_of_checked_out [OF inv d b] p)
  qed
  then show ?thesis unfolding w
    using checked_out_inv [OF inv d b] checked_out_view [OF inv d b] bframe_checked_out
      brefs_nonneg [OF inv, of d n] p
    by (auto simp: has_buf_def buf_of_checked_out [OF inv d b])
qed

text \<open>
  All other operations change one checked-out buffer, possibly its block on disk, and the order
  of the list.
\<close>

definition one_buf :: "kstate \<Rightarrow> kstate \<Rightarrow> nat \<Rightarrow> nat \<Rightarrow> nat \<Rightarrow> bool" where
  "one_buf s t b d n \<longleftrightarrow> buf_of s d n = Some b \<and> (\<exists>xs. lru (bufs t) xs) \<and>
     (\<forall>i<NBUF. i \<noteq> b \<longrightarrow> same_buf s t i) \<and> b_dev (bufs t b) = d \<and> b_blockno (bufs t b) = n \<and>
     (\<forall>d' n'. \<not> (d' = d \<and> n' = n) \<longrightarrow> disk t d' n' = disk s d' n') \<and> length (disk t d n) = BSIZE \<and> buf_ok t b"

lemma find_cong_set: "(\<And>x. x \<in> set xs \<Longrightarrow> P x = Q x) \<Longrightarrow> find P xs = find Q xs"
  by (induction xs) auto

lemma one_buf_inv:
  assumes inv: "cache_inv s" and one: "one_buf s t b d n"
  shows "cache_inv t"
proof -
  have b: "d \<noteq> 0" "b < NBUF" "b_dev (bufs s b) = d" "b_blockno (bufs s b) = n"
    using one buf_of_Some [OF inv] by (auto simp: one_buf_def)
  obtain xs where "lru (bufs t) xs" using one by (auto simp: one_buf_def)
  then show ?thesis
  proof (rule cache_inv_upd [OF inv])
    fix i assume i: "i < NBUF" "i \<noteq> b"
    have neq: "\<not> (b_dev (bufs s i) = d \<and> b_blockno (bufs s i) = n)"
      using i b inv unfolding cache_inv_def bufs_distinct_def by metis
    show "same_buf s t i" using one i by (simp add: one_buf_def)
    show "disk t (b_dev (bufs s i)) (b_blockno (bufs s i)) = disk s (b_dev (bufs s i)) (b_blockno (bufs s i))"
      using one neq by (simp add: one_buf_def)
    show "\<not> (b_dev (bufs s i) = b_dev (bufs t b) \<and> b_blockno (bufs s i) = b_blockno (bufs t b))"
      using one neq by (simp add: one_buf_def)
  next
    fix d' n' show "length (disk t d' n') = BSIZE"
      using one inv by (cases "d' = d \<and> n' = n") (auto simp: one_buf_def)
  qed (use one in \<open>simp add: one_buf_def\<close>)
qed

lemma one_buf_buf_of:
  assumes inv: "cache_inv s" and one: "one_buf s t b d n"
  shows "buf_of t = buf_of s"
proof -
  have b: "b < NBUF" "b_dev (bufs s b) = d" "b_blockno (bufs s b) = n"
    using one buf_of_Some [OF inv] by (auto simp: one_buf_def)
  have "b_dev (bufs t i) = b_dev (bufs s i) \<and> b_blockno (bufs t i) = b_blockno (bufs s i)" if "i < NBUF" for i
    using one b that by (cases "i = b") (auto simp: one_buf_def same_buf_def)
  then have "find (\<lambda>i. b_dev (bufs t i) = d' \<and> b_blockno (bufs t i) = n') [0..<NBUF]
      = find (\<lambda>i. b_dev (bufs s i) = d' \<and> b_blockno (bufs s i) = n') [0..<NBUF]" for d' n'
    by (intro find_cong_set) auto
  then show ?thesis by (simp add: buf_of_def fun_eq_iff)
qed

lemma one_buf_view:
  assumes inv: "cache_inv s" and one: "one_buf s t b d n"
  shows "bview t = upd2 (bview s) d n (if b_valid (bufs t b) then b_data (bufs t b) else disk t d n)"
    and "brefs t = upd2 (brefs s) d n (b_refcnt (bufs t b))"
    and "bbusy t = upd2 (bbusy s) d n (sl_locked (slocks t (BufLock b)))"
proof -
  note bo = one_buf_buf_of [OF assms]
  have hb: "buf_of s d n = Some b" using one by (simp add: one_buf_def)
  have oth: "i \<noteq> b \<and> same_buf s t i" if "buf_of s d' n' = Some i" "\<not> (d' = d \<and> n' = n)" for d' n' i
    using that hb one by (auto simp: buf_of_Some [OF inv] one_buf_def)
  have dk: "disk t d' n' = disk s d' n'" if "\<not> (d' = d \<and> n' = n)" for d' n'
    using one that by (simp add: one_buf_def)
  have "bview t d' n' = upd2 (bview s) d n (if b_valid (bufs t b) then b_data (bufs t b) else disk t d n) d' n'
      \<and> brefs t d' n' = upd2 (brefs s) d n (b_refcnt (bufs t b)) d' n'
      \<and> bbusy t d' n' = upd2 (bbusy s) d n (sl_locked (slocks t (BufLock b))) d' n'" for d' n'
  proof (cases "d' = d \<and> n' = n")
    case True
    then show ?thesis using hb by (simp add: bview_def brefs_def bbusy_def bo)
  next
    case False
    then show ?thesis using dk [OF False] oth [OF _ False]
      by (cases "buf_of s d' n'") (auto simp: bview_def brefs_def bbusy_def bo upd2_apply same_buf_def)
  qed
  then show "bview t = upd2 (bview s) d n (if b_valid (bufs t b) then b_data (bufs t b) else disk t d n)"
    and "brefs t = upd2 (brefs s) d n (b_refcnt (bufs t b))"
    and "bbusy t = upd2 (bbusy s) d n (sl_locked (slocks t (BufLock b)))" by blast+
qed

lemma one_buf_other_handle:
  assumes inv: "cache_inv s" and one: "one_buf s t b d n" and fr: "bframe s t"
    and h: "has_buf s b' d' n'" and ne: "d' \<noteq> d \<or> n' \<noteq> n"
  shows "has_buf t b' d' n'"
proof -
  have "b' < NBUF" "b' \<noteq> b" using h one ne by (auto simp: has_buf_def buf_of_Some [OF inv] one_buf_def)
  then have "same_buf s t b'" using one by (simp add: one_buf_def)
  then show ?thesis using h one_buf_buf_of [OF inv one] bframe_simps [OF fr]
    by (auto simp: has_buf_def same_buf_def)
qed

section \<open>The operations, abstractly\<close>

record blocks =
  k_view :: "nat \<Rightarrow> nat \<Rightarrow> u8 list"
  k_refs :: "nat \<Rightarrow> nat \<Rightarrow> int"
  k_busy :: "nat \<Rightarrow> nat \<Rightarrow> bool"
  k_disk :: "nat \<Rightarrow> nat \<Rightarrow> u8 list"
  k_trace :: "(nat \<times> nat \<times> u8 list) list"

definition babs :: "kstate \<Rightarrow> blocks" where
  "babs s = \<lparr>k_view = bview s, k_refs = brefs s, k_busy = bbusy s, k_disk = disk s, k_trace = dtrace s\<rparr>"

definition refd :: "blocks \<Rightarrow> (nat \<times> nat) set" where
  "refd k = {(d, n). k_refs k d n > 0}"

definition has_room :: "blocks \<Rightarrow> nat \<Rightarrow> nat \<Rightarrow> bool" where
  "has_room k d n \<longleftrightarrow> k_refs k d n > 0 \<or> card (refd k) < NBUF"

definition put_data :: "nat \<Rightarrow> u8 list \<Rightarrow> unit kern" where
  "put_data b x = upd_buf b (\<lambda>y. y\<lparr>b_data := x\<rparr>)"

lemma refd_image:
  assumes "cache_inv s"
  shows "refd (babs s) = (\<lambda>i. (b_dev (bufs s i), b_blockno (bufs s i))) ` {i. i < NBUF \<and> b_refcnt (bufs s i) > 0}"
    (is "_ = ?f ` ?A")
proof
  show "refd (babs s) \<subseteq> ?f ` ?A"
    using buf_of_Some [OF assms]
    by (auto simp: refd_def babs_def brefs_def image_iff split: option.splits)
  show "?f ` ?A \<subseteq> refd (babs s)"
  proof clarify
    fix i assume i: "i < NBUF" "b_refcnt (bufs s i) > 0"
    then have "buf_of s (b_dev (bufs s i)) (b_blockno (bufs s i)) = Some i"
      using cache_invD(6) [OF assms] by (simp add: buf_of_Some [OF assms])
    then show "?f i \<in> refd (babs s)" using i by (simp add: refd_def babs_def brefs_def)
  qed
qed

lemma finite_refd [simp]: "cache_inv s \<Longrightarrow> finite (refd (babs s))"
  by (simp add: refd_image)

lemma has_room_broom:
  assumes inv: "cache_inv s" and room: "has_room (babs s) d n"
  shows "broom s d n"
proof (rule ccontr)
  assume no: "\<not> broom s d n"
  let ?f = "\<lambda>i. (b_dev (bufs s i), b_blockno (bufs s i))"
  have pos: "b_refcnt (bufs s i) > 0" if "i < NBUF" for i
    using no that cache_invD(1) [OF inv that] by (fastforce simp: broom_def)
  have "inj_on ?f {..<NBUF}"
    using inv cache_invD(6) [OF inv] pos unfolding cache_inv_def bufs_distinct_def
    by (auto intro!: inj_onI)
  then have "card (?f ` {..<NBUF}) = NBUF" by (simp add: card_image)
  moreover have "{i. i < NBUF \<and> b_refcnt (bufs s i) > 0} = {..<NBUF}" using pos by auto
  ultimately have "card (refd (babs s)) = NBUF" by (simp add: refd_image [OF inv])
  moreover have "brefs s d n = 0" using no by (simp add: broom_def brefs_def)
  ultimately show False using room by (simp add: has_room_def babs_def)
qed

text \<open>Common form of the effect of an operation.\<close>

definition bstep :: "kstate \<Rightarrow> kstate \<Rightarrow> (blocks \<Rightarrow> blocks) \<Rightarrow> bool" where
  "bstep s t f \<longleftrightarrow> cache_inv t \<and> bframe s t \<and> babs t = f (babs s)"

definition keeps_bufs :: "kstate \<Rightarrow> kstate \<Rightarrow> nat \<Rightarrow> nat \<Rightarrow> bool" where
  "keeps_bufs s t d n \<longleftrightarrow> (\<forall>b' d' n'. d' \<noteq> d \<or> n' \<noteq> n \<longrightarrow> has_buf s b' d' n' \<longrightarrow> has_buf t b' d' n')"

lemma bread_spec:
  assumes "cache_inv s" and "quiet s" and "d \<noteq> 0" and "\<not> k_busy (babs s) d n" and "has_room (babs s) d n"
  shows "wp (bread d n) (\<lambda>b t. has_buf t b d n \<and> keeps_bufs s t d n \<and>
    bstep s t (\<lambda>k. k\<lparr>k_refs := upd2 (k_refs k) d n (k_refs k d n + 1), k_busy := upd2 (k_busy k) d n True\<rparr>)) s"
  by (rule wp_mono [OF wp_bread [OF assms(1-3) _ has_room_broom [OF assms(1,5)]]])
    (use assms(4) in \<open>auto simp: babs_def bstep_def keeps_bufs_def\<close>)

lemma one_buf_bstep:
  assumes inv: "cache_inv s" and one: "one_buf s t b d n" and fr: "bframe s t" and v: "b_valid (bufs t b)"
    and g: "g (babs s) = \<lparr>k_view = upd2 (bview s) d n (b_data (bufs t b)),
            k_refs = upd2 (brefs s) d n (b_refcnt (bufs t b)),
            k_busy = upd2 (bbusy s) d n (sl_locked (slocks t (BufLock b))),
            k_disk = disk t, k_trace = dtrace t\<rparr>"
  shows "bstep s t g \<and> keeps_bufs s t d n"
proof -
  have "babs t = g (babs s)" unfolding g using one_buf_view [OF inv one] v by (simp add: babs_def)
  then show ?thesis
    using one_buf_inv [OF inv one] one_buf_other_handle [OF inv one fr] fr
    by (simp add: bstep_def keeps_bufs_def)
qed

lemma has_buf_facts:
  assumes "cache_inv s" and "has_buf s b d n"
  shows "d \<noteq> 0" "b < NBUF" "b_dev (bufs s b) = d" "b_blockno (bufs s b) = n" "b_valid (bufs s b)"
    "b_refcnt (bufs s b) > 0" "bview s d n = b_data (bufs s b)" "brefs s d n = b_refcnt (bufs s b)"
    "bbusy s d n" "sl_locked (slocks s (BufLock b))" "buf_of s d n = Some b"
proof -
  show bo: "buf_of s d n = Some b" and r: "b_refcnt (bufs s b) > 0" and l: "sl_locked (slocks s (BufLock b))"
    using assms(2) by (auto simp: has_buf_def)
  then show b: "d \<noteq> 0" "b < NBUF" "b_dev (bufs s b) = d" "b_blockno (bufs s b) = n"
    using buf_of_Some [OF assms(1)] by auto
  show v: "b_valid (bufs s b)" using cache_invD(5) [OF assms(1) b(2) r] .
  show "bview s d n = b_data (bufs s b)" "brefs s d n = b_refcnt (bufs s b)" "bbusy s d n"
    using v l by (simp_all add: bview_def brefs_def bbusy_def bo)
qed

lemma same_buf_refl [simp]: "same_buf s s i"
  by (simp add: same_buf_def)

lemma has_buf_one_buf:
  assumes "cache_inv s" and "one_buf s t b d n" and "has_buf s b d n" and "cur t = cur s" and "procs t = procs s"
    and "slocks t (BufLock b) = slocks s (BufLock b)" and "b_refcnt (bufs t b) > 0"
  shows "has_buf t b d n"
  using assms one_buf_buf_of [OF assms(1,2)] by (simp add: has_buf_def)

lemma bwrite_spec:
  assumes inv: "cache_inv s" and q: "quiet s" and h: "has_buf s b d n"
  shows "wp (bwrite b) (\<lambda>_ t. has_buf t b d n \<and> keeps_bufs s t d n \<and>
    bstep s t (\<lambda>k. k\<lparr>k_disk := upd2 (k_disk k) d n (k_view k d n),
                    k_trace := k_trace k @ [(d, n, k_view k d n)]\<rparr>)) s"
proof -
  note f = has_buf_facts [OF inv h]
  obtain p where p: "cur s = Some p" "sl_pid (slocks s (BufLock b)) = p_pid (procs s p)" and hl: "held s = []"
    using h q by (auto simp: has_buf_def quiet_def)
  let ?t = "s\<lparr>disk := upd2 (disk s) d n (bview s d n), dtrace := dtrace s @ [(d, n, bview s d n)]\<rparr>"
  have one: "one_buf s ?t b d n"
    using f inv cache_inv_lru [OF inv] cache_invD(2) [OF inv f(2)]
    by (simp add: one_buf_def same_buf_def buf_ok_def upd2_apply)
  have fr: "bframe s ?t" unfolding bframe_def
    by (intro exI [of _ "procs s"] exI [of _ "slocks s"] exI [of _ "bufs s"] exI) simp
  have w: "wp (bwrite b) Q s = Q () ?t" for Q
    using p hl f(3,4,7,10) by (simp add: bwrite_def wp_holdingsleep wp_disk_write Let_def)
  have b: "b_data (bufs ?t b) = bview s d n" "b_refcnt (bufs ?t b) = brefs s d n"
    "sl_locked (slocks ?t (BufLock b)) = bbusy s d n" "b_valid (bufs ?t b)" using f(5,7-10) by simp_all
  have "has_buf ?t b d n" by (rule has_buf_one_buf [OF inv one h]) (use f(6) in simp_all)
  then show ?thesis unfolding w
    using one_buf_bstep [OF inv one fr b(4), of "\<lambda>k. k\<lparr>k_disk := upd2 (k_disk k) d n (k_view k d n),
                    k_trace := k_trace k @ [(d, n, k_view k d n)]\<rparr>", unfolded b(1-3)]
    by (simp add: babs_def)
qed

lemma put_data_spec:
  assumes inv: "cache_inv s" and h: "has_buf s b d n" and len: "length x = BSIZE"
  shows "wp (put_data b x) (\<lambda>_ t. has_buf t b d n \<and> keeps_bufs s t d n \<and>
    bstep s t (\<lambda>k. k\<lparr>k_view := upd2 (k_view k) d n x\<rparr>)) s"
proof -
  note f = has_buf_facts [OF inv h]
  let ?t = "s\<lparr>bufs := (bufs s)(b := (bufs s b)\<lparr>b_data := x\<rparr>)\<rparr>"
  obtain xs where xs: "lru (bufs s) xs" using cache_inv_lru [OF inv] by blast
  have "lru (bufs ?t) xs" by (rule lru_links [OF xs]) auto
  then have one: "one_buf s ?t b d n"
    using f inv len by (auto simp: one_buf_def same_buf_def buf_ok_def)
  have w: "wp (put_data b x) Q s = Q () ?t" for Q by (simp add: put_data_def)
  have b: "b_data (bufs ?t b) = x" "b_refcnt (bufs ?t b) = brefs s d n"
    "sl_locked (slocks ?t (BufLock b)) = bbusy s d n" "b_valid (bufs ?t b)" using f(5,7-10) by simp_all
  have "has_buf ?t b d n" by (rule has_buf_one_buf [OF inv one h]) (use f(6) in simp_all)
  then show ?thesis unfolding w
    using one_buf_bstep [OF inv one _ b(4), of "\<lambda>k. k\<lparr>k_view := upd2 (k_view k) d n x\<rparr>", unfolded b(1-3)]
    by (simp add: babs_def)
qed

lemma bpin_spec:
  assumes inv: "cache_inv s" and h: "has_buf s b d n" and lk: "BcacheLock \<notin> set (held s)"
  shows "wp (bpin b) (\<lambda>_ t. has_buf t b d n \<and> keeps_bufs s t d n \<and>
    bstep s t (\<lambda>k. k\<lparr>k_refs := upd2 (k_refs k) d n (k_refs k d n + 1)\<rparr>)) s"
proof -
  note f = has_buf_facts [OF inv h]
  let ?t = "s\<lparr>bufs := (bufs s)(b := (bufs s b)\<lparr>b_refcnt := b_refcnt (bufs s b) + 1\<rparr>)\<rparr>"
  obtain xs where xs: "lru (bufs s) xs" using cache_inv_lru [OF inv] by blast
  have "lru (bufs ?t) xs" by (rule lru_links [OF xs]) auto
  then have one: "one_buf s ?t b d n"
    using f inv cache_invD(2) [OF inv f(2)] by (auto simp: one_buf_def same_buf_def buf_ok_def)
  have w: "wp (bpin b) Q s = Q () ?t" for Q using lk by (simp add: bpin_def)
  have b: "b_data (bufs ?t b) = bview s d n" "b_refcnt (bufs ?t b) = brefs s d n + 1"
    "sl_locked (slocks ?t (BufLock b)) = bbusy s d n" "b_valid (bufs ?t b)" using f(5,7-10) by simp_all
  have "has_buf ?t b d n" by (rule has_buf_one_buf [OF inv one h]) (use f(6) in simp_all)
  then show ?thesis unfolding w
    using one_buf_bstep [OF inv one _ b(4), of "\<lambda>k. k\<lparr>k_refs := upd2 (k_refs k) d n (k_refs k d n + 1)\<rparr>",
        unfolded b(1-3)]
    by (simp add: babs_def)
qed

lemma bunpin_spec:
  assumes inv: "cache_inv s" and h: "has_buf s b d n" and lk: "BcacheLock \<notin> set (held s)"
    and more: "k_refs (babs s) d n > 1"
  shows "wp (bunpin b) (\<lambda>_ t. has_buf t b d n \<and> keeps_bufs s t d n \<and>
    bstep s t (\<lambda>k. k\<lparr>k_refs := upd2 (k_refs k) d n (k_refs k d n - 1)\<rparr>)) s"
proof -
  note f = has_buf_facts [OF inv h]
  let ?t = "s\<lparr>bufs := (bufs s)(b := (bufs s b)\<lparr>b_refcnt := b_refcnt (bufs s b) - 1\<rparr>)\<rparr>"
  have r: "b_refcnt (bufs s b) > 1" using more f(8) by (simp add: babs_def)
  obtain xs where xs: "lru (bufs s) xs" using cache_inv_lru [OF inv] by blast
  have "lru (bufs ?t) xs" by (rule lru_links [OF xs]) auto
  then have one: "one_buf s ?t b d n"
    using f r inv cache_invD(2) [OF inv f(2)] by (auto simp: one_buf_def same_buf_def buf_ok_def)
  have w: "wp (bunpin b) Q s = Q () ?t" for Q using lk by (simp add: bunpin_def)
  have b: "b_data (bufs ?t b) = bview s d n" "b_refcnt (bufs ?t b) = brefs s d n - 1"
    "sl_locked (slocks ?t (BufLock b)) = bbusy s d n" "b_valid (bufs ?t b)" using f(5,7-10) by simp_all
  have "has_buf ?t b d n" by (rule has_buf_one_buf [OF inv one h]) (use r in simp_all)
  then show ?thesis unfolding w
    using one_buf_bstep [OF inv one _ b(4), of "\<lambda>k. k\<lparr>k_refs := upd2 (k_refs k) d n (k_refs k d n - 1)\<rparr>",
        unfolded b(1-3)]
    by (simp add: babs_def)
qed

text \<open>
  \<open>brelse\<close>: the last reference may only be given back once the buffer agrees with the disk.
\<close>

definition released :: "kstate \<Rightarrow> nat \<Rightarrow> kstate" where
  "released s b = (given_up (BufLock b) s)\<lparr>bufs := (bufs s)(b := (bufs s b)\<lparr>b_refcnt := b_refcnt (bufs s b) - 1\<rparr>)\<rparr>"

lemma released_simps [simp]:
  "disk (released s b) = disk s" "dtrace (released s b) = dtrace s" "cur (released s b) = cur s"
  "held (released s b) = held s"
  "bufs (released s b) = (bufs s)(b := (bufs s b)\<lparr>b_refcnt := b_refcnt (bufs s b) - 1\<rparr>)"
  "slocks (released s b) = (slocks s)(BufLock b := \<lparr>sl_locked = False, sl_pid = 0\<rparr>)"
  by (simp_all add: released_def given_up_def)

lemma bframe_given_up: "bframe s ((given_up (BufLock b) s)\<lparr>bufs := B\<rparr>)"
  unfolding bframe_def given_up_def
  by (intro exI [of _ "woken (ChanSleeplock (BufLock b)) {0..<NPROC} s"]
      exI [of _ "(slocks s)(BufLock b := \<lparr>sl_locked = False, sl_pid = 0\<rparr>)"] exI [of _ B] exI [of _ "disk s"]
      exI [of _ "dtrace s"])
    (cases s, auto simp: woken_def)

lemma wp_brelse_raw:
  assumes inv: "cache_inv s" and q: "quiet s" and h: "has_buf s b d n"
  shows "wp (brelse b) (\<lambda>_ t. \<exists>B xs. t = (released s b)\<lparr>bufs := B\<rparr> \<and>
    same_but_links (bufs (released s b)) B \<and> lru B xs) s"
proof -
  note f = has_buf_facts [OF inv h]
  obtain p where p: "cur s = Some p" "sl_pid (slocks s (BufLock b)) = p_pid (procs s p)" and hl: "held s = []"
    using h q by (auto simp: has_buf_def quiet_def)
  obtain xs where xs: "lru (bufs s) xs" using cache_inv_lru [OF inv] by blast
  have lru: "lru (bufs (released s b)) xs" by (rule lru_links [OF xs]) auto
  have "b \<in> set xs" using xs f(2) by (simp add: lru_def)
  then obtain ys zs where split: "xs = ys @ b # zs" by (meson split_list)
  let ?r = "(released s b)\<lparr>held := [BcacheLock]\<rparr>"
  have mv: "wp (move_to_front b) (\<lambda>_ t. \<exists>B xs. t = ?r\<lparr>bufs := B\<rparr> \<and>
      same_but_links (bufs (released s b)) B \<and> lru B xs) ?r"
    by (rule wp_mono [OF wp_move_to_front [of ?r ys b zs]]) (use lru split in \<open>auto simp del: released_simps\<close>)
  have n: "no_proc_locks s" using hl by (simp add: no_proc_locks_def)
  have g: "(given_up (BufLock b) s)\<lparr>held := [BcacheLock], bufs := (bufs s)(b := (bufs s b)\<lparr>b_refcnt := b_refcnt (bufs s b) - 1\<rparr>)\<rparr> = ?r"
    by (cases s) (simp add: released_def given_up_def)
  have eq: "wp (brelse b) Q s = (if b_refcnt (bufs s b) = 1
      then wp (move_to_front b) (\<lambda>_. wp (release BcacheLock) Q) ?r
      else Q () (released s b))" for Q
  proof -
    have h2: "held (given_up (BufLock b) s) = []" "bufs (given_up (BufLock b) s) = bufs s"
      using hl by (simp_all add: given_up_def)
    have "wp (brelse b) Q s = (if b_refcnt (bufs s b) = 1
        then wp (move_to_front b) (\<lambda>_. wp (release BcacheLock) Q) ?r
        else Q () (?r\<lparr>held := []\<rparr>))"
      using p hl f(10) by (simp add: brelse_def wp_holdingsleep wp_releasesleep [OF n] h2 g)
    moreover have "?r\<lparr>held := []\<rparr> = released s b" using hl by (simp add: released_def given_up_def)
    ultimately show ?thesis by simp
  qed
  show ?thesis
  proof (cases "b_refcnt (bufs s b) = 1")
    case True
    have "(released s b)\<lparr>held := [BcacheLock], bufs := B, held := []\<rparr> = (released s b)\<lparr>bufs := B\<rparr>" for B
      using hl by (simp add: released_def given_up_def)
    then show ?thesis unfolding eq using True by (auto intro!: wp_mono [OF mv]) blast
  next
    case False
    then show ?thesis unfolding eq using lru
      by (auto intro!: exI [of _ "bufs (released s b)"] simp del: released_simps)
  qed
qed

lemma brelse_spec:
  assumes inv: "cache_inv s" and q: "quiet s" and h: "has_buf s b d n"
    and clean: "k_refs (babs s) d n > 1 \<or> k_view (babs s) d n = k_disk (babs s) d n"
  shows "wp (brelse b) (\<lambda>_ t. keeps_bufs s t d n \<and>
    bstep s t (\<lambda>k. k\<lparr>k_refs := upd2 (k_refs k) d n (k_refs k d n - 1), k_busy := upd2 (k_busy k) d n False\<rparr>)) s"
proof (rule wp_mono [OF wp_brelse_raw [OF inv q h]])
  fix u t
  assume "\<exists>B xs. t = (released s b)\<lparr>bufs := B\<rparr> \<and> same_but_links (bufs (released s b)) B \<and> lru B xs"
  then obtain B xs where t: "t = (released s b)\<lparr>bufs := B\<rparr>" and same: "same_but_links (bufs (released s b)) B"
    and lru: "lru B xs" by blast
  note f = has_buf_facts [OF inv h]
  have Bi: "b_valid (B i) = b_valid (bufs s i) \<and> b_dev (B i) = b_dev (bufs s i) \<and>
      b_blockno (B i) = b_blockno (bufs s i) \<and> b_data (B i) = b_data (bufs s i) \<and>
      b_refcnt (B i) = (if i = b then b_refcnt (bufs s b) - 1 else b_refcnt (bufs s i))" for i
    using same by (auto simp: same_but_links_def)
  have cl: "b_refcnt (bufs s b) > 1 \<or> b_data (bufs s b) = disk s d n"
    using clean f(7,8) by (auto simp: babs_def)
  have one: "one_buf s t b d n"
    using f lru inv cl Bi cache_invD(2) [OF inv f(2)]
    by (auto simp: one_buf_def same_buf_def buf_ok_def t)
  have fr: "bframe s t" unfolding t released_def using bframe_given_up [where s = s and b = b and B = B] by simp
  have b: "b_data (bufs t b) = bview s d n" "b_refcnt (bufs t b) = brefs s d n - 1"
    "sl_locked (slocks t (BufLock b)) = False" "b_valid (bufs t b)" using f(5,7,8) Bi by (simp_all add: t)
  show "keeps_bufs s t d n \<and>
    bstep s t (\<lambda>k. k\<lparr>k_refs := upd2 (k_refs k) d n (k_refs k d n - 1), k_busy := upd2 (k_busy k) d n False\<rparr>)"
    using one_buf_bstep [OF inv one fr b(4), of "\<lambda>k. k\<lparr>k_refs := upd2 (k_refs k) d n (k_refs k d n - 1),
          k_busy := upd2 (k_busy k) d n False\<rparr>", unfolded b(1-3)]
    by (simp add: babs_def t)
qed

lemma cache_clean:
  assumes "cache_inv s" and "k_refs (babs s) d n = 0"
  shows "k_view (babs s) d n = k_disk (babs s) d n"
proof (cases "buf_of s d n")
  case None
  then show ?thesis by (simp add: babs_def bview_def)
next
  case (Some i)
  then have "i < NBUF" "b_dev (bufs s i) = d" "b_blockno (bufs s i) = n"
    using buf_of_Some [OF assms(1)] by auto
  then show ?thesis using Some assms(2) cache_invD(4) [OF assms(1), of i]
    by (simp add: babs_def bview_def brefs_def)
qed

section \<open>The contract\<close>

text \<open>
  What the log and the file system rely on. A block is checked out by \<open>rd\<close>, changed by \<open>put\<close>,
  written by \<open>wr\<close> and given back by \<open>rl\<close>; the lemmas of the locale compose these into the
  accesses that the clients perform.
\<close>

locale block_cache =
  fixes rd :: "nat \<Rightarrow> nat \<Rightarrow> (nat, 's) stmt"
    and wr :: "nat \<Rightarrow> (unit, 's) stmt"
    and rl :: "nat \<Rightarrow> (unit, 's) stmt"
    and unpin :: "nat \<Rightarrow> (unit, 's) stmt"
    and put :: "nat \<Rightarrow> u8 list \<Rightarrow> (unit, 's) stmt"
    and dat :: "'s \<Rightarrow> nat \<Rightarrow> u8 list"
    and abs :: "'s \<Rightarrow> blocks"
    and inv :: "'s \<Rightarrow> bool"
    and idle :: "'s \<Rightarrow> bool"
    and has :: "'s \<Rightarrow> nat \<Rightarrow> nat \<Rightarrow> nat \<Rightarrow> bool"
    and keeps :: "'s \<Rightarrow> 's \<Rightarrow> nat \<Rightarrow> nat \<Rightarrow> bool"
    and frame :: "'s \<Rightarrow> 's \<Rightarrow> bool"
  assumes rd_spec: "\<lbrakk>inv s; idle s; d \<noteq> 0; \<not> k_busy (abs s) d n; has_room (abs s) d n\<rbrakk> \<Longrightarrow>
      wp (rd d n) (\<lambda>b t. has t b d n \<and> keeps s t d n \<and> inv t \<and> frame s t \<and>
        abs t = (abs s)\<lparr>k_refs := upd2 (k_refs (abs s)) d n (k_refs (abs s) d n + 1),
                        k_busy := upd2 (k_busy (abs s)) d n True\<rparr>) s"
    and wr_spec: "\<lbrakk>inv s; idle s; has s b d n\<rbrakk> \<Longrightarrow>
      wp (wr b) (\<lambda>_ t. has t b d n \<and> keeps s t d n \<and> inv t \<and> frame s t \<and>
        abs t = (abs s)\<lparr>k_disk := upd2 (k_disk (abs s)) d n (k_view (abs s) d n),
                        k_trace := k_trace (abs s) @ [(d, n, k_view (abs s) d n)]\<rparr>) s"
    and put_spec: "\<lbrakk>inv s; has s b d n; length x = BSIZE\<rbrakk> \<Longrightarrow>
      wp (put b x) (\<lambda>_ t. has t b d n \<and> keeps s t d n \<and> inv t \<and> frame s t \<and>
        abs t = (abs s)\<lparr>k_view := upd2 (k_view (abs s)) d n x\<rparr>) s"
    and unpin_spec: "\<lbrakk>inv s; idle s; has s b d n; k_refs (abs s) d n > 1\<rbrakk> \<Longrightarrow>
      wp (unpin b) (\<lambda>_ t. has t b d n \<and> keeps s t d n \<and> inv t \<and> frame s t \<and>
        abs t = (abs s)\<lparr>k_refs := upd2 (k_refs (abs s)) d n (k_refs (abs s) d n - 1)\<rparr>) s"
    and rl_spec: "\<lbrakk>inv s; idle s; has s b d n;
        k_refs (abs s) d n > 1 \<or> k_view (abs s) d n = k_disk (abs s) d n\<rbrakk> \<Longrightarrow>
      wp (rl b) (\<lambda>_ t. keeps s t d n \<and> inv t \<and> frame s t \<and>
        abs t = (abs s)\<lparr>k_refs := upd2 (k_refs (abs s)) d n (k_refs (abs s) d n - 1),
                        k_busy := upd2 (k_busy (abs s)) d n False\<rparr>) s"
    and dat_spec: "\<lbrakk>inv s; has s b d n\<rbrakk> \<Longrightarrow> dat s b = k_view (abs s) d n"
    and keepsD: "\<lbrakk>keeps s t d n; d' \<noteq> d \<or> n' \<noteq> n; has s b' d' n'\<rbrakk> \<Longrightarrow> has t b' d' n'"
    and clean: "\<lbrakk>inv s; k_refs (abs s) d n = 0\<rbrakk> \<Longrightarrow> k_view (abs s) d n = k_disk (abs s) d n"
    and refs_nonneg: "inv s \<Longrightarrow> k_refs (abs s) d n \<ge> 0"
    and view_length: "inv s \<Longrightarrow> length (k_view (abs s) d n) = BSIZE"
    and refd_finite: "inv s \<Longrightarrow> finite (refd (abs s))"
    and frame_trans: "frame s t \<Longrightarrow> frame t u \<Longrightarrow> frame s u"
    and frame_idle: "frame s t \<Longrightarrow> idle s \<Longrightarrow> idle t"
begin

lemma room_after_rd:
  assumes "inv s" and "card (refd (abs s)) + 2 \<le> NBUF"
    and "k_refs k = upd2 (k_refs (abs s)) d n r"
  shows "has_room k d' n'"
proof -
  have "refd k \<subseteq> insert (d, n) (refd (abs s))"
    by (auto simp: refd_def assms(3) upd2_apply split: if_splits)
  then have "card (refd k) \<le> card (insert (d, n) (refd (abs s)))"
    using refd_finite [OF assms(1)] by (intro card_mono) auto
  also have "\<dots> \<le> Suc (card (refd (abs s)))" using refd_finite [OF assms(1)] by (simp add: card_insert_if)
  finally show ?thesis using assms(2) by (simp add: has_room_def)
qed

text \<open>Reading a block: nothing changes.\<close>

lemma read_block:
  assumes s: "inv s" "idle s" "d \<noteq> 0" "\<not> k_busy (abs s) d n" "has_room (abs s) d n"
  shows "wp (bindK (rd d n) (\<lambda>b. bindK (getsK (\<lambda>s. dat s b)) (\<lambda>x. thenK (rl b) (returnK (f x)))))
    (\<lambda>r t. r = f (k_view (abs s) d n) \<and> inv t \<and> frame s t \<and> abs t = abs s) s"
proof -
  have "wp (thenK (rl b) (returnK (f (dat t b))))
      (\<lambda>r u. r = f (k_view (abs s) d n) \<and> inv u \<and> frame s u \<and> abs u = abs s) t"
    if t: "has t b d n" "inv t" "frame s t"
      "abs t = (abs s)\<lparr>k_refs := upd2 (k_refs (abs s)) d n (k_refs (abs s) d n + 1),
                        k_busy := upd2 (k_busy (abs s)) d n True\<rparr>" for b t
  proof -
    have "k_refs (abs t) d n > 1 \<or> k_view (abs t) d n = k_disk (abs t) d n"
      using clean [OF s(1), of d n] refs_nonneg [OF s(1), of d n]
      by (cases "k_refs (abs s) d n = 0") (auto simp: t(4) less_le)
    moreover have "upd2 (k_busy (abs s)) d n False = k_busy (abs s)"
      using s(4) upd2_id [of "k_busy (abs s)" d n] by simp
    ultimately show ?thesis
      using rl_spec [OF t(2) frame_idle [OF t(3) s(2)] t(1)] dat_spec [OF t(2,1)]
      by (auto simp: t(4) elim!: wp_mono intro: frame_trans [OF t(3)])
  qed
  then show ?thesis using rd_spec [OF s] by (auto elim!: wp_mono)
qed

text \<open>Writing a block through to the disk, as a function of its old content.\<close>

lemma write_through:
  assumes s: "inv s" "idle s" "d \<noteq> 0" "\<not> k_busy (abs s) d n" "has_room (abs s) d n"
    and f: "\<And>x. length x = BSIZE \<Longrightarrow> length (f x) = BSIZE"
  shows "wp (bindK (rd d n) (\<lambda>b. blockK [bindK (getsK (\<lambda>s. dat s b)) (\<lambda>x. put b (f x)), wr b, rl b]))
    (\<lambda>_ t. inv t \<and> frame s t \<and> (let x = f (k_view (abs s) d n) in
       abs t = (abs s)\<lparr>k_view := upd2 (k_view (abs s)) d n x, k_disk := upd2 (k_disk (abs s)) d n x,
                       k_trace := k_trace (abs s) @ [(d, n, x)]\<rparr>)) s"
proof -
  let ?x = "f (k_view (abs s) d n)"
  have len: "length ?x = BSIZE" using f view_length [OF s(1)] by blast
  have nb: "upd2 (k_busy (abs s)) d n False = k_busy (abs s)"
    using s(4) upd2_id [of "k_busy (abs s)" d n] by simp
  let ?k1 = "(abs s)\<lparr>k_refs := upd2 (k_refs (abs s)) d n (k_refs (abs s) d n + 1),
                        k_busy := upd2 (k_busy (abs s)) d n True\<rparr>"
  let ?k2 = "?k1\<lparr>k_view := upd2 (k_view (abs s)) d n ?x\<rparr>"
  let ?k3 = "?k2\<lparr>k_disk := upd2 (k_disk (abs s)) d n ?x, k_trace := k_trace (abs s) @ [(d, n, ?x)]\<rparr>"
  let ?P = "\<lambda>k b t. has t b d n \<and> inv t \<and> frame s t \<and> abs t = k"
  have 1: "wp (put b (f (dat t b))) (\<lambda>_. ?P ?k2 b) t" if "?P ?k1 b t" for b t
  proof -
    have eq: "dat t b = k_view (abs s) d n" using dat_spec that by auto
    show ?thesis unfolding eq
      by (rule wp_mono [OF put_spec]) (use that len in \<open>auto intro: frame_trans\<close>)
  qed
  have 2: "wp (wr b) (\<lambda>_. ?P ?k3 b) t" if "?P ?k2 b t" for b t
    by (rule wp_mono [OF wr_spec]) (use that s(2) in \<open>auto intro: frame_trans frame_idle\<close>)
  have 3: "wp (rl b) (\<lambda>_ u. inv u \<and> frame s u \<and> abs u = (abs s)\<lparr>k_view := upd2 (k_view (abs s)) d n ?x,
       k_disk := upd2 (k_disk (abs s)) d n ?x, k_trace := k_trace (abs s) @ [(d, n, ?x)]\<rparr>) t" if "?P ?k3 b t" for b t
    by (rule wp_mono [OF rl_spec]) (use that s(2) nb in \<open>auto intro: frame_trans frame_idle\<close>)
  have "wp (blockK [bindK (getsK (\<lambda>s. dat s b)) (\<lambda>x. put b (f x)), wr b, rl b])
     (\<lambda>_ u. inv u \<and> frame s u \<and> abs u = (abs s)\<lparr>k_view := upd2 (k_view (abs s)) d n ?x,
       k_disk := upd2 (k_disk (abs s)) d n ?x, k_trace := k_trace (abs s) @ [(d, n, ?x)]\<rparr>) t" if "?P ?k1 b t" for b t
    using 1 [OF that] by (auto elim!: wp_mono dest!: 2 3)
  then show ?thesis using rd_spec [OF s] by (auto simp: Let_def elim!: wp_mono)
qed

end

context block_cache
begin

text \<open>Two blocks of one device checked out, in this order.\<close>

lemma read_two:
  assumes s: "inv s" "idle s" "d \<noteq> 0" "\<not> k_busy (abs s) d a" "\<not> k_busy (abs s) d b" "a \<noteq> b"
    and room: "card (refd (abs s)) + 2 \<le> NBUF"
    and k: "\<And>x y t. has t x d a \<Longrightarrow> has t y d b \<Longrightarrow> inv t \<Longrightarrow> frame s t \<Longrightarrow>
      abs t = (abs s)\<lparr>k_refs := upd2 (upd2 (k_refs (abs s)) d a (k_refs (abs s) d a + 1)) d b (k_refs (abs s) d b + 1),
                      k_busy := upd2 (upd2 (k_busy (abs s)) d a True) d b True\<rparr>
      \<Longrightarrow> wp (m x y) Q t"
  shows "wp (bindK (rd d a) (\<lambda>x. bindK (rd d b) (m x))) Q s"
proof -
  have "wp (bindK (rd d b) (m x)) Q t"
    if t: "has t x d a" "inv t" "frame s t"
      "abs t = (abs s)\<lparr>k_refs := upd2 (k_refs (abs s)) d a (k_refs (abs s) d a + 1),
                        k_busy := upd2 (k_busy (abs s)) d a True\<rparr>" for x t
  proof -
    have "has_room (abs t) d b" by (rule room_after_rd [OF s(1) room]) (simp add: t(4))
    moreover have "\<not> k_busy (abs t) d b" using s(5,6) by (simp add: t(4) upd2_apply)
    ultimately have "wp (rd d b) (\<lambda>y u. has u y d b \<and> keeps t u d b \<and> inv u \<and> frame t u \<and>
        abs u = (abs t)\<lparr>k_refs := upd2 (k_refs (abs t)) d b (k_refs (abs t) d b + 1),
                        k_busy := upd2 (k_busy (abs t)) d b True\<rparr>) t"
      using rd_spec [OF t(2) frame_idle [OF t(3) s(2)] s(3)] by blast
    then show ?thesis unfolding wp_bind
    proof (rule wp_mono)
      fix y u
      assume "has u y d b \<and> keeps t u d b \<and> inv u \<and> frame t u \<and>
        abs u = (abs t)\<lparr>k_refs := upd2 (k_refs (abs t)) d b (k_refs (abs t) d b + 1),
                        k_busy := upd2 (k_busy (abs t)) d b True\<rparr>"
      then show "wp (m x y) Q u"
        using s(6) t keepsD [of t u d b d a x] by (intro k) (auto simp: upd2_apply intro: frame_trans)
    qed
  qed
  moreover have "has_room (abs s) d a" using room by (simp add: has_room_def)
  ultimately show ?thesis using rd_spec [OF s(1-4)] unfolding wp_bind by (auto elim!: wp_mono)
qed

lemma release_clean:
  assumes "inv s" "idle s" "has t x d n" "inv t" "frame s t" "k_refs (abs t) d n = k_refs (abs s) d n + 1"
    and "k_view (abs t) d n = k_view (abs s) d n" "k_disk (abs t) d n = k_disk (abs s) d n"
  shows "wp (rl x) (\<lambda>_ u. keeps t u d n \<and> inv u \<and> frame s u \<and>
      abs u = (abs t)\<lparr>k_refs := upd2 (k_refs (abs t)) d n (k_refs (abs s) d n),
                      k_busy := upd2 (k_busy (abs t)) d n False\<rparr>) t"
proof -
  have "k_refs (abs t) d n > 1 \<or> k_view (abs t) d n = k_disk (abs t) d n"
    using clean [OF assms(1), of d n] refs_nonneg [OF assms(1), of d n] assms(6-8)
    by (cases "k_refs (abs s) d n = 0") (auto simp: less_le)
  from rl_spec [OF assms(4) frame_idle [OF assms(5,2)] assms(3) this] show ?thesis
    by (rule wp_mono) (use assms(5,6) in \<open>auto intro: frame_trans\<close>)
qed

lemma upd2_restore:
  "a \<noteq> b \<Longrightarrow> upd2 (upd2 f d a v) d b (f d b) = upd2 f d a v"
  "a \<noteq> b \<Longrightarrow> upd2 (upd2 (upd2 f d a v) d b w) d a (f d a) = upd2 f d b w"
  by (auto simp: upd2_def fun_eq_iff)

lemma upd2_False: "\<not> g d a \<Longrightarrow> upd2 g d a False = g"
  by (auto simp: upd2_def fun_eq_iff)

text \<open>\<open>write_log\<close>: copy block \<open>b\<close> into block \<open>a\<close> and write \<open>a\<close>.\<close>

lemma copy_to_log:
  assumes s: "inv s" "idle s" "d \<noteq> 0" "\<not> k_busy (abs s) d a" "\<not> k_busy (abs s) d b" "a \<noteq> b"
    and room: "card (refd (abs s)) + 2 \<le> NBUF"
  shows "wp (bindK (rd d a) (\<lambda>to. bindK (rd d b) (\<lambda>from. blockK [
      bindK (getsK (\<lambda>s. dat s from)) (put to), wr to, rl from, rl to])))
    (\<lambda>_ t. inv t \<and> frame s t \<and> abs t = (abs s)\<lparr>k_view := upd2 (k_view (abs s)) d a (k_view (abs s) d b),
       k_disk := upd2 (k_disk (abs s)) d a (k_view (abs s) d b),
       k_trace := k_trace (abs s) @ [(d, a, k_view (abs s) d b)]\<rparr>) s"
proof (rule read_two [OF s room])
  fix x y t
  let ?v = "k_view (abs s) d b"
  let ?k1 = "(abs s)\<lparr>k_refs := upd2 (upd2 (k_refs (abs s)) d a (k_refs (abs s) d a + 1)) d b (k_refs (abs s) d b + 1),
                      k_busy := upd2 (upd2 (k_busy (abs s)) d a True) d b True\<rparr>"
  assume t: "has t x d a" "has t y d b" "inv t" "frame s t" "abs t = ?k1"
  let ?k2 = "?k1\<lparr>k_view := upd2 (k_view (abs s)) d a ?v\<rparr>"
  let ?k3 = "?k2\<lparr>k_disk := upd2 (k_disk (abs s)) d a ?v, k_trace := k_trace (abs s) @ [(d, a, ?v)]\<rparr>"
  let ?k4 = "?k3\<lparr>k_refs := upd2 (k_refs (abs s)) d a (k_refs (abs s) d a + 1), k_busy := upd2 (k_busy (abs s)) d a True\<rparr>"
  let ?P = "\<lambda>k u. has u x d a \<and> has u y d b \<and> inv u \<and> frame s u \<and> abs u = k"
  have busy: "k_busy (abs s) d a = False" "k_busy (abs s) d b = False" using s(4,5) by auto
  note restore = upd2_restore(1,2) [of a b "k_busy (abs s)" d, unfolded busy]
    upd2_restore(1,2) [of a b "k_refs (abs s)" d]
    upd2_False
  have ne: "b \<noteq> a" using s(6) by simp
  have "dat t y = ?v" using dat_spec [OF t(3,2)] by (simp add: t(5))
  then have 1: "wp (bindK (getsK (\<lambda>s. dat s y)) (put x)) (\<lambda>_. ?P ?k2) t"
    using put_spec [OF t(3,1), of ?v] view_length [OF s(1)] t ne
    by (auto elim!: wp_mono intro: frame_trans keepsD)
  have 2: "wp (wr x) (\<lambda>_. ?P ?k3) u" if "?P ?k2 u" for u
    by (rule wp_mono [OF wr_spec]) (use that s(2) ne in \<open>auto intro: frame_trans frame_idle keepsD\<close>)
  have 3: "wp (rl y) (\<lambda>_ u. has u x d a \<and> inv u \<and> frame s u \<and> abs u = ?k4) u" if "?P ?k3 u" for u
    by (rule wp_mono [OF release_clean [OF s(1,2)]])
      (use that s(6) ne in \<open>auto simp: restore intro: keepsD\<close>)
  have 4: "wp (rl x) (\<lambda>_ u. inv u \<and> frame s u \<and> abs u = (abs s)\<lparr>k_view := upd2 (k_view (abs s)) d a ?v,
       k_disk := upd2 (k_disk (abs s)) d a ?v, k_trace := k_trace (abs s) @ [(d, a, ?v)]\<rparr>) u"
    if "has u x d a \<and> inv u \<and> frame s u \<and> abs u = ?k4" for u
    by (rule wp_mono [OF rl_spec]) (use that s(2) busy in \<open>auto simp: restore intro: frame_trans frame_idle\<close>)
  show "wp (blockK [bindK (getsK (\<lambda>s. dat s y)) (put x), wr x, rl y, rl x])
    (\<lambda>_ t. inv t \<and> frame s t \<and> abs t = (abs s)\<lparr>k_view := upd2 (k_view (abs s)) d a ?v,
       k_disk := upd2 (k_disk (abs s)) d a ?v, k_trace := k_trace (abs s) @ [(d, a, ?v)]\<rparr>) t"
    unfolding wp_block_Cons wp_block_Nil
    by (rule wp_mono [OF 1], rule wp_mono [OF 2], assumption, rule wp_mono [OF 3], assumption,
        rule wp_mono [OF 4], assumption, assumption)
qed

text \<open>\<open>install_trans\<close>: copy block \<open>a\<close> into block \<open>b\<close>, write \<open>b\<close>, drop a pin of \<open>b\<close> if asked.\<close>

lemma copy_home:
  assumes s: "inv s" "idle s" "d \<noteq> 0" "\<not> k_busy (abs s) d a" "\<not> k_busy (abs s) d b" "a \<noteq> b"
    and room: "card (refd (abs s)) + 2 \<le> NBUF"
    and pin: "un \<Longrightarrow> k_refs (abs s) d b > 0"
  shows "wp (bindK (rd d a) (\<lambda>lbuf. bindK (rd d b) (\<lambda>dbuf. blockK [
      bindK (getsK (\<lambda>s. dat s lbuf)) (put dbuf), wr dbuf, whenK un (unpin dbuf), rl lbuf, rl dbuf])))
    (\<lambda>_ t. inv t \<and> frame s t \<and> abs t = (abs s)\<lparr>k_view := upd2 (k_view (abs s)) d b (k_view (abs s) d a),
       k_refs := upd2 (k_refs (abs s)) d b (k_refs (abs s) d b - (if un then 1 else 0)),
       k_disk := upd2 (k_disk (abs s)) d b (k_view (abs s) d a),
       k_trace := k_trace (abs s) @ [(d, b, k_view (abs s) d a)]\<rparr>) s"
proof (rule read_two [OF s room])
  fix x y t
  let ?v = "k_view (abs s) d a"
  let ?r = "k_refs (abs s) d b - (if un then 1 else 0)"
  let ?k1 = "(abs s)\<lparr>k_refs := upd2 (upd2 (k_refs (abs s)) d a (k_refs (abs s) d a + 1)) d b (k_refs (abs s) d b + 1),
                      k_busy := upd2 (upd2 (k_busy (abs s)) d a True) d b True\<rparr>"
  assume t: "has t x d a" "has t y d b" "inv t" "frame s t" "abs t = ?k1"
  let ?k2 = "?k1\<lparr>k_view := upd2 (k_view (abs s)) d b ?v\<rparr>"
  let ?k3 = "?k2\<lparr>k_disk := upd2 (k_disk (abs s)) d b ?v, k_trace := k_trace (abs s) @ [(d, b, ?v)]\<rparr>"
  let ?k4 = "?k3\<lparr>k_refs := upd2 (upd2 (k_refs (abs s)) d a (k_refs (abs s) d a + 1)) d b (?r + 1)\<rparr>"
  let ?k5 = "?k4\<lparr>k_refs := upd2 (k_refs (abs s)) d b (?r + 1), k_busy := upd2 (k_busy (abs s)) d b True\<rparr>"
  let ?P = "\<lambda>k u. has u x d a \<and> has u y d b \<and> inv u \<and> frame s u \<and> abs u = k"
  have busy: "k_busy (abs s) d a = False" "k_busy (abs s) d b = False" using s(4,5) by auto
  note restore = upd2_restore(1,2) [of a b "k_busy (abs s)" d, unfolded busy]
    upd2_restore(1,2) [of a b "k_refs (abs s)" d]
    upd2_False
  have ne: "b \<noteq> a" using s(6) by simp
  have "dat t x = ?v" using dat_spec [OF t(3,1)] by (simp add: t(5))
  then have 1: "wp (bindK (getsK (\<lambda>s. dat s x)) (put y)) (\<lambda>_. ?P ?k2) t"
    using put_spec [OF t(3,2), of ?v] view_length [OF s(1)] t s(6)
    by (auto elim!: wp_mono intro: frame_trans keepsD)
  have 2: "wp (wr y) (\<lambda>_. ?P ?k3) u" if "?P ?k2 u" for u
    by (rule wp_mono [OF wr_spec]) (use that s(2,6) in \<open>auto intro: frame_trans frame_idle keepsD\<close>)
  have 3: "wp (whenK un (unpin y)) (\<lambda>_. ?P ?k4) u" if "?P ?k3 u" for u
  proof (cases un)
    case True
    then show ?thesis
      using wp_mono [OF unpin_spec [of u y d b], of "\<lambda>_. ?P ?k4"] that s(2,6) pin
      by (auto intro: frame_trans frame_idle keepsD)
  qed (use that in auto)
  have 4: "wp (rl x) (\<lambda>_ u. has u y d b \<and> inv u \<and> frame s u \<and> abs u = ?k5) u" if "?P ?k4 u" for u
    by (rule wp_mono [OF release_clean [OF s(1,2)]])
      (use that s(6) ne in \<open>auto simp: restore intro: keepsD\<close>)
  have 5: "wp (rl y) (\<lambda>_ u. inv u \<and> frame s u \<and> abs u = (abs s)\<lparr>k_view := upd2 (k_view (abs s)) d b ?v,
       k_refs := upd2 (k_refs (abs s)) d b ?r,
       k_disk := upd2 (k_disk (abs s)) d b ?v, k_trace := k_trace (abs s) @ [(d, b, ?v)]\<rparr>) u"
    if "has u y d b \<and> inv u \<and> frame s u \<and> abs u = ?k5" for u
    by (rule wp_mono [OF rl_spec]) (use that s(2) busy in \<open>auto simp: restore intro: frame_trans frame_idle\<close>)
  show "wp (blockK [bindK (getsK (\<lambda>s. dat s x)) (put y), wr y, whenK un (unpin y), rl x, rl y])
    (\<lambda>_ t. inv t \<and> frame s t \<and> abs t = (abs s)\<lparr>k_view := upd2 (k_view (abs s)) d b ?v,
       k_refs := upd2 (k_refs (abs s)) d b ?r,
       k_disk := upd2 (k_disk (abs s)) d b ?v, k_trace := k_trace (abs s) @ [(d, b, ?v)]\<rparr>) t"
    unfolding wp_block_Cons wp_block_Nil
    by (rule wp_mono [OF 1], rule wp_mono [OF 2], assumption, rule wp_mono [OF 3], assumption,
        rule wp_mono [OF 4], assumption, rule wp_mono [OF 5], assumption, assumption)
qed

end

interpretation bc: block_cache bread bwrite brelse bunpin put_data "\<lambda>s b. b_data (bufs s b)" babs
  cache_inv quiet has_buf keeps_bufs bframe
proof (unfold_locales, goal_cases)
  case (1 s d n)
  then show ?case using bread_spec [of s d n] by (simp add: bstep_def conj_assoc)
next
  case (2 s b d n)
  then show ?case using bwrite_spec [of s b d n] by (simp add: bstep_def conj_assoc)
next
  case (3 s b d n x)
  then show ?case using put_data_spec [of s b d n x] by (simp add: bstep_def conj_assoc)
next
  case (4 s b d n)
  then show ?case using bunpin_spec [of s b d n] by (simp add: bstep_def conj_assoc quiet_def)
next
  case (5 s b d n)
  then show ?case using brelse_spec [of s b d n] by (simp add: bstep_def conj_assoc)
next
  case (6 s b d n)
  then show ?case by (simp add: babs_def has_buf_facts)
next
  case (7 s t d n d' n' b')
  then show ?case by (simp add: keeps_bufs_def)
qed (auto simp: cache_clean brefs_nonneg intro: bframe_trans bframe_quiet, simp_all add: babs_def brefs_nonneg)

lemma wp_binit_cache:
  assumes "\<And>i. bufs s i = zero_buf" and "\<And>d n. length (disk s d n) = BSIZE"
  shows "wp binit (\<lambda>_ t. cache_inv t \<and> lru (bufs t) (rev [0..<NBUF]) \<and> cur t = cur s \<and> held t = held s \<and>
    babs t = \<lparr>k_view = disk s, k_refs = (\<lambda>_ _. 0), k_busy = (\<lambda>_ _. False), k_disk = disk s, k_trace = dtrace s\<rparr>) s"
proof (rule wp_mono [OF wp_binit])
  fix u t
  assume *: "lru (bufs t) (rev [0..<NBUF]) \<and> same_but_links (bufs s) (bufs t) \<and>
     t = s\<lparr>bufs := bufs t, slocks := slocks t\<rparr> \<and> (\<forall>i<NBUF. slocks t (BufLock i) = \<lparr>sl_locked = False, sl_pid = 0\<rparr>)"
  then obtain B L where t: "t = s\<lparr>bufs := B, slocks := L\<rparr>" by blast
  from * have lru: "lru B (rev [0..<NBUF])"
    and same: "same_but_links (bufs s) B" and L: "\<And>i. i < NBUF \<Longrightarrow> \<not> sl_locked (L (BufLock i))"
    unfolding t by simp_all
  have B: "b_refcnt (B i) = 0 \<and> \<not> b_valid (B i) \<and> b_dev (B i) = 0 \<and> length (b_data (B i)) = BSIZE" for i
    using same assms(1) by (simp add: same_but_links_def zero_buf_def)
  have bo: "buf_of t d n = None" for d n using B by (auto simp: buf_of_None t)
  have "buf_ok t i" if "i < NBUF" for i using B [of i] L [OF that] by (simp add: buf_ok_def t)
  moreover have "bufs_distinct t" using B by (simp add: bufs_distinct_def t)
  ultimately have "cache_inv t" unfolding cache_inv_def using lru assms(2) t by auto
  moreover have "babs t = \<lparr>k_view = disk s, k_refs = (\<lambda>_ _. 0), k_busy = (\<lambda>_ _. False), k_disk = disk s, k_trace = dtrace s\<rparr>"
    by (simp add: babs_def fun_eq_iff bview_def brefs_def bbusy_def bo) (simp add: t)
  ultimately show "cache_inv t \<and> lru (bufs t) (rev [0..<NBUF]) \<and> cur t = cur s \<and> held t = held s \<and>
    babs t = \<lparr>k_view = disk s, k_refs = (\<lambda>_ _. 0), k_busy = (\<lambda>_ _. False), k_disk = disk s, k_trace = dtrace s\<rparr>"
    using lru by (simp add: t)
qed

lemma booted_cache:
  "\<exists>s. cache_inv s \<and> quiet s \<and> cur s = Some 0 \<and> lru (bufs s) (rev [0..<NBUF]) \<and> babs s = \<lparr>k_view = (\<lambda>_ _. replicate BSIZE 0), k_refs = (\<lambda>_ _. 0),
     k_busy = (\<lambda>_ _. False), k_disk = (\<lambda>_ _. replicate BSIZE 0), k_trace = []\<rparr>"
proof -
  let ?s = "zero_kstate\<lparr>cur := Some 0\<rparr>"
  have "wp binit (\<lambda>_ t. cache_inv t \<and> lru (bufs t) (rev [0..<NBUF]) \<and> cur t = cur ?s \<and> held t = held ?s \<and>
    babs t = \<lparr>k_view = disk ?s, k_refs = (\<lambda>_ _. 0), k_busy = (\<lambda>_ _. False), k_disk = disk ?s, k_trace = dtrace ?s\<rparr>) ?s"
    by (rule wp_binit_cache) (simp_all add: zero_kstate_def)
  then show ?thesis by (elim wpE) (auto simp: quiet_def zero_kstate_def)
qed

section \<open>Properties\<close>

text \<open>
  C25. \<open>binit\<close> on zeroed storage builds a well-formed cache: the list contains every buffer once,
  in both directions, no block is referenced or locked, and every block reads as on the disk.
\<close>

theorem binit_establishes_cache:
  assumes "\<And>i. bufs s i = zero_buf" and "\<And>d n. length (disk s d n) = BSIZE"
  shows "wp binit (\<lambda>_ t. cache_inv t \<and> lru (bufs t) (rev [0..<NBUF]) \<and> cur t = cur s \<and> held t = held s \<and>
    babs t = \<lparr>k_view = disk s, k_refs = (\<lambda>_ _. 0), k_busy = (\<lambda>_ _. False), k_disk = disk s, k_trace = dtrace s\<rparr>) s"
  by (rule wp_binit_cache [OF assms])

theorem binit_establishes_cache_witness:
  "wp binit (\<lambda>_ t. cache_inv t \<and> lru (bufs t) (rev [0..<NBUF]) \<and> cur t = cur zero_kstate \<and> held t = held zero_kstate \<and>
    babs t = \<lparr>k_view = disk zero_kstate, k_refs = (\<lambda>_ _. 0), k_busy = (\<lambda>_ _. False), k_disk = disk zero_kstate,
      k_trace = dtrace zero_kstate\<rparr>) zero_kstate"
  by (rule binit_establishes_cache) (simp_all add: zero_kstate_def)

text \<open>
  C8. \<open>bread\<close> of a block that no thread has locked, while a buffer is cached for it or can be
  recycled, returns a locked and referenced buffer that holds the current content of the block:
  the cached copy if there is one, even if it is newer than the disk, else the block as it is
  on the disk. No other block's content, reference count or lock changes, every buffer already
  checked out stays so, and the cache stays well formed.
\<close>

theorem bread_current_content:
  assumes "cache_inv s" and "quiet s" and "d \<noteq> 0" and "\<not> bbusy s d n" and "has_room (babs s) d n"
  shows "wp (bread d n) (\<lambda>b t. has_buf t b d n \<and> b_data (bufs t b) = bview s d n \<and> cache_inv t \<and>
    bview t = bview s \<and> disk t = disk s \<and> dtrace t = dtrace s \<and>
    brefs t = upd2 (brefs s) d n (brefs s d n + 1) \<and> bbusy t = upd2 (bbusy s) d n True \<and>
    (\<forall>b' d' n'. has_buf s b' d' n' \<longrightarrow> has_buf t b' d' n')) s"
  by (rule wp_mono [OF wp_bread [OF assms(1-4) has_room_broom [OF assms(1,5)]]])
    (auto dest: has_buf_facts(7))

theorem bread_current_content_witness:
  "\<exists>s. cache_inv s \<and> wp (bread 1 7) (\<lambda>b t. has_buf t b 1 7 \<and> b_data (bufs t b) = replicate BSIZE 0) s"
proof -
  obtain s where s: "cache_inv s" "quiet s" and k: "babs s = \<lparr>k_view = (\<lambda>_ _. replicate BSIZE 0), k_refs = (\<lambda>_ _. 0),
     k_busy = (\<lambda>_ _. False), k_disk = (\<lambda>_ _. replicate BSIZE 0), k_trace = []\<rparr>"
    using booted_cache by blast
  then have "\<not> bbusy s 1 7" "bview s 1 7 = replicate BSIZE 0" by (simp_all add: babs_def fun_eq_iff)
  moreover have "has_room (babs s) 1 7" by (simp add: has_room_def k refd_def NBUF_def MAXOPBLOCKS_def)
  ultimately have "wp (bread 1 7) (\<lambda>b t. has_buf t b 1 7 \<and> b_data (bufs t b) = replicate BSIZE 0) s"
    using bread_current_content [OF s, of 1 7] by (auto elim!: wp_mono)
  with s show ?thesis by blast
qed

text \<open>
  C26. Running out of buffers: if every buffer is referenced and the block is not cached, \<open>bget\<close>
  panics with its message.
\<close>

theorem bget_no_buffers:
  assumes "lru (bufs s) xs" and "held s = []"
    and "\<And>i. i < NBUF \<Longrightarrow> b_refcnt (bufs s i) \<noteq> 0 \<and> \<not> (b_dev (bufs s i) = d \<and> b_blockno (bufs s i) = n)"
  shows "bread d n s = Panic ''bget: no buffers''"
proof -
  let ?s1 = "s\<lparr>held := [BcacheLock]\<rparr>"
  have len: "length xs = NBUF" "NBUF \<notin> set xs" and set: "set xs = {..<NBUF}"
    and ch: "chain (nexts (bufs s)) NBUF xs NBUF" "chain (prevs (bufs s)) NBUF (rev xs) NBUF"
    using lru_length [OF assms(1)] assms(1) by (auto simp: lru_def ring_def)
  have "find (\<lambda>i. b_dev (bufs s i) = d \<and> b_blockno (bufs s i) = n) xs = None"
    using assms(3) set by (auto simp: find_None_iff)
  then have "wp (bget_cached (Suc NBUF) (b_next (bufs s NBUF)) d n) (\<lambda>r t. r = None \<and> t = ?s1) ?s1"
    using wp_bget_cached [of ?s1 NBUF xs "Suc NBUF" d n] ch len by simp
  then have 1: "bget_cached (Suc NBUF) (b_next (bufs s NBUF)) d n ?s1 = Ret None ?s1"
    by (auto simp: wp_iff simp del: bget_cached.simps)
  have "find (\<lambda>i. b_refcnt (bufs s i) = 0) (rev xs) = None"
    using assms(3) set by (auto simp: find_None_iff)
  then have "wp (bget_unused (Suc NBUF) (b_prev (bufs s NBUF))) (\<lambda>r t. r = None \<and> t = ?s1) ?s1"
    using wp_bget_unused [of ?s1 NBUF "rev xs" "Suc NBUF"] ch len by simp
  then have 2: "bget_unused (Suc NBUF) (b_prev (bufs s NBUF)) ?s1 = Ret None ?s1"
    by (auto simp: wp_iff simp del: bget_unused.simps)
  show ?thesis
    using assms(2) by (simp add: bread_def bget_def thenK_def bindK_def run_acquire get_buf_def getsK_def 1 2
        panicK_def del: bget_cached.simps bget_unused.simps)
qed

theorem bget_no_buffers_witness: "\<exists>s. bread 1 7 s = Panic ''bget: no buffers''"
proof -
  obtain s where s: "quiet s" "lru (bufs s) (rev [0..<NBUF])" using booted_cache by blast
  let ?t = "s\<lparr>bufs := (\<lambda>i. (bufs s i)\<lparr>b_refcnt := 1, b_dev := 2\<rparr>)\<rparr>"
  have "lru (bufs ?t) (rev [0..<NBUF])" by (rule lru_links [OF s(2)]) simp_all
  then have "bread 1 7 ?t = Panic ''bget: no buffers''"
    by (rule bget_no_buffers) (use s(1) in \<open>simp_all add: quiet_def\<close>)
  then show ?thesis by blast
qed

end
