(* ===== verification/Printf.thy ===== *)
theory Printf
  imports Sched
begin

text \<open>
  Formatted output: the synchronous path through the UART (\<open>uart.c\<close>), \<open>consputc\<close>
  (\<open>console.c\<close>) and \<open>printf\<close> (\<open>printf.c\<close>).

  Output is the list of bytes written to the transmit register. The busy-wait for the
  transmitter returns once the device reports idle and changes nothing the kernel keeps. The
  flags \<open>panicking\<close> and \<open>panicked\<close> are zero: \<open>panic\<close> ends the run (outcome \<open>Panic\<close>), so no
  modelled code runs after they are set. A format string is a HOL string, its end the
  terminating NUL; the variadic arguments are a list of 64-bit slots and string pointers.
\<close>

section \<open>Definitions\<close>

definition emit :: "u8 list \<Rightarrow> kstate \<Rightarrow> kstate" where
  "emit bs s = s\<lparr>uart := (uart s)\<lparr>uart_out := uart_out (uart s) @ bs\<rparr>\<rparr>"

definition uartputc_sync :: "u8 \<Rightarrow> unit kern" where
  "uartputc_sync c = modifyK (emit [c])"

definition BACKSPACE :: int where "BACKSPACE = 0x100"

definition consputc :: "int \<Rightarrow> unit kern" where
  "consputc c = (if c = BACKSPACE
     then blockK [uartputc_sync 8, uartputc_sync 32, uartputc_sync 8]
     else uartputc_sync (word_of_int c))"

definition digits :: string where
  "digits = ''0123456789abcdef''"

abbreviation nl :: string where "nl \<equiv> [CHR 0x0A]"

definition putch :: "char \<Rightarrow> unit kern" where
  "putch ch = consputc (of_char ch)"

text \<open>
  The digit loop of \<open>printint\<close> fills \<open>buf[20]\<close> from the least significant digit; a write
  past the buffer is undefined.
\<close>

function printint_digits :: "nat \<Rightarrow> nat \<Rightarrow> char list \<Rightarrow> (char list) kern" where
  "printint_digits base x buf =
     (if 20 \<le> length buf then undefK ''printint: buf overflow''
      else let buf' = buf @ [digits ! (x mod base)]
           in if x div base \<noteq> 0 then printint_digits base (x div base) buf' else returnK buf')"
  by pat_completeness auto
termination by (relation "measure (\<lambda>(_, _, buf). 20 - length buf)") auto

definition printint :: "u64 \<Rightarrow> nat \<Rightarrow> bool \<Rightarrow> unit kern" where
  "printint xx base sign =
     (let neg = (sign \<and> sint xx < 0); x = (if neg then - xx else xx)
      in bindK (printint_digits base (unat x) []) (\<lambda>buf.
           if neg \<and> 20 \<le> length buf then undefK ''printint: buf overflow''
           else forK (rev (if neg then buf @ ''-'' else buf)) putch))"

primrec printptr_loop :: "nat \<Rightarrow> u64 \<Rightarrow> unit kern" where
  "printptr_loop 0 x = returnK ()"
| "printptr_loop (Suc n) x = blockK [putch (digits ! unat (drop_bit 60 x)), printptr_loop n (push_bit 4 x)]"

definition printptr :: "u64 \<Rightarrow> unit kern" where
  "printptr x = blockK [putch CHR ''0'', putch CHR ''x'', printptr_loop 16 x]"

datatype va = VInt u64 | VStr "string option"

definition va_int :: "va list \<Rightarrow> (u64 \<Rightarrow> va list \<Rightarrow> unit kern) \<Rightarrow> unit kern" where
  "va_int ap k = (case ap of VInt x # ap' \<Rightarrow> k x ap' | _ \<Rightarrow> undefK ''va_arg'')"

definition va_str :: "va list \<Rightarrow> (string option \<Rightarrow> va list \<Rightarrow> unit kern) \<Rightarrow> unit kern" where
  "va_str ap k = (case ap of VStr x # ap' \<Rightarrow> k x ap' | _ \<Rightarrow> undefK ''va_arg'')"

definition as_int :: "u64 \<Rightarrow> u64" where
  "as_int x = scast (ucast x :: u32)"

definition as_uint32 :: "u64 \<Rightarrow> u64" where
  "as_uint32 x = ucast (ucast x :: u32)"

text \<open>One conversion: the characters it takes from the format after \<open>%\<close>, and its output.\<close>

definition at :: "string \<Rightarrow> nat \<Rightarrow> char" where
  "at f i = (if i < length f then f ! i else CHR 0x00)"

fun printf_loop :: "string \<Rightarrow> va list \<Rightarrow> unit kern" where
  "printf_loop [] ap = returnK ()"
| "printf_loop (cx # f) ap =
     (if cx \<noteq> CHR ''%'' then thenK (putch cx) (printf_loop f ap) else
      let c0 = at f 0;
          c1 = (if c0 \<noteq> CHR 0x00 then at f 1 else CHR 0x00);
          c2 = (if c1 \<noteq> CHR 0x00 then at f 2 else CHR 0x00)
      in if c0 = CHR ''d'' then
           va_int ap (\<lambda>x ap'. thenK (printint (as_int x) 10 True) (printf_loop (drop 1 f) ap'))
         else if c0 = CHR ''l'' \<and> c1 = CHR ''d'' then
           va_int ap (\<lambda>x ap'. thenK (printint x 10 True) (printf_loop (drop 2 f) ap'))
         else if c0 = CHR ''l'' \<and> c1 = CHR ''l'' \<and> c2 = CHR ''d'' then
           va_int ap (\<lambda>x ap'. thenK (printint x 10 True) (printf_loop (drop 3 f) ap'))
         else if c0 = CHR ''u'' then
           va_int ap (\<lambda>x ap'. thenK (printint (as_uint32 x) 10 False) (printf_loop (drop 1 f) ap'))
         else if c0 = CHR ''l'' \<and> c1 = CHR ''u'' then
           va_int ap (\<lambda>x ap'. thenK (printint x 10 False) (printf_loop (drop 2 f) ap'))
         else if c0 = CHR ''l'' \<and> c1 = CHR ''l'' \<and> c2 = CHR ''u'' then
           va_int ap (\<lambda>x ap'. thenK (printint x 10 False) (printf_loop (drop 3 f) ap'))
         else if c0 = CHR ''x'' then
           va_int ap (\<lambda>x ap'. thenK (printint (as_uint32 x) 16 False) (printf_loop (drop 1 f) ap'))
         else if c0 = CHR ''l'' \<and> c1 = CHR ''x'' then
           va_int ap (\<lambda>x ap'. thenK (printint x 16 False) (printf_loop (drop 2 f) ap'))
         else if c0 = CHR ''l'' \<and> c1 = CHR ''l'' \<and> c2 = CHR ''x'' then
           va_int ap (\<lambda>x ap'. thenK (printint x 16 False) (printf_loop (drop 3 f) ap'))
         else if c0 = CHR ''p'' then
           va_int ap (\<lambda>x ap'. thenK (printptr x) (printf_loop (drop 1 f) ap'))
         else if c0 = CHR ''c'' then
           va_int ap (\<lambda>x ap'. thenK (consputc (sint (ucast x :: u32))) (printf_loop (drop 1 f) ap'))
         else if c0 = CHR ''s'' then
           va_str ap (\<lambda>p ap'. thenK (forK (case p of None \<Rightarrow> ''(null)'' | Some str \<Rightarrow> str) putch)
             (printf_loop (drop 1 f) ap'))
         else if c0 = CHR ''%'' then thenK (putch CHR ''%'') (printf_loop (drop 1 f) ap)
         else if c0 = CHR 0x00 then returnK ()
         else thenK (blockK [putch CHR ''%'', putch c0]) (printf_loop (drop 1 f) ap))"

definition printf :: "string \<Rightarrow> va list \<Rightarrow> unit kern" where
  "printf fmt ap = blockK [acquire PrLock, printf_loop fmt ap, release PrLock]"

declare printint_digits.simps [simp del] printf_loop.simps [simp del]

section \<open>Effects of single characters\<close>

lemma emit_Nil [simp]: "emit [] s = s"
  by (simp add: emit_def)

lemma emit_emit [simp]: "emit bs (emit as s) = emit (as @ bs) s"
  by (simp add: emit_def)

lemma held_emit [simp]: "held (emit bs s) = held s"
  by (simp add: emit_def)

lemma emit_held: "emit bs (s\<lparr>held := h\<rparr>) = (emit bs s)\<lparr>held := h\<rparr>"
  by (simp add: emit_def)

definition con_bytes :: "int \<Rightarrow> u8 list" where
  "con_bytes c = (if c = BACKSPACE then [8, 32, 8] else [word_of_int c])"

abbreviation str_bytes :: "string \<Rightarrow> u8 list" where
  "str_bytes str \<equiv> map of_char str"

lemma run_consputc: "consputc c s = Ret () (emit (con_bytes c) s)"
  by (simp add: consputc_def con_bytes_def uartputc_sync_def run_simps)

lemma con_bytes_char [simp]: "con_bytes (of_char ch) = [of_char ch]"
proof -
  have i: "(of_char ch :: int) = int (of_char ch)" by (simp add: of_nat_of_char)
  have "int (of_char ch) < 256" using nat_of_char_less_256 [of ch] by linarith
  then have "int (of_char ch) \<noteq> BACKSPACE" unfolding BACKSPACE_def by linarith
  moreover have "word_of_int (int (of_char ch)) = (of_char ch :: u8)"
    unfolding of_int_of_nat_eq by (rule of_nat_of_char)
  ultimately show ?thesis unfolding con_bytes_def i by (simp only: if_False)
qed

lemma run_putch: "putch ch s = Ret () (emit [of_char ch] s)"
  by (simp add: putch_def run_consputc)

lemma run_puts: "forK str putch s = Ret () (emit (str_bytes str) s)"
  by (induction str arbitrary: s) (auto simp: run_simps run_putch)

section \<open>Numbers\<close>

text \<open>The digits of a number, least significant first.\<close>

function digs :: "nat \<Rightarrow> nat \<Rightarrow> nat list" where
  "digs b x = x mod b # (if b < 2 \<or> x div b = 0 then [] else digs b (x div b))"
  by pat_completeness auto
termination by (relation "measure snd") (auto simp: div_eq_0_iff)

declare digs.simps [simp del]

definition num_str :: "nat \<Rightarrow> nat \<Rightarrow> string" where
  "num_str b x = rev (map (\<lambda>d. digits ! d) (digs b x))"

definition int_str :: "u64 \<Rightarrow> nat \<Rightarrow> bool \<Rightarrow> string" where
  "int_str xx b sign = (if sign \<and> sint xx < 0 then CHR ''-'' # num_str b (unat (- xx))
     else num_str b (unat xx))"

lemma digs_not_Nil [simp]: "digs b x \<noteq> []"
  by (subst digs.simps) simp

lemma length_digs: "1 < b \<Longrightarrow> x < b ^ k \<Longrightarrow> 0 < k \<Longrightarrow> length (digs b x) \<le> k"
proof (induction k arbitrary: x)
  case (Suc k)
  show ?case
  proof (cases "x div b = 0")
    case True
    then show ?thesis by (subst digs.simps) simp
  next
    case False
    have "x div b < b ^ k" using Suc.prems by (simp add: less_mult_imp_div_less mult.commute)
    moreover have "0 < k" using False calculation by (cases k) auto
    ultimately have "length (digs b (x div b)) \<le> k" using Suc.IH Suc.prems by simp
    then show ?thesis by (subst digs.simps) simp
  qed
qed simp

lemma digs_small: "1 < b \<Longrightarrow> d \<in> set (digs b x) \<Longrightarrow> d < b"
proof (induction b x rule: digs.induct)
  case (1 b x)
  then have "d \<in> set (x mod b # (if b < 2 \<or> x div b = 0 then [] else digs b (x div b)))"
    by (metis digs.simps)
  with 1 show ?case by (auto split: if_splits)
qed

lemma run_printint_digits:
  "1 < b \<Longrightarrow> length buf + length (digs b x) \<le> 20 \<Longrightarrow>
   printint_digits b x buf s = Ret (buf @ map (\<lambda>d. digits ! d) (digs b x)) s"
proof (induction b x buf rule: printint_digits.induct)
  case (1 b x buf)
  have d: "digs b x = x mod b # (if x div b = 0 then [] else digs b (x div b))"
    using 1(2) by (subst digs.simps) simp
  then have "length buf < 20" using 1(3) by simp
  with 1 d show ?case
    by (subst printint_digits.simps) (auto simp: Let_def returnK_def)
qed

text \<open>
  The two uses of the 20-byte buffer that come closest to its end: the 20 digits of an
  unsigned 64-bit number, and the 19 digits and sign of a negative one.
\<close>

lemma digs_u64:
  assumes "10 \<le> b"
  shows "length (digs b (unat (x :: u64))) \<le> 20"
proof (rule length_digs)
  have "unat x < 10 ^ 20" using unat_u64_lt [of x] by simp
  also have "(10 :: nat) ^ 20 \<le> b ^ 20" using assms by (rule power_mono) simp
  finally show "unat x < b ^ 20" .
qed (use assms in auto)

lemma sint_u64: "sint (x :: u64) = (if uint x < 2 ^ 63 then uint x else uint x - 2 ^ 64)"
proof -
  have "sint x = (uint x + 2 ^ 63) mod 2 ^ 64 - 2 ^ 63"
    by (simp add: sint_uint signed_take_bit_eq_take_bit_shift take_bit_eq_mod)
  moreover have "uint x < 2 ^ 64" using uint_lt2p [of x] by simp
  moreover have "(uint x + 2 ^ 63) mod 2 ^ 64 = uint x + 2 ^ 63 - 2 ^ 64" if "2 ^ 63 \<le> uint x"
    using that calculation minus_mod_self2 [of "uint x + 2 ^ 63" "2 ^ 64"] by simp
  ultimately show ?thesis by (simp add: mod_pos_pos_trivial)
qed

lemma sint_neg_unat:
  assumes "sint (x :: u64) < 0"
  shows "int (unat (- x)) = - sint x" and "unat (- x) < 10 ^ 19"
proof -
  have hi: "2 ^ 63 \<le> uint x" using assms by (auto simp: sint_u64 split: if_splits)
  have lt: "uint x < 2 ^ 64" using uint_lt2p [of x] by simp
  have m: "uint (- x) = 2 ^ 64 - uint x"
    using hi lt by (simp add: uint_word_ariths zmod_zminus1_eq_if)
  show "int (unat (- x)) = - sint x" using hi lt m by (simp add: sint_u64)
  have "int (unat (- x)) < int (10 ^ 19)" using hi m by simp
  then show "unat (- x) < 10 ^ 19" by (simp only: of_nat_less_iff)
qed


lemma int_str_length:
  assumes "10 \<le> b"
  shows "length (int_str xx b sign) \<le> 20"
proof (cases "sign \<and> sint xx < 0")
  case True
  have "unat (- xx) < b ^ 19"
    using sint_neg_unat(2) [of xx] True assms power_mono [of 10 b 19] by simp
  then have "length (digs b (unat (- xx))) \<le> 19"
    using assms by (intro length_digs) auto
  with True show ?thesis by (simp add: int_str_def num_str_def)
next
  case False
  with assms show ?thesis by (auto simp: int_str_def num_str_def digs_u64)
qed

lemma run_printint:
  assumes "10 \<le> b"
  shows "printint xx b sign s = Ret () (emit (str_bytes (int_str xx b sign)) s)"
proof (cases "sign \<and> sint xx < 0")
  case True
  then have "length (digs b (unat (- xx))) \<le> 19"
    using int_str_length [OF assms, of xx sign] by (simp add: int_str_def num_str_def)
  with True assms show ?thesis
    by (simp add: printint_def bindK_def run_printint_digits run_puts run_putch int_str_def num_str_def)
next
  case False
  with assms show ?thesis
    by (simp add: printint_def bindK_def run_printint_digits digs_u64 run_puts int_str_def num_str_def del: de_Morgan_conj)
qed

text \<open>Reading a printed number back.\<close>

definition digit_val :: "char \<Rightarrow> nat" where
  "digit_val ch = length (takeWhile (\<lambda>d. d \<noteq> ch) digits)"

definition read_num :: "nat \<Rightarrow> string \<Rightarrow> nat" where
  "read_num b str = foldl (\<lambda>a ch. a * b + digit_val ch) 0 str"

definition read_int :: "nat \<Rightarrow> string \<Rightarrow> int" where
  "read_int b str = (case str of
      [] \<Rightarrow> 0
    | ch # rest \<Rightarrow> if ch = CHR ''-'' then - int (read_num b rest) else int (read_num b str))"

lemma digit_val_digits: "d < 16 \<Longrightarrow> digit_val (digits ! d) = d \<and> digits ! d \<noteq> CHR ''-''"
proof -
  have "\<forall>d \<in> set [0..<16]. digit_val (digits ! d) = d \<and> digits ! d \<noteq> CHR ''-''"
    by (simp add: digit_val_def digits_def upt_rec)
  then show "d < 16 \<Longrightarrow> ?thesis" by simp
qed

lemma read_num_str: "1 < b \<Longrightarrow> b \<le> 16 \<Longrightarrow> read_num b (num_str b x) = x"
proof (induction b x rule: digs.induct)
  case (1 b x)
  have "x mod b < 16" using 1 by (meson less_le_trans mod_less_divisor order.strict_trans zero_less_one)
  then have v: "digit_val (digits ! (x mod b)) = x mod b" by (simp add: digit_val_digits)
  have n: "num_str b x = (if x div b = 0 then [] else num_str b (x div b)) @ [digits ! (x mod b)]"
    using 1(2) by (simp add: num_str_def digs.simps [of b x])
  show ?case
  proof (cases "x div b = 0")
    case True
    then show ?thesis using n v by (simp add: read_num_def) (metis div_mult_mod_eq add_0 mult_0)
  next
    case False
    then have "read_num b (num_str b (x div b)) = x div b" using 1 by simp
    then show ?thesis using n v False by (simp add: read_num_def)
  qed
qed

lemma num_str_head:
  assumes "1 < b" and "b \<le> 16"
  shows "\<exists>ch rest. num_str b x = ch # rest \<and> ch \<noteq> CHR ''-''"
proof -
  obtain ch rest where c: "num_str b x = ch # rest"
    by (cases "num_str b x") (auto simp: num_str_def)
  then have "ch \<in> set (num_str b x)" by simp
  then obtain d where "d \<in> set (digs b x)" and "ch = digits ! d" by (auto simp: num_str_def)
  then have "ch \<noteq> CHR ''-''" using digs_small [of b d x] digit_val_digits [of d] assms by auto
  with c show ?thesis by blast
qed

lemma read_int_str:
  assumes "1 < b" and "b \<le> 16"
  shows "read_int b (int_str xx b sign) = (if sign then sint xx else uint xx)"
proof (cases "sign \<and> sint xx < 0")
  case True
  then show ?thesis
    using sint_neg_unat(1) [of xx] assms by (simp add: int_str_def read_int_def read_num_str)
next
  case False
  obtain ch rest where "num_str b (unat xx) = ch # rest" "ch \<noteq> CHR ''-''"
    using num_str_head [OF assms] by blast
  moreover have "sint xx = uint xx" if "0 \<le> sint xx"
    using that uint_lt2p [of xx] by (auto simp: sint_u64 split: if_splits)
  ultimately show ?thesis
    using False assms read_num_str [of b "unat xx"] by (auto simp: int_str_def read_int_def)
qed

definition ptr_str :: "u64 \<Rightarrow> string" where
  "ptr_str x = ''0x'' @ map (\<lambda>i. digits ! unat (take_bit 4 (drop_bit (60 - 4 * i) x))) [0..<16]"

lemma run_printptr_loop:
  "printptr_loop n x s =
     Ret () (emit (str_bytes (map (\<lambda>i. digits ! unat (drop_bit 60 (push_bit (4 * i) x))) [0..<n])) s)"
proof (induction n arbitrary: x s)
  case (Suc n)
  then show ?case
    by (simp add: run_simps run_putch upt_conv_Cons map_Suc_upt [symmetric] comp_def ac_simps del: upt_Suc)
qed (simp add: run_simps)

lemma nibble: "i < 16 \<Longrightarrow> drop_bit 60 (push_bit (4 * i) (x :: u64)) = take_bit 4 (drop_bit (60 - 4 * i) x)"
  by (rule bit_word_eqI) (auto simp: bit_simps)

lemma run_printptr: "printptr x s = Ret () (emit (str_bytes (ptr_str x)) s)"
proof -
  have "map (\<lambda>i. digits ! unat (drop_bit 60 (push_bit (4 * i) x))) [0..<16]
      = map (\<lambda>i. digits ! unat (take_bit 4 (drop_bit (60 - 4 * i) x))) [0..<16]"
    by (rule map_cong) (auto simp: nibble)
  then show ?thesis
    by (simp only: printptr_def blockK.simps run_simps run_printptr_loop run_putch) (simp add: ptr_str_def)
qed

section \<open>What a format prints\<close>

text \<open>
  A table-driven description of the conversions: \<open>conv_out\<close> is what each conversion prints,
  and \<open>fmt_out\<close> replaces each conversion of the format, longest match first, by the output
  for the next argument. It is \<open>None\<close> when the arguments do not fit the format.
\<close>

definition conversions :: "string list" where
  "conversions = [''d'', ''ld'', ''lld'', ''u'', ''lu'', ''llu'', ''x'', ''lx'', ''llx'', ''p'', ''c'', ''s'']"

definition conv_out :: "string \<Rightarrow> va \<Rightarrow> u8 list option" where
  "conv_out k a = (case a of
      VInt x \<Rightarrow>
       (if k = ''d'' then Some (str_bytes (int_str (as_int x) 10 True))
        else if k \<in> {''ld'', ''lld''} then Some (str_bytes (int_str x 10 True))
        else if k = ''u'' then Some (str_bytes (int_str (as_uint32 x) 10 False))
        else if k \<in> {''lu'', ''llu''} then Some (str_bytes (int_str x 10 False))
        else if k = ''x'' then Some (str_bytes (int_str (as_uint32 x) 16 False))
        else if k \<in> {''lx'', ''llx''} then Some (str_bytes (int_str x 16 False))
        else if k = ''p'' then Some (str_bytes (ptr_str x))
        else if k = ''c'' then Some (con_bytes (sint (ucast x :: u32)))
        else None)
    | VStr p \<Rightarrow> if k = ''s'' then Some (str_bytes (case p of None \<Rightarrow> ''(null)'' | Some str \<Rightarrow> str)) else None)"

definition opt_app :: "u8 list option \<Rightarrow> u8 list option \<Rightarrow> u8 list option" where
  "opt_app x y = (case x of None \<Rightarrow> None | Some a \<Rightarrow> map_option (\<lambda>b. a @ b) y)"

fun fmt_out :: "string \<Rightarrow> va list \<Rightarrow> u8 list option" where
  "fmt_out [] ap = Some []"
| "fmt_out (c # f) ap =
     (if c \<noteq> CHR ''%'' then opt_app (Some [of_char c]) (fmt_out f ap)
      else case find (\<lambda>k. take (length k) f = k) conversions of
        Some k \<Rightarrow> (case ap of [] \<Rightarrow> None
          | a # ap' \<Rightarrow> opt_app (conv_out k a) (fmt_out (drop (length k) f) ap'))
      | None \<Rightarrow> if f = [] then Some []
          else opt_app (Some (if hd f = CHR ''%'' then [of_char CHR ''%''] else [of_char CHR ''%'', of_char (hd f)]))
            (fmt_out (tl f) ap))"

declare fmt_out.simps [simp del]

lemma opt_app_Some: "opt_app x y = Some r \<longleftrightarrow> (\<exists>a b. x = Some a \<and> y = Some b \<and> r = a @ b)"
  by (auto simp: opt_app_def split: option.splits)

lemma opt_app_simps [simp]:
  "opt_app (Some a) (Some b) = Some (a @ b)" "opt_app None y = None" "opt_app x None = None"
  by (auto simp: opt_app_def split: option.splits)

lemmas conv_run =
  at_def va_int_def va_str_def run_simps run_printint run_printptr run_consputc run_puts conv_out_def

lemma printf_conversion:
  assumes "k \<in> set conversions" and "conv_out k a = Some out"
  shows "printf_loop (CHR ''%'' # k @ f) (a # ap) s = printf_loop f ap (emit out s)"
  using assms unfolding conversions_def list.set insert_iff empty_iff simp_thms
  by (elim disjE; hypsubst; subst printf_loop.simps(2)) (cases a; simp add: conv_run)+

lemma printf_other:
  assumes "\<forall>k \<in> set conversions. take (length k) (c # f) \<noteq> k" and "CHR 0x00 \<notin> set (c # f)"
  shows "printf_loop (CHR ''%'' # c # f) ap s
       = printf_loop f ap (emit (if c = CHR ''%'' then [of_char CHR ''%''] else [of_char CHR ''%'', of_char c]) s)"
proof -
  have c: "c \<noteq> CHR ''d''" "c \<noteq> CHR ''u''" "c \<noteq> CHR ''x''" "c \<noteq> CHR ''p''" "c \<noteq> CHR ''c''" "c \<noteq> CHR ''s''"
    "c \<noteq> CHR 0x00" and at0: "at (c # f) 0 = c"
    using assms by (auto simp: conversions_def at_def)
  show ?thesis
  proof (cases "c = CHR ''l''")
    case False
    with c show ?thesis
      by (subst printf_loop.simps(2)) (simp add: Let_def at0 run_simps run_putch)
  next
    case True
    define c1 where "c1 = at (CHR ''l'' # f) 1"
    define c2 where "c2 = at (CHR ''l'' # f) 2"
    have a0: "at (CHR ''l'' # f) 0 = CHR ''l''" and d1: "drop 1 (CHR ''l'' # f) = f" by (simp_all add: at_def)
    have c1: "c1 \<noteq> CHR ''d''" "c1 \<noteq> CHR ''u''" "c1 \<noteq> CHR ''x''"
      using assms True by (cases f, auto simp: conversions_def at_def c1_def)+
    have c2: "c1 = CHR ''l'' \<Longrightarrow> c2 \<notin> {CHR ''d'', CHR ''u'', CHR ''x''}"
      using assms True
      by (cases f; cases "tl f") (auto simp: conversions_def at_def c1_def c2_def)
    show ?thesis
    proof (cases "c1 = CHR ''l''")
      case l: True
      with True c2 show ?thesis
        by (subst printf_loop.simps(2))
           (simp add: Let_def a0 d1 c1_def [symmetric] c2_def [symmetric] run_simps run_putch del: One_nat_def)
    next
      case False
      with True c1 show ?thesis
        by (subst printf_loop.simps(2))
           (simp add: Let_def a0 d1 c1_def [symmetric] run_simps run_putch del: One_nat_def)
    qed
  qed
qed

lemma run_printf_loop:
  "CHR 0x00 \<notin> set f \<Longrightarrow> fmt_out f ap = Some out \<Longrightarrow> printf_loop f ap s = Ret () (emit out s)"
proof (induction f ap arbitrary: out s rule: fmt_out.induct)
  case (1 ap)
  then show ?case by (simp add: fmt_out.simps printf_loop.simps returnK_def)
next
  case (2 c f ap)
  show ?case
  proof (cases "c = CHR ''%''")
    case False
    with 2(4,5) obtain b where "fmt_out f ap = Some b" "out = of_char c # b"
      by (auto simp: fmt_out.simps(2) opt_app_Some)
    with False 2(1,4) show ?thesis by (simp add: printf_loop.simps(2) thenK_def bindK_def run_putch)
  next
    case True
    show ?thesis
    proof (cases "find (\<lambda>k. take (length k) f = k) conversions")
      case None
      show ?thesis
      proof (cases f)
        case Nil
        with True 2(5) show ?thesis
          by (simp add: fmt_out.simps conversions_def printf_loop.simps at_def returnK_def)
      next
        case (Cons d r)
        with True None 2(5) obtain b where "fmt_out r ap = Some b"
          and "out = (if d = CHR ''%'' then [of_char CHR ''%''] else [of_char CHR ''%'', of_char d]) @ b"
          by (auto simp: fmt_out.simps(2) opt_app_Some)
        moreover have "printf_loop r ap t = Ret () (emit b t)" for t
          using 2(2) [OF _ None, of b t] True Cons 2(4) calculation(1) by simp
        ultimately show ?thesis
          using printf_other [of d r ap s] True None Cons 2(4) by (simp add: find_None_iff)
      qed
    next
      case (Some k)
      then have k: "k \<in> set conversions" "f = k @ drop (length k) f"
        by (auto simp: find_Some_iff) (metis append_take_drop_id)
      obtain a ap' x b where "ap = a # ap'" "conv_out k a = Some x" "fmt_out (drop (length k) f) ap' = Some b"
        "out = x @ b"
        using Some True 2(5) by (auto simp: fmt_out.simps(2) opt_app_Some split: list.splits)
      moreover have "CHR 0x00 \<notin> set (drop (length k) f)" using 2(4) set_drop_subset by fastforce
      ultimately have "printf_loop (drop (length k) f) ap' (emit x s) = Ret () (emit b (emit x s))"
        using 2(3) [OF _ Some, of a ap' b "emit x s"] True by simp
      with \<open>ap = a # ap'\<close> \<open>conv_out k a = Some x\<close> \<open>out = x @ b\<close> True show ?thesis
        using printf_conversion [of k a x "drop (length k) f" ap' s] k by simp
    qed
  qed
qed

lemma wp_printf:
  assumes "PrLock \<notin> set (held s)" and "CHR 0x00 \<notin> set f" and "fmt_out f ap = Some out" and "Q () (emit out s)"
  shows "wp (printf f ap) Q s"
  using assms run_printf_loop [of f ap out "s\<lparr>held := PrLock # held s\<rparr>"]
  by (simp add: printf_def wp_Ret emit_held) (simp add: emit_def)

section \<open>Properties\<close>

text \<open>
  C37. Numbers print correctly and inside the 20-byte buffer: for base 10 and 16 and every
  64-bit argument, \<open>printint\<close> returns, appends a string to the output and changes nothing
  else, and reading that string back in the same base, with an optional minus sign, gives the
  argument as a signed or unsigned number; this includes the most negative number, whose
  negation does not fit a signed 64-bit integer.
\<close>

theorem printint_roundtrip:
  assumes "b \<in> {10, 16}"
  shows "\<exists>str. printint xx b sign s = Ret () (emit (str_bytes str) s) \<and> length str \<le> 20 \<and>
           read_int b str = (if sign then sint xx else uint xx)"
proof -
  have b: "10 \<le> b" "1 < b" "b \<le> 16" using assms by auto
  have "length (int_str xx b sign) \<le> 20"
    using b int_str_length [of b xx sign] by simp
  with b show ?thesis
    using run_printint [of b xx sign s] read_int_str [of b xx sign] by blast
qed

theorem printint_roundtrip_witness:
  "\<exists>str. printint (push_bit 63 1) 10 True zero_kstate = Ret () (emit (str_bytes str) zero_kstate) \<and>
     length str \<le> 20 \<and> read_int 10 str = - (2 ^ 63)"
proof -
  have "sint (push_bit 63 1 :: u64) = - (2 ^ 63)" by (simp add: sint_u64)
  then show ?thesis using printint_roundtrip [of 10 "push_bit 63 1" True zero_kstate] by simp
qed

text \<open>
  C36. \<open>printf\<close> prints what the table of conversions says: if the arguments fit the format, it
  returns, the output grows by the format with each conversion replaced by the rendering of its
  argument, and nothing else changes, in particular not the held locks. Called with its own lock
  held it panics.
\<close>

theorem printf_renders:
  assumes "CHR 0x00 \<notin> set f" and "fmt_out f ap = Some out"
  shows "printf f ap s = (if PrLock \<in> set (held s) then Panic ''acquire'' else Ret () (emit out s))"
proof (cases "PrLock \<in> set (held s)")
  case True
  then show ?thesis by (simp add: printf_def bindK_def run_acquire)
next
  case False
  then have "wp (printf f ap) (\<lambda>_ t. t = emit out s) s" using assms by (intro wp_printf) auto
  with False show ?thesis by (auto elim: wpE)
qed

theorem printf_renders_witness:
  "printf ''%d of %s: %x%%'' [VInt (- 7), VStr None, VInt 255] zero_kstate
     = Ret () (emit (str_bytes ''-7 of (null): ff%'') zero_kstate)"
proof -
  have "fmt_out ''%d of %s: %x%%'' [VInt (- 7), VStr None, VInt 255] = Some (str_bytes ''-7 of (null): ff%'')"
    by (simp add: fmt_out.simps conversions_def conv_out_def int_str_def num_str_def digs.simps digits_def
        as_int_def as_uint32_def)
  then show ?thesis
    using printf_renders [of "''%d of %s: %x%%''" "[VInt (- 7), VStr None, VInt 255]" _ zero_kstate]
    by (simp add: zero_kstate_def)
qed

end
