(* ===== verification/Log.thy ===== *)
theory Log
  imports Bcache Printf
begin

text \<open>
  The write-ahead log (\<open>log.c\<close>). A transaction's blocks are pinned in the buffer cache by
  \<open>log_write\<close>; the last \<open>end_op\<close> commits them: the blocks are copied to the log area, the header
  with the list of block numbers is written, the blocks are copied home, and the header is
  cleared. \<open>recover_from_log\<close> repeats the copying after a crash.

  The header occupies one block: a 32-bit count at offset 0 and the block numbers after it. The
  in-memory block numbers are kept as the unsigned values that \<open>bread\<close> receives. A loop that
  indexes \<open>lh.block\<close> past its \<open>LOGBLOCKS\<close> entries is undefined. \<open>begin_op\<close> waits in a loop; the
  definition \<open>begin_op_loop\<close> is one evaluation of its conditions, and a thread woken in \<open>sleep\<close>
  continues with \<open>begin_op_resume\<close>.
\<close>

section \<open>Definitions\<close>

definition upd_log :: "(log \<Rightarrow> log) \<Rightarrow> unit kern" where
  "upd_log f = modifyK (\<lambda>s. s\<lparr>klog := f (klog s)\<rparr>)"

definition upd_lh :: "(logheader \<Rightarrow> logheader) \<Rightarrow> unit kern" where
  "upd_lh f = upd_log (\<lambda>l. l\<lparr>log_lh := f (log_lh l)\<rparr>)"

definition head_n :: "u8 list \<Rightarrow> int" where
  "head_n d = sint (of_nat (get_field 4 d 0) :: u32)"

definition head_block :: "u8 list \<Rightarrow> nat \<Rightarrow> nat" where
  "head_block d i = get_field 4 d (4 * (i + 1))"

definition fill_head :: "logheader \<Rightarrow> u8 list \<Rightarrow> u8 list" where
  "fill_head h d = fold (\<lambda>i x. put_field 4 x (4 * (i + 1)) (lh_block h ! i)) [0..<nat (lh_n h)]
     (put_field 4 d 0 (nat (lh_n h mod 2 ^ 32)))"

definition install_trans :: "bool \<Rightarrow> unit kern" where
  "install_trans recovering = bindK (getsK klog) (\<lambda>l.
     forK [0..<nat (lh_n (log_lh l))] (\<lambda>tail.
       if LOGBLOCKS \<le> tail then undefK ''log.lh.block'' else
       thenK (whenK recovering (printf (''recovering tail %d dst %d'' @ nl)
                [VInt (of_nat tail), VInt (of_nat (lh_block (log_lh l) ! tail))]))
       (bindK (bread (log_dev l) (log_start l + tail + 1)) (\<lambda>lbuf.
        bindK (bread (log_dev l) (lh_block (log_lh l) ! tail)) (\<lambda>dbuf. blockK [
          bindK (getsK (\<lambda>s. b_data (bufs s lbuf))) (put_data dbuf),
          bwrite dbuf,
          whenK (\<not> recovering) (bunpin dbuf),
          brelse lbuf,
          brelse dbuf])))))"

definition read_head :: "unit kern" where
  "read_head = bindK (getsK klog) (\<lambda>l.
     bindK (bread (log_dev l) (log_start l)) (\<lambda>b.
     bindK (getsK (\<lambda>s. b_data (bufs s b))) (\<lambda>d. blockK [
       upd_lh (\<lambda>h. h\<lparr>lh_n := head_n d\<rparr>),
       forK [0..<nat (head_n d)] (\<lambda>i.
         if LOGBLOCKS \<le> i then undefK ''log.lh.block''
         else upd_lh (\<lambda>h. h\<lparr>lh_block := (lh_block h)[i := head_block d i]\<rparr>)),
       brelse b])))"

definition write_head :: "unit kern" where
  "write_head = bindK (getsK klog) (\<lambda>l.
     bindK (bread (log_dev l) (log_start l)) (\<lambda>b.
     if LOGBLOCKS < nat (lh_n (log_lh l)) then undefK ''log.lh.block'' else blockK [
       bindK (getsK (\<lambda>s. b_data (bufs s b))) (\<lambda>d. put_data b (fill_head (log_lh l) d)),
       bwrite b,
       brelse b]))"

definition recover_from_log :: "unit kern" where
  "recover_from_log = blockK [read_head, install_trans True, upd_lh (\<lambda>h. h\<lparr>lh_n := 0\<rparr>), write_head]"

definition initlog :: "nat \<Rightarrow> superblock \<Rightarrow> unit kern" where
  "initlog dev sb = (if BSIZE \<le> 4 * (LOGBLOCKS + 1) then panicK ''initlog: too big logheader'' else
     blockK [upd_log (\<lambda>l. l\<lparr>log_start := sb_logstart sb, log_dev := dev\<rparr>), recover_from_log])"

definition begin_op_loop :: "unit kern" where
  "begin_op_loop = bindK (getsK klog) (\<lambda>l.
     if log_committing l then sleep ChanLog LogLock
     else if lh_n (log_lh l) + (log_outstanding l + 1) * int MAXOPBLOCKS > int LOGBLOCKS
     then sleep ChanLog LogLock
     else blockK [upd_log (\<lambda>l. l\<lparr>log_outstanding := log_outstanding l + 1\<rparr>), release LogLock])"

definition begin_op :: "unit kern" where
  "begin_op = blockK [acquire LogLock, begin_op_loop]"

definition begin_op_resume :: "unit kern" where
  "begin_op_resume = blockK [sleep_resume LogLock, begin_op_loop]"

definition write_log :: "unit kern" where
  "write_log = bindK (getsK klog) (\<lambda>l.
     forK [0..<nat (lh_n (log_lh l))] (\<lambda>tail.
       if LOGBLOCKS \<le> tail then undefK ''log.lh.block'' else
       bindK (bread (log_dev l) (log_start l + tail + 1)) (\<lambda>to.
       bindK (bread (log_dev l) (lh_block (log_lh l) ! tail)) (\<lambda>from. blockK [
         bindK (getsK (\<lambda>s. b_data (bufs s from))) (put_data to),
         bwrite to,
         brelse from,
         brelse to]))))"

definition commit :: "unit kern" where
  "commit = bindK (getsK (\<lambda>s. lh_n (log_lh (klog s)))) (\<lambda>n. whenK (n > 0) (blockK [
     write_log,
     write_head,
     install_trans False,
     upd_lh (\<lambda>h. h\<lparr>lh_n := 0\<rparr>),
     write_head]))"

definition end_op :: "unit kern" where
  "end_op = blockK [
     acquire LogLock,
     upd_log (\<lambda>l. l\<lparr>log_outstanding := log_outstanding l - 1\<rparr>),
     bindK (getsK klog) (\<lambda>l.
       if log_committing l then panicK ''log.committing''
       else if log_outstanding l = 0 then blockK [
         upd_log (\<lambda>l. l\<lparr>log_committing := True\<rparr>),
         release LogLock,
         commit,
         acquire LogLock,
         upd_log (\<lambda>l. l\<lparr>log_committing := False\<rparr>),
         wakeup ChanLog,
         release LogLock]
       else blockK [wakeup ChanLog, release LogLock])]"

text \<open>The scan of \<open>log_write\<close>: the first index whose entry is the block, or \<open>n\<close>.\<close>

fun absorb :: "nat \<Rightarrow> nat list \<Rightarrow> nat \<Rightarrow> nat" where
  "absorb bn (x # xs) (Suc n) = (if x = bn then 0 else Suc (absorb bn xs n))"
| "absorb bn xs n = 0"

definition log_write :: "nat \<Rightarrow> unit kern" where
  "log_write b = blockK [
     acquire LogLock,
     bindK (getsK klog) (\<lambda>l.
       if lh_n (log_lh l) \<ge> int LOGBLOCKS then panicK ''too big a transaction''
       else if log_outstanding l < 1 then panicK ''log_write outside of trans''
       else bindK (getsK (\<lambda>s. b_blockno (bufs s b))) (\<lambda>bn.
         let i = absorb bn (lh_block (log_lh l)) (nat (lh_n (log_lh l))) in blockK [
           upd_lh (\<lambda>h. h\<lparr>lh_block := (lh_block h)[i := bn]\<rparr>),
           whenK (int i = lh_n (log_lh l)) (blockK [bpin b, upd_lh (\<lambda>h. h\<lparr>lh_n := lh_n h + 1\<rparr>)])])),
     release LogLock]"

section \<open>The header block\<close>

lemma fold_put_field:
  assumes "4 * (n + 1) \<le> length d"
  shows "length (fold (\<lambda>i x. put_field 4 x (4 * (i + 1)) (f i)) [0..<n] d) = length d \<and>
    get_field 4 (fold (\<lambda>i x. put_field 4 x (4 * (i + 1)) (f i)) [0..<n] d) 0 = get_field 4 d 0 \<and>
    (\<forall>j. 4 * (j + 2) \<le> length d \<longrightarrow> get_field 4 (fold (\<lambda>i x. put_field 4 x (4 * (i + 1)) (f i)) [0..<n] d) (4 * (j + 1))
       = (if j < n then f j mod 2 ^ 32 else get_field 4 d (4 * (j + 1))))"
  using assms
proof (induction n)
  case (Suc n)
  let ?e = "fold (\<lambda>i x. put_field 4 x (4 * (i + 1)) (f i)) [0..<n] d"
  have IH: "length ?e = length d" "get_field 4 ?e 0 = get_field 4 d 0"
    "\<And>j. 4 * (j + 2) \<le> length d \<Longrightarrow> get_field 4 ?e (4 * (j + 1)) = (if j < n then f j mod 2 ^ 32 else get_field 4 d (4 * (j + 1)))"
    using Suc by auto
  have eq: "fold (\<lambda>i x. put_field 4 x (4 * (i + 1)) (f i)) [0..<Suc n] d = put_field 4 ?e (4 * (n + 1)) (f n)"
    by simp
  have "get_field 4 (put_field 4 ?e (4 * (n + 1)) (f n)) (4 * (j + 1))
      = (if j < Suc n then f j mod 2 ^ 32 else get_field 4 d (4 * (j + 1)))" if "4 * (j + 2) \<le> length d" for j
  proof -
    consider "j < n" | "j = n" | "n < j" by linarith
    then show ?thesis
    proof cases
      case 1
      then show ?thesis using get_put_before [of "4 * (j + 1)" 4 "4 * (n + 1)" ?e 4 "f n"] IH that Suc.prems by simp
    next
      case 2
      then show ?thesis using get_put_same [of "4 * (n + 1)" 4 ?e "f n"] IH Suc.prems by simp
    next
      case 3
      then show ?thesis using get_put_after [of "4 * (n + 1)" 4 "4 * (j + 1)" ?e 4 "f n"] IH that Suc.prems by simp
    qed
  qed
  then show ?case unfolding eq
    using IH Suc.prems get_put_before [of 0 4 "4 * (n + 1)" ?e 4 "f n"] by simp
qed simp

definition lh_ok :: "logheader \<Rightarrow> bool" where
  "lh_ok h \<longleftrightarrow> 0 \<le> lh_n h \<and> lh_n h \<le> int LOGBLOCKS \<and> length (lh_block h) = LOGBLOCKS \<and>
     (\<forall>b \<in> set (take (nat (lh_n h)) (lh_block h)). b < 2 ^ 32)"

lemma head_fill:
  assumes "lh_ok h" and "length d = BSIZE"
  shows "length (fill_head h d) = BSIZE" and "head_n (fill_head h d) = lh_n h"
    and "i < nat (lh_n h) \<Longrightarrow> head_block (fill_head h d) i = lh_block h ! i"
proof -
  let ?n = "nat (lh_n h)" and ?d = "put_field 4 d 0 (nat (lh_n h mod 2 ^ 32))"
  have n: "?n \<le> 30" "length ?d = 1024" "lh_n h mod 2 ^ 32 = lh_n h"
    using assms by (auto simp: lh_ok_def const_defs)
  note f = fold_put_field [of ?n ?d "\<lambda>i. lh_block h ! i"]
  show "length (fill_head h d) = BSIZE" using f n by (simp add: fill_head_def const_defs)
  have "get_field 4 (fill_head h d) 0 = ?n"
    using f n get_put_same [of 0 4 d "nat (lh_n h mod 2 ^ 32)"] assms(2) by (simp add: fill_head_def const_defs)
  moreover have "sint (of_nat ?n :: u32) = lh_n h"
  proof -
    have "unat (of_nat ?n :: u32) = ?n" using n(1) by (simp add: unat_of_nat)
    then have "uint (of_nat ?n :: u32) = lh_n h" using assms(1) unfolding uint_nat lh_ok_def by simp
    then show ?thesis using n(1) assms(1) by (simp add: sint_uint signed_take_bit_int_eq_self lh_ok_def const_defs)
  qed
  ultimately show "head_n (fill_head h d) = lh_n h" by (simp add: head_n_def)
  show "head_block (fill_head h d) i = lh_block h ! i" if i: "i < ?n"
  proof -
    have "lh_block h ! i \<in> set (take ?n (lh_block h))"
      using i assms(1) n(1) by (auto simp: lh_ok_def in_set_conv_nth const_defs intro!: exI [of _ i])
    then have "lh_block h ! i < 2 ^ 32" using assms(1) by (simp add: lh_ok_def)
    then show ?thesis using f n i by (simp add: fill_head_def head_block_def)
  qed
qed

section \<open>Frame\<close>

text \<open>The cache does not depend on the log's own variables, nor on console output.\<close>

lemma cache_cong:
  assumes "bufs t = bufs s" and "slocks t = slocks s" and "disk t = disk s"
  shows "cache_inv t = cache_inv s" and "buf_of t = buf_of s"
    and "dtrace t = dtrace s \<Longrightarrow> babs t = babs s"
    and "cur t = cur s \<Longrightarrow> procs t = procs s \<Longrightarrow> has_buf t = has_buf s"
proof -
  show "cache_inv t = cache_inv s"
    by (simp only: cache_inv_def buf_ok_def bufs_distinct_def assms)
  show bo: "buf_of t = buf_of s" by (intro ext) (simp only: buf_of_def assms)
  show "babs t = babs s" if "dtrace t = dtrace s"
    unfolding babs_def bview_def [abs_def] brefs_def [abs_def] bbusy_def [abs_def] assms bo that by (rule refl)
  show "has_buf t = has_buf s" if "cur t = cur s" "procs t = procs s"
    unfolding has_buf_def [abs_def] assms bo that by (rule refl)
qed

lemma cache_inv_other [simp]:
  "cache_inv (s\<lparr>klog := G\<rparr>) = cache_inv s" "cache_inv (s\<lparr>uart := U\<rparr>) = cache_inv s"
  "cache_inv (s\<lparr>held := h\<rparr>) = cache_inv s"
  by (rule cache_cong; simp)+

lemma babs_other [simp]:
  "babs (s\<lparr>klog := G\<rparr>) = babs s" "babs (s\<lparr>uart := U\<rparr>) = babs s" "babs (s\<lparr>held := h\<rparr>) = babs s"
  by (rule cache_cong; simp)+

lemma has_buf_other [simp]:
  "has_buf (s\<lparr>klog := G\<rparr>) = has_buf s" "has_buf (s\<lparr>uart := U\<rparr>) = has_buf s"
  "has_buf (s\<lparr>held := h\<rparr>) = has_buf s"
  by (rule cache_cong; simp)+

lemma quiet_other [simp]:
  "quiet (s\<lparr>klog := G\<rparr>) = quiet s" "quiet (s\<lparr>uart := U\<rparr>) = quiet s"
  by (simp_all add: quiet_def)

definition lframe :: "kstate \<Rightarrow> kstate \<Rightarrow> bool" where
  "lframe s t \<longleftrightarrow> (\<exists>G U. bframe (s\<lparr>klog := G, uart := U\<rparr>) t)"

lemma bframe_other:
  assumes "bframe s t"
  shows "bframe (s\<lparr>klog := G, uart := U\<rparr>) (t\<lparr>klog := G, uart := U\<rparr>)"
proof -
  obtain P L B D T where t: "t = s\<lparr>procs := P, slocks := L, bufs := B, disk := D, dtrace := T\<rparr>"
    and x: "\<And>i. L (InodeLock i) = slocks s (InodeLock i)"
      "\<And>p. P p = procs s p \<or> Some p \<noteq> cur s \<and> p_state (procs s p) = SLEEPING \<and>
            P p = (procs s p)\<lparr>p_state := RUNNABLE\<rparr>"
    using assms unfolding bframe_def by blast
  show ?thesis unfolding bframe_def
    by (intro exI [of _ P] exI [of _ L] exI [of _ B] exI [of _ D] exI [of _ T]) (use x in \<open>simp add: t\<close>)
qed

lemma lframe_refl [simp]: "lframe s s"
  unfolding lframe_def by (intro exI [of _ "klog s"] exI [of _ "uart s"]) simp

lemma lframe_bframe: "bframe s t \<Longrightarrow> lframe s t"
  unfolding lframe_def by (intro exI [of _ "klog s"] exI [of _ "uart s"]) simp

lemma lframe_klog [simp]: "lframe s (s\<lparr>klog := G\<rparr>)"
  unfolding lframe_def by (intro exI [of _ G] exI [of _ "uart s"]) simp

lemma lframe_uart [simp]: "lframe s (s\<lparr>uart := U\<rparr>)"
  unfolding lframe_def by (intro exI [of _ "klog s"] exI [of _ U]) simp

lemma lframe_trans:
  assumes "lframe s t" and "lframe t u"
  shows "lframe s u"
proof -
  obtain G U G' U' where 1: "bframe (s\<lparr>klog := G, uart := U\<rparr>) t" and 2: "bframe (t\<lparr>klog := G', uart := U'\<rparr>) u"
    using assms by (auto simp: lframe_def)
  from bframe_other [OF 1, where G = G' and U = U'] have "bframe (s\<lparr>klog := G', uart := U'\<rparr>) (t\<lparr>klog := G', uart := U'\<rparr>)"
    by simp
  then show ?thesis using bframe_trans [OF _ 2] unfolding lframe_def by blast
qed

lemma lframe_klog_bframe: "lframe s t \<Longrightarrow> bframe (t\<lparr>klog := G\<rparr>) u \<Longrightarrow> lframe s u"
  by (rule lframe_trans [OF lframe_trans [OF _ lframe_klog] lframe_bframe])

lemma lframe_simps:
  assumes "lframe s t"
  shows "cur t = cur s" "held t = held s" "superb t = superb s" "mem t = mem s"
    "inodes t = inodes s" "files t = files s" "cur s = Some p \<Longrightarrow> procs t p = procs s p"
    "p_pid (procs t q) = p_pid (procs s q)" "slocks t (InodeLock i) = slocks s (InodeLock i)"
  using assms bframe_simps [of _ t] unfolding lframe_def by fastforce+

lemma lframe_quiet: "lframe s t \<Longrightarrow> quiet s \<Longrightarrow> quiet t"
  by (simp add: quiet_def lframe_simps)

section \<open>Sequences of block writes\<close>

definition apply_writes :: "(nat \<Rightarrow> nat \<Rightarrow> 'a) \<Rightarrow> (nat \<times> nat \<times> 'a) list \<Rightarrow> nat \<Rightarrow> nat \<Rightarrow> 'a" where
  "apply_writes D ws = fold (\<lambda>(d, n, x) D. upd2 D d n x) ws D"

definition k_writes :: "blocks \<Rightarrow> (nat \<times> nat \<times> u8 list) list \<Rightarrow> blocks" where
  "k_writes k ws = k\<lparr>k_view := apply_writes (k_view k) ws, k_disk := apply_writes (k_disk k) ws,
     k_trace := k_trace k @ ws\<rparr>"

lemma apply_writes_simps [simp]:
  "apply_writes D [] = D" "apply_writes D ((d, n, x) # ws) = apply_writes (upd2 D d n x) ws"
  "apply_writes D (ws @ vs) = apply_writes (apply_writes D ws) vs"
  by (simp_all add: apply_writes_def)

lemma k_writes_simps [simp]:
  "k_refs (k_writes k ws) = k_refs k" "k_busy (k_writes k ws) = k_busy k"
  "k_view (k_writes k ws) = apply_writes (k_view k) ws" "k_disk (k_writes k ws) = apply_writes (k_disk k) ws"
  "k_trace (k_writes k ws) = k_trace k @ ws" "k_writes k [] = k"
  "k_writes (k_writes k ws) vs = k_writes k (ws @ vs)" "refd (k_writes k ws) = refd k"
  by (simp_all add: k_writes_def refd_def)

lemma k_writes_one:
  "k\<lparr>k_view := upd2 (k_view k) d n x, k_disk := upd2 (k_disk k) d n x, k_trace := k_trace k @ [(d, n, x)]\<rparr>
   = k_writes k [(d, n, x)]"
  by (simp add: k_writes_def)

lemma apply_writes_other:
  "(\<And>x. (d, n, x) \<notin> set ws) \<Longrightarrow> apply_writes D ws d n = D d n"
proof (induction ws arbitrary: D)
  case (Cons w ws)
  obtain d' n' x' where w: "w = (d', n', x')" by (cases w)
  have "d' \<noteq> d \<or> n' \<noteq> n" using Cons.prems [of x'] w by auto
  then have "upd2 D d' n' x' d n = D d n" by (auto simp: upd2_apply)
  then show ?case using Cons by (simp add: w)
qed simp

lemma apply_writes_map:
  assumes "inj_on g (set xs)" and "i \<in> set xs"
  shows "apply_writes D (map (\<lambda>i. (d, g i, v i)) xs) d (g i) = v i"
  using assms
proof (induction xs arbitrary: D)
  case (Cons x xs)
  show ?case
  proof (cases "i \<in> set xs")
    case True
    then show ?thesis using Cons by (simp add: inj_on_insert)
  next
    case False
    then have "i = x" using Cons.prems by simp
    moreover have "(d, g x, y) \<notin> set (map (\<lambda>i. (d, g i, v i)) xs)" for y
      using Cons.prems False calculation by (auto simp: inj_on_insert image_iff)
    ultimately show ?thesis by (simp add: apply_writes_other upd2_apply)
  qed
qed simp

lemma apply_writes_idem:
  assumes "\<And>n x. (d, n, x) \<in> set ws \<Longrightarrow> D d n = x" and "\<And>w. w \<in> set ws \<Longrightarrow> fst w = d"
  shows "apply_writes D ws = D"
  using assms
proof (induction ws)
  case (Cons w ws)
  obtain n x where w: "w = (d, n, x)" using Cons.prems(2) [of w] by (cases w) auto
  then have "D d n = x" using Cons.prems(1) by simp
  then have "upd2 D d n x = D" by (auto simp: upd2_id)
  then show ?case using Cons by (simp add: w)
qed simp

section \<open>Copying a transaction\<close>

definition n_logged :: "log \<Rightarrow> nat" where
  "n_logged l = nat (lh_n (log_lh l))"

definition nth_logged :: "log \<Rightarrow> nat \<Rightarrow> nat" where
  "nth_logged l i = lh_block (log_lh l) ! i"

definition logged :: "log \<Rightarrow> nat set" where
  "logged l = nth_logged l ` {..<n_logged l}"

definition log_area :: "log \<Rightarrow> nat set" where
  "log_area l = {log_start l .. log_start l + LOGBLOCKS}"

text \<open>
  The log \<open>l\<close> holds a transaction that can be committed: distinct home blocks outside the log
  area, none of them nor a block of the log area checked out, and two buffers to spare.
\<close>

definition log_ready :: "log \<Rightarrow> blocks \<Rightarrow> bool" where
  "log_ready l k \<longleftrightarrow> log_dev l \<noteq> 0 \<and> lh_ok (log_lh l) \<and> inj_on (nth_logged l) {..<n_logged l} \<and>
     logged l \<inter> log_area l = {} \<and> (\<forall>b \<in> log_area l \<union> logged l. \<not> k_busy k (log_dev l) b) \<and>
     card (refd k) + 2 \<le> NBUF"

lemma log_readyD:
  assumes "log_ready l k"
  shows "log_dev l \<noteq> 0" "n_logged l \<le> LOGBLOCKS"
    "i < n_logged l \<Longrightarrow> \<not> k_busy k (log_dev l) (log_start l + i + 1)"
    "i < n_logged l \<Longrightarrow> \<not> k_busy k (log_dev l) (nth_logged l i)"
    "i < n_logged l \<Longrightarrow> j < n_logged l \<Longrightarrow> log_start l + i + 1 \<noteq> nth_logged l j"
    "\<not> k_busy k (log_dev l) (log_start l)" "j < n_logged l \<Longrightarrow> log_start l \<noteq> nth_logged l j"
    "card (refd k) + 2 \<le> NBUF"
proof -
  show 2: "n_logged l \<le> LOGBLOCKS" using assms by (auto simp: log_ready_def lh_ok_def n_logged_def)
  have a: "log_start l + i + 1 \<in> log_area l" if "i < n_logged l" for i
    using that 2 by (auto simp: log_area_def)
  have b: "nth_logged l i \<in> logged l" if "i < n_logged l" for i using that by (auto simp: logged_def)
  have c: "log_start l \<in> log_area l" by (auto simp: log_area_def)
  show "log_dev l \<noteq> 0" "card (refd k) + 2 \<le> NBUF" using assms by (auto simp: log_ready_def)
  have d: "\<And>b. b \<in> log_area l \<Longrightarrow> \<not> k_busy k (log_dev l) b" "\<And>b. b \<in> logged l \<Longrightarrow> \<not> k_busy k (log_dev l) b"
    "\<And>b. b \<in> log_area l \<Longrightarrow> b \<notin> logged l" using assms by (auto simp: log_ready_def)
  show "i < n_logged l \<Longrightarrow> \<not> k_busy k (log_dev l) (log_start l + i + 1)" by (rule d(1) [OF a])
  show "i < n_logged l \<Longrightarrow> \<not> k_busy k (log_dev l) (nth_logged l i)" by (rule d(2) [OF b])
  show "i < n_logged l \<Longrightarrow> j < n_logged l \<Longrightarrow> log_start l + i + 1 \<noteq> nth_logged l j" using d(3) [OF a] b by metis
  show "\<not> k_busy k (log_dev l) (log_start l)" by (rule d(1) [OF c])
  show "j < n_logged l \<Longrightarrow> log_start l \<noteq> nth_logged l j" using d(3) [OF c] b by metis
qed

lemma log_ready_writes [simp]: "log_ready l (k_writes k ws) = log_ready l k"
  by (simp add: log_ready_def)

definition to_log :: "log \<Rightarrow> (nat \<Rightarrow> nat \<Rightarrow> u8 list) \<Rightarrow> nat list \<Rightarrow> (nat \<times> nat \<times> u8 list) list" where
  "to_log l v is = map (\<lambda>i. (log_dev l, log_start l + i + 1, v (log_dev l) (nth_logged l i))) is"

definition to_home :: "log \<Rightarrow> (nat \<Rightarrow> nat \<Rightarrow> u8 list) \<Rightarrow> nat list \<Rightarrow> (nat \<times> nat \<times> u8 list) list" where
  "to_home l v is = map (\<lambda>i. (log_dev l, nth_logged l i, v (log_dev l) (log_start l + i + 1))) is"

lemma wp_write_log:
  assumes "cache_inv s" and "quiet s" and r: "log_ready (klog s) (babs s)"
  shows "wp write_log (\<lambda>_ t. cache_inv t \<and> bframe s t \<and>
    babs t = k_writes (babs s) (to_log (klog s) (k_view (babs s)) [0..<n_logged (klog s)])) s"
proof -
  let ?l = "klog s" let ?W = "to_log ?l (k_view (babs s))"
  let ?I = "\<lambda>is t. cache_inv t \<and> bframe s t \<and> babs t = k_writes (babs s) (?W is)"
  note rd = log_readyD [OF r]
  let ?F = "\<lambda>i. if LOGBLOCKS \<le> i then undefK ''log.lh.block'' else
       bindK (bread (log_dev ?l) (log_start ?l + i + 1)) (\<lambda>to.
       bindK (bread (log_dev ?l) (nth_logged ?l i)) (\<lambda>from. blockK [
         bindK (getsK (\<lambda>s. b_data (bufs s from))) (put_data to), bwrite to, brelse from, brelse to]))"
  have step: "wp (?F i) (\<lambda>_. ?I (done @ [i])) t" if "[0..<n_logged ?l] = done @ i # rest" and I: "?I done t" for "done" i rest t
  proof -
    have i: "i < n_logged ?l" "set done \<subseteq> {..<n_logged ?l}" using upt_split [OF that(1)] by auto
    have "nth_logged ?l i \<noteq> log_start ?l + j + 1" if "j \<in> set done" for j
      using rd(5) [of j i] i that by fastforce
    then have "(log_dev ?l, nth_logged ?l i, x) \<notin> set (?W done)" for x by (auto simp: to_log_def)
    then have b: "k_view (babs t) (log_dev ?l) (nth_logged ?l i) = k_view (babs s) (log_dev ?l) (nth_logged ?l i)"
      using I by (simp add: apply_writes_other)
    have "wp (bindK (bread (log_dev ?l) (log_start ?l + i + 1)) (\<lambda>to.
       bindK (bread (log_dev ?l) (nth_logged ?l i)) (\<lambda>from. blockK [
         bindK (getsK (\<lambda>s. b_data (bufs s from))) (put_data to), bwrite to, brelse from, brelse to])))
      (\<lambda>_. ?I (done @ [i])) t"
      by (rule wp_mono [OF bc.copy_to_log])
        (use I i rd assms(2) b in \<open>auto simp: k_writes_one to_log_def intro: bframe_trans bframe_quiet\<close>)
    then show ?thesis using i(1) rd(2) by simp
  qed
  have "wp (forK [0..<n_logged ?l] ?F) (\<lambda>_. ?I [0..<n_logged ?l]) s"
  proof (rule wp_forK [where I = ?I])
    show "?I [] s" using assms(1) by (simp add: to_log_def)
  qed (rule step)
  then show ?thesis unfolding write_log_def n_logged_def nth_logged_def by simp
qed

text \<open>Installing drops one reference of each home block when it is not a recovery.\<close>

definition drop_refs :: "(nat \<Rightarrow> nat \<Rightarrow> int) \<Rightarrow> nat \<Rightarrow> nat set \<Rightarrow> nat \<Rightarrow> nat \<Rightarrow> int" where
  "drop_refs r d B = (\<lambda>d' n. if d' = d \<and> n \<in> B then r d' n - 1 else r d' n)"

lemma drop_refs_simps [simp]:
  "drop_refs r d {} = r"
  "n \<notin> B \<Longrightarrow> upd2 (drop_refs r d B) d n (r d n - 1) = drop_refs r d (insert n B)"
  "n \<notin> B \<Longrightarrow> drop_refs r d B d n = r d n"
  by (auto simp: drop_refs_def upd2_def fun_eq_iff)

lemma refd_drop_refs: "refd (k\<lparr>k_refs := drop_refs (k_refs k) d B\<rparr>) \<subseteq> refd k"
  by (auto simp: refd_def drop_refs_def split: if_splits)

definition k_install :: "bool \<Rightarrow> log \<Rightarrow> blocks \<Rightarrow> nat list \<Rightarrow> blocks" where
  "k_install un l k is = (k_writes k (to_home l (k_view k) is))\<lparr>
     k_refs := (if un then drop_refs (k_refs k) (log_dev l) (nth_logged l ` set is) else k_refs k)\<rparr>"

lemma k_install_simps [simp]:
  "k_busy (k_install un l k is) = k_busy k"
  "k_view (k_install un l k is) = apply_writes (k_view k) (to_home l (k_view k) is)"
  "k_disk (k_install un l k is) = apply_writes (k_disk k) (to_home l (k_view k) is)"
  "k_trace (k_install un l k is) = k_trace k @ to_home l (k_view k) is"
  by (simp_all add: k_install_def)

lemma k_install_rec: "k_install False l k is = k_writes k (to_home l (k_view k) is)"
  by (cases k) (simp add: k_install_def k_writes_def)

lemma refd_k_install: "refd (k_install un l k is) \<subseteq> refd k"
  using refd_drop_refs [of "k_writes k (to_home l (k_view k) is)"] by (auto simp: k_install_def refd_def)

lemma k_install_step:
  assumes "nth_logged l i \<notin> nth_logged l ` set is" and "v = k_view k (log_dev l) (log_start l + i + 1)"
  shows "(k_install un l k is)\<lparr>k_view := upd2 (k_view (k_install un l k is)) (log_dev l) (nth_logged l i) v,
       k_refs := upd2 (k_refs (k_install un l k is)) (log_dev l) (nth_logged l i)
          (k_refs (k_install un l k is) (log_dev l) (nth_logged l i) - (if un then 1 else 0)),
       k_disk := upd2 (k_disk (k_install un l k is)) (log_dev l) (nth_logged l i) v,
       k_trace := k_trace (k_install un l k is) @ [(log_dev l, nth_logged l i, v)]\<rparr>
     = k_install un l k (is @ [i])"
  using assms by (cases k) (auto simp: k_install_def k_writes_def to_home_def upd2_id)

lemma fmt_recovering: "\<exists>out. fmt_out (''recovering tail %d dst %d'' @ nl) [VInt x, VInt y] = Some out"
  by (simp add: fmt_out.simps conversions_def conv_out_def)

lemma wp_recovering:
  assumes "\<And>U. Q () (s\<lparr>uart := U\<rparr>)" and "quiet s"
  shows "wp (whenK r (printf (''recovering tail %d dst %d'' @ nl) [VInt x, VInt y])) Q s"
proof -
  obtain out where "fmt_out (''recovering tail %d dst %d'' @ nl) [VInt x, VInt y] = Some out"
    using fmt_recovering by blast
  then have "wp (printf (''recovering tail %d dst %d'' @ nl) [VInt x, VInt y]) Q s"
    by (rule wp_printf [rotated 2]) (use assms in \<open>auto simp: quiet_def emit_def\<close>)
  moreover have "Q () s" using assms(1) [of "uart s"] by simp
  ultimately show ?thesis by simp
qed

lemma wp_install_trans:
  assumes "cache_inv s" and "quiet s" and r: "log_ready (klog s) (babs s)"
    and pin: "\<And>b. \<not> rec \<Longrightarrow> b \<in> logged (klog s) \<Longrightarrow> k_refs (babs s) (log_dev (klog s)) b > 0"
  shows "wp (install_trans rec) (\<lambda>_ t. cache_inv t \<and> lframe s t \<and> klog t = klog s \<and>
    babs t = k_install (\<not> rec) (klog s) (babs s) [0..<n_logged (klog s)]) s"
proof -
  let ?l = "klog s" let ?d = "log_dev ?l" and ?k = "k_install (\<not> rec) ?l (babs s)"
  let ?I = "\<lambda>is t. cache_inv t \<and> lframe s t \<and> klog t = ?l \<and> babs t = ?k is"
  let ?B = "\<lambda>i. bindK (bread ?d (log_start ?l + i + 1)) (\<lambda>lbuf. bindK (bread ?d (nth_logged ?l i)) (\<lambda>dbuf. blockK [
          bindK (getsK (\<lambda>s. b_data (bufs s lbuf))) (put_data dbuf), bwrite dbuf, whenK (\<not> rec) (bunpin dbuf),
          brelse lbuf, brelse dbuf]))"
  note rd = log_readyD [OF r]
  have step: "wp (?B i) (\<lambda>_. ?I (done @ [i])) t"
    if d: "[0..<n_logged ?l] = done @ i # rest" and I: "?I done t" for "done" i rest t
  proof -
    have i: "i < n_logged ?l" "set done \<subseteq> {..<n_logged ?l}" "i \<notin> set done" using upt_split [OF d] by auto
    have "log_start ?l + i + 1 \<noteq> nth_logged ?l j" if "j \<in> set done" for j
      using rd(5) [of i j] i that by auto
    then have "(?d, log_start ?l + i + 1, x) \<notin> set (to_home ?l (k_view (babs s)) done)" for x
      by (auto simp: to_home_def)
    then have v: "k_view (babs t) ?d (log_start ?l + i + 1) = k_view (babs s) ?d (log_start ?l + i + 1)"
      using I by (simp add: apply_writes_other)
    have "nth_logged ?l i \<noteq> nth_logged ?l j" if "j \<in> set done" for j
      using r i that unfolding log_ready_def inj_on_def by blast
    then have fresh: "nth_logged ?l i \<notin> nth_logged ?l ` set done" by blast
    have refs: "\<not> rec \<Longrightarrow> k_refs (babs t) ?d (nth_logged ?l i) > 0"
      using pin [of "nth_logged ?l i"] I fresh i(1) by (simp add: k_install_def logged_def)
    have "card (refd (babs t)) \<le> card (refd (babs s))"
      using I refd_k_install finite_refd [OF assms(1)] by (simp add: card_mono)
    then have room: "card (refd (babs t)) + 2 \<le> NBUF" using rd(8) by simp
    have q: "quiet t" using I assms(2) lframe_quiet by blast
    show ?thesis
      by (rule wp_mono [OF bc.copy_home [OF _ q rd(1) _ _ rd(5) room refs]])
        (use I i(1) rd(3,4) k_install_step [OF fresh v, of "\<not> rec"] in
          \<open>auto simp: bframe_simps intro: lframe_trans lframe_bframe\<close>)
  qed
  let ?F = "\<lambda>i. if LOGBLOCKS \<le> i then undefK ''log.lh.block'' else
       thenK (whenK rec (printf (''recovering tail %d dst %d'' @ nl) [VInt (of_nat i), VInt (of_nat (nth_logged ?l i))])) (?B i)"
  have body: "wp (?F i) (\<lambda>_. ?I (done @ [i])) t" if d: "[0..<n_logged ?l] = done @ i # rest" and I: "?I done t" for "done" i rest t
  proof -
    have "wp (whenK rec (printf (''recovering tail %d dst %d'' @ nl) [VInt (of_nat i), VInt (of_nat (nth_logged ?l i))]))
        (\<lambda>_. wp (?B i) (\<lambda>_. ?I (done @ [i]))) t"
      by (rule wp_recovering, rule step [OF d]) (use I assms(2) in \<open>auto intro: lframe_trans lframe_quiet\<close>)
    moreover have "\<not> LOGBLOCKS \<le> i" using upt_split [OF d] rd(2) by simp
    ultimately show ?thesis by (simp only: if_False wp_then)
  qed
  have "wp (forK [0..<n_logged ?l] ?F) (\<lambda>_. ?I [0..<n_logged ?l]) s"
  proof (rule wp_forK [where I = ?I])
    show "?I [] s" using assms(1) by (simp add: k_install_def to_home_def)
  qed (rule body)
  then show ?thesis unfolding install_trans_def n_logged_def nth_logged_def by simp
qed

section \<open>Commit and recovery\<close>

lemma wp_write_head:
  assumes "cache_inv s" and "quiet s" and r: "log_ready (klog s) (babs s)"
  shows "wp write_head (\<lambda>_ t. cache_inv t \<and> bframe s t \<and> babs t = k_writes (babs s)
    [(log_dev (klog s), log_start (klog s),
      fill_head (log_lh (klog s)) (k_view (babs s) (log_dev (klog s)) (log_start (klog s))))]) s"
proof -
  note rd = log_readyD [OF r]
  have ok: "lh_ok (log_lh (klog s))" using r by (simp add: log_ready_def)
  have room: "has_room (babs s) (log_dev (klog s)) (log_start (klog s))" using rd(8) by (simp add: has_room_def)
  have n: "\<not> LOGBLOCKS < nat (lh_n (log_lh (klog s)))" using rd(2) by (simp add: n_logged_def)
  show ?thesis unfolding write_head_def wp_bind wp_gets
    using bc.write_through [OF assms(1,2) rd(1,6) room, of "fill_head (log_lh (klog s))"] head_fill(1) [OF ok] n
    by (simp add: Let_def k_writes_one)
qed

lemma log_ready_install: 
  assumes "finite (refd k)"
  shows "log_ready l k \<Longrightarrow> log_ready l (k_install un l' k is)"
  using card_mono [OF assms refd_k_install [of un l' k "is"]] by (auto simp: log_ready_def)

definition home_writes :: "log \<Rightarrow> (nat \<Rightarrow> nat \<Rightarrow> u8 list) \<Rightarrow> nat list \<Rightarrow> (nat \<times> nat \<times> u8 list) list" where
  "home_writes l v is = map (\<lambda>i. (log_dev l, nth_logged l i, v (log_dev l) (nth_logged l i))) is"

definition commit_writes :: "log \<Rightarrow> (nat \<Rightarrow> nat \<Rightarrow> u8 list) \<Rightarrow> (nat \<times> nat \<times> u8 list) list" where
  "commit_writes l v = (let h1 = fill_head (log_lh l) (v (log_dev l) (log_start l)) in
     to_log l v [0..<n_logged l] @ [(log_dev l, log_start l, h1)] @ home_writes l v [0..<n_logged l] @
     [(log_dev l, log_start l, fill_head ((log_lh l)\<lparr>lh_n := 0\<rparr>) h1)])"

lemma inj_log_slots: "inj_on (\<lambda>i. log_start l + i + 1) A"
  by (auto simp: inj_on_def)

lemma to_log_other:
  "n \<notin> log_area l \<Longrightarrow> set is \<subseteq> {..<LOGBLOCKS} \<Longrightarrow> apply_writes D (to_log l v is) d n = D d n"
  "apply_writes D (to_log l v is) (log_dev l) (log_start l) = D (log_dev l) (log_start l)"
  by (fastforce simp: to_log_def log_area_def intro!: apply_writes_other)+

lemma to_log_slot:
  "i \<in> set is \<Longrightarrow> apply_writes D (to_log l v is) (log_dev l) (log_start l + i + 1) = v (log_dev l) (nth_logged l i)"
  unfolding to_log_def by (rule apply_writes_map [OF inj_log_slots])

lemmas to_log_slot_Suc = to_log_slot [simplified]

lemma home_other:
  "n \<notin> nth_logged l ` set is \<Longrightarrow> apply_writes D (home_writes l v is) d n = D d n"
  by (auto simp: home_writes_def intro!: apply_writes_other)

lemma home_slot:
  "inj_on (nth_logged l) {..<n_logged l} \<Longrightarrow> set is \<subseteq> {..<n_logged l} \<Longrightarrow> i \<in> set is \<Longrightarrow>
   apply_writes D (home_writes l v is) (log_dev l) (nth_logged l i) = v (log_dev l) (nth_logged l i)"
  unfolding home_writes_def
  by (rule apply_writes_map [where v = "\<lambda>i. v (log_dev l) (nth_logged l i)"]) (auto intro: inj_on_subset)

lemma to_home_after_log:
  assumes "\<And>i. i < n_logged l \<Longrightarrow> log_start l + i + 1 \<noteq> log_start l"
    and "is = [0..<n_logged l]"
  shows "to_home l (apply_writes v (to_log l v is @ [(log_dev l, log_start l, x)])) is = home_writes l v is"
  using assms(2) by (auto simp: to_home_def home_writes_def upd2_apply to_log_slot_Suc)

lemma wp_commit:
  assumes inv: "cache_inv s" and q: "quiet s" and r: "log_ready (klog s) (babs s)"
    and pin: "\<And>b. b \<in> logged (klog s) \<Longrightarrow> k_refs (babs s) (log_dev (klog s)) b > 0"
    and pos: "lh_n (log_lh (klog s)) > 0"
  shows "wp commit (\<lambda>_ t. cache_inv t \<and> lframe s t \<and>
    klog t = (klog s)\<lparr>log_lh := (log_lh (klog s))\<lparr>lh_n := 0\<rparr>\<rparr> \<and>
    babs t = (k_writes (babs s) (commit_writes (klog s) (k_view (babs s))))\<lparr>
      k_refs := drop_refs (k_refs (babs s)) (log_dev (klog s)) (logged (klog s))\<rparr>) s"
proof -
  let ?l = "klog s" let ?d = "log_dev ?l" and ?st = "log_start ?l" and ?v = "k_view (babs s)" and ?is = "[0..<n_logged ?l]"
  let ?W1 = "to_log ?l ?v ?is" let ?h1 = "fill_head (log_lh ?l) (?v ?d ?st)"
  let ?W2 = "?W1 @ [(?d, ?st, ?h1)]" let ?k2 = "k_writes (babs s) ?W2" let ?k3 = "k_install True ?l ?k2 ?is"
  let ?lz = "?l\<lparr>log_lh := (log_lh ?l)\<lparr>lh_n := 0\<rparr>\<rparr>"
  let ?P = "\<lambda>l k t. cache_inv t \<and> lframe s t \<and> klog t = l \<and> babs t = k"
  have 1: "wp write_log (\<lambda>_. ?P ?l (k_writes (babs s) ?W1)) s"
    by (rule wp_mono [OF wp_write_log [OF inv q r]]) (auto simp: bframe_simps intro: lframe_bframe)
  have 2: "wp write_head (\<lambda>_. ?P ?l ?k2) t" if "?P ?l (k_writes (babs s) ?W1) t" for t
    by (rule wp_mono [OF wp_write_head])
      (use that q r to_log_other(2) in \<open>auto simp: bframe_simps intro: lframe_trans lframe_quiet lframe_bframe\<close>)
  have 3: "wp (install_trans False) (\<lambda>_. ?P ?l ?k3) t" if "?P ?l ?k2 t" for t
    by (rule wp_mono [OF wp_install_trans])
      (use that q r pin in \<open>auto intro: lframe_trans lframe_quiet\<close>)
  have home: "to_home ?l (k_view ?k2) ?is = home_writes ?l ?v ?is"
    using to_home_after_log [of ?l ?is ?v ?h1] by simp
  have r0: "log_ready ?lz ?k3" 
  proof -
    have "log_ready ?l ?k3" using r inv by (intro log_ready_install) auto
    then show ?thesis by (auto simp: log_ready_def lh_ok_def n_logged_def logged_def log_area_def)
  qed
  have st: "?st \<notin> nth_logged ?l ` set ?is" using log_readyD(7) [OF r] by fastforce
  have "apply_writes ?v ?W2 ?d ?st = ?h1" by (simp add: upd2_apply)
  then have v3: "k_view ?k3 ?d ?st = ?h1" using home home_other [OF st] by simp
  have 4: "wp write_head (\<lambda>_. ?P ?lz (k_writes ?k3 [(?d, ?st, fill_head ((log_lh ?l)\<lparr>lh_n := 0\<rparr>) ?h1)])) (t\<lparr>klog := ?lz\<rparr>)"
    if "?P ?l ?k3 t" for t
    by (rule wp_mono [OF wp_write_head])
      (use that q r0 v3 in \<open>auto simp: bframe_simps intro: lframe_quiet lframe_klog_bframe\<close>)
  have k4: "k_writes ?k3 [(?d, ?st, fill_head ((log_lh ?l)\<lparr>lh_n := 0\<rparr>) ?h1)]
     = (k_writes (babs s) (commit_writes ?l ?v))\<lparr>k_refs := drop_refs (k_refs (babs s)) ?d (logged ?l)\<rparr>"
    using home by (cases "babs s") (simp add: k_install_def commit_writes_def Let_def k_writes_def logged_def atLeast0LessThan)
  have 5: "wp (upd_lh (\<lambda>h. h\<lparr>lh_n := 0\<rparr>)) (\<lambda>_ u. u = t\<lparr>klog := ?lz\<rparr>) t" if "?P ?l ?k3 t" for t
    using that by (simp add: upd_lh_def upd_log_def)
  show ?thesis unfolding commit_def wp_bind wp_gets wp_when wp_block_Cons wp_block_Nil using pos k4
    by simp (rule wp_mono [OF 1], rule wp_mono [OF 2], assumption, rule wp_mono [OF 3], assumption,
      rule wp_mono [OF 5], assumption, simp, rule wp_mono [OF 4], assumption, simp)
qed

text \<open>Recovery, as a function of the disk.\<close>

definition head_ok :: "nat \<Rightarrow> u8 list \<Rightarrow> bool" where
  "head_ok st h \<longleftrightarrow> 0 \<le> head_n h \<and> head_n h \<le> int LOGBLOCKS \<and> inj_on (head_block h) {..<nat (head_n h)} \<and>
     head_block h ` {..<nat (head_n h)} \<inter> {st .. st + LOGBLOCKS} = {}"

definition rec_disk :: "nat \<Rightarrow> nat \<Rightarrow> (nat \<Rightarrow> nat \<Rightarrow> u8 list) \<Rightarrow> nat \<Rightarrow> nat \<Rightarrow> u8 list" where
  "rec_disk d st D = (let h = D d st;
     D1 = apply_writes D (map (\<lambda>i. (d, head_block h i, D d (st + i + 1))) [0..<nat (head_n h)])
     in upd2 D1 d st (put_field 4 h 0 0))"

lemma fold_set_nth:
  "n \<le> length xs \<Longrightarrow> length (fold (\<lambda>i xs. xs[i := f i]) [0..<n] xs) = length xs \<and>
   (\<forall>i<n. fold (\<lambda>i xs. xs[i := f i]) [0..<n] xs ! i = f i)"
  by (induction n) (auto simp: nth_list_update less_Suc_eq)

lemma run_head_loop:
  assumes "n \<le> LOGBLOCKS"
  shows "forK [0..<n] (\<lambda>i. if LOGBLOCKS \<le> i then undefK ''log.lh.block''
         else upd_lh (\<lambda>h. h\<lparr>lh_block := (lh_block h)[i := f i]\<rparr>)) s
    = Ret () (s\<lparr>klog := (klog s)\<lparr>log_lh := (log_lh (klog s))\<lparr>lh_block :=
        fold (\<lambda>i xs. xs[i := f i]) [0..<n] (lh_block (log_lh (klog s)))\<rparr>\<rparr>\<rparr>)"
proof -
  let ?g = "\<lambda>i. if LOGBLOCKS \<le> i then undefK ''log.lh.block'' else upd_lh (\<lambda>h. h\<lparr>lh_block := (lh_block h)[i := f i]\<rparr>)"
  let ?s = "\<lambda>is. s\<lparr>klog := (klog s)\<lparr>log_lh := (log_lh (klog s))\<lparr>lh_block :=
        fold (\<lambda>i xs. xs[i := f i]) is (lh_block (log_lh (klog s)))\<rparr>\<rparr>\<rparr>"
  have "wp (forK [0..<n] ?g) (\<lambda>_ t. t = ?s [0..<n]) s"
  proof (rule wp_forK [where I = "\<lambda>is t. t = ?s is"])
    fix "done" i rest t
    assume d: "[0..<n] = done @ i # rest" and "t = ?s done"
    then show "wp (?g i) (\<lambda>_ t. t = ?s (done @ [i])) t"
      using upt_split [OF d] assms by (simp add: upd_lh_def upd_log_def)
  qed simp
  then show ?thesis by (auto elim: wpE)
qed

lemma wp_read_head:
  assumes inv: "cache_inv s" and q: "quiet s" and d: "log_dev (klog s) \<noteq> 0"
    and "\<not> k_busy (babs s) (log_dev (klog s)) (log_start (klog s))"
    and "has_room (babs s) (log_dev (klog s)) (log_start (klog s))"
    and h: "h = k_view (babs s) (log_dev (klog s)) (log_start (klog s))"
    and n: "head_n h \<le> int LOGBLOCKS" and len: "length (lh_block (log_lh (klog s))) = LOGBLOCKS"
  shows "wp read_head (\<lambda>_ t. cache_inv t \<and> lframe s t \<and> babs t = babs s \<and>
    (\<exists>bl. klog t = (klog s)\<lparr>log_lh := \<lparr>lh_n = head_n h, lh_block = bl\<rparr>\<rparr> \<and> length bl = LOGBLOCKS \<and>
          (\<forall>i<nat (head_n h). bl ! i = head_block h i))) s"
proof -
  let ?l = "klog s" let ?d = "log_dev ?l" and ?st = "log_start ?l" and ?n = "nat (head_n h)"
  let ?bl = "fold (\<lambda>i xs. xs[i := head_block h i]) [0..<?n] (lh_block (log_lh ?l))"
  have bl: "length ?bl = LOGBLOCKS" "\<forall>i<?n. ?bl ! i = head_block h i"
    using fold_set_nth [of ?n "lh_block (log_lh ?l)"] n len by auto
  let ?l1 = "?l\<lparr>log_lh := (log_lh ?l)\<lparr>lh_n := head_n h, lh_block := ?bl\<rparr>\<rparr>"
  let ?R = "\<lambda>_ u. cache_inv u \<and> lframe s u \<and> babs u = babs s \<and> klog u = ?l1"
  let ?C = "\<lambda>b x. blockK [upd_lh (\<lambda>h'. h'\<lparr>lh_n := head_n x\<rparr>), forK [0..<nat (head_n x)] (\<lambda>i. if LOGBLOCKS \<le> i then undefK ''log.lh.block''
         else upd_lh (\<lambda>h'. h'\<lparr>lh_block := (lh_block h')[i := head_block x i]\<rparr>)), brelse b]"
  have main: "wp (bindK (getsK (\<lambda>s. b_data (bufs s b))) (?C b)) ?R t"
    if t: "has_buf t b ?d ?st \<and> keeps_bufs s t ?d ?st \<and> cache_inv t \<and> bframe s t \<and>
      babs t = (babs s)\<lparr>k_refs := upd2 (k_refs (babs s)) ?d ?st (k_refs (babs s) ?d ?st + 1),
                         k_busy := upd2 (k_busy (babs s)) ?d ?st True\<rparr>" for b t
  proof -
    let ?t = "t\<lparr>klog := ?l1\<rparr>"
    have k: "klog t = ?l" using t by (simp add: bframe_simps)
    have dat: "b_data (bufs t b) = h" using bc.dat_spec [of t b ?d ?st] t h by simp
    have "wp (brelse b) (\<lambda>_ u. keeps_bufs ?t u ?d ?st \<and> cache_inv u \<and> bframe ?t u \<and>
        babs u = (babs ?t)\<lparr>k_refs := upd2 (k_refs (babs ?t)) ?d ?st (k_refs (babs ?t) ?d ?st - 1),
           k_busy := upd2 (k_busy (babs ?t)) ?d ?st False\<rparr>) ?t"
    proof (rule bc.rl_spec)
      show "k_refs (babs ?t) ?d ?st > 1 \<or> k_view (babs ?t) ?d ?st = k_disk (babs ?t) ?d ?st"
        using bc.clean [OF inv, of ?d ?st] bc.refs_nonneg [OF inv, of ?d ?st] t
        by (cases "k_refs (babs s) ?d ?st = 0") auto
    qed (use t q bframe_quiet in auto)
    moreover have "upd2 (k_busy (babs s)) ?d ?st False = k_busy (babs s)"
      using assms(4) upd2_id [of "k_busy (babs s)" ?d ?st] by simp
    moreover have "lframe s ?t" by (rule lframe_trans [OF lframe_bframe lframe_klog]) (use t in blast)
    ultimately have "wp (brelse b) ?R ?t"
      using t by (auto simp: bframe_simps elim!: wp_mono intro: lframe_trans lframe_bframe)
    then show ?thesis using n len k dat by (simp add: upd_lh_def upd_log_def wp_Ret [OF run_head_loop])
  qed
  have "wp read_head ?R s" unfolding read_head_def wp_bind [of "getsK klog"] wp_gets
    by (subst wp_bind) (rule wp_mono [OF bc.rd_spec [OF inv q d assms(4,5)] main])
  then show ?thesis by (rule wp_mono) (use bl in \<open>cases "log_lh ?l", auto\<close>)
qed

lemma fill_head_0: "lh_n h = 0 \<Longrightarrow> fill_head h x = put_field 4 x 0 0"
  by (simp add: fill_head_def)

lemma head_block_bound: "head_block h i < 2 ^ 32"
  using get_field_bound [of 4 h "4 * (i + 1)"] by (simp add: head_block_def)

text \<open>A cache in which nothing is referenced or checked out, as after booting.\<close>

definition fresh_cache :: "kstate \<Rightarrow> bool" where
  "fresh_cache s \<longleftrightarrow> cache_inv s \<and> k_refs (babs s) = (\<lambda>_ _. 0) \<and> k_busy (babs s) = (\<lambda>_ _. False)"

lemma fresh_view: "fresh_cache s \<Longrightarrow> k_view (babs s) = k_disk (babs s)"
  by (intro ext) (simp add: fresh_cache_def cache_clean)

lemma wp_recover:
  assumes f: "fresh_cache s" and q: "quiet s" and d: "log_dev (klog s) = d" "log_start (klog s) = st" "d \<noteq> 0"
    and h: "head_ok st (disk s d st)" and len: "length (lh_block (log_lh (klog s))) = LOGBLOCKS"
  shows "wp recover_from_log (\<lambda>_ t. fresh_cache t \<and> lframe s t \<and> disk t = rec_disk d st (disk s) \<and>
    lh_n (log_lh (klog t)) = 0 \<and> log_dev (klog t) = d \<and> log_start (klog t) = st) s"
proof -
  let ?h = "disk s d st" let ?n = "nat (head_n ?h)" let ?is = "[0..<?n]"
  have inv: "cache_inv s" and refs: "k_refs (babs s) = (\<lambda>_ _. 0)" and busy: "k_busy (babs s) = (\<lambda>_ _. False)"
    using f by (auto simp: fresh_cache_def)
  have view: "k_view (babs s) = disk s" using fresh_view [OF f] by (simp add: babs_def)
  have kd: "k_disk (babs s) = disk s" by (simp add: babs_def)
  have room: "refd (babs s) = {}" by (simp add: refd_def refs)
  have 1: "wp read_head (\<lambda>_ t. cache_inv t \<and> lframe s t \<and> babs t = babs s \<and>
    (\<exists>bl. klog t = (klog s)\<lparr>log_lh := \<lparr>lh_n = head_n ?h, lh_block = bl\<rparr>\<rparr> \<and> length bl = LOGBLOCKS \<and>
          (\<forall>i<?n. bl ! i = head_block ?h i))) s"
    using h by (intro wp_read_head) (use inv q d len busy room view in \<open>auto simp: head_ok_def has_room_def NBUF_def MAXOPBLOCKS_def\<close>)
  have "wp (blockK [install_trans True, upd_lh (\<lambda>h. h\<lparr>lh_n := 0\<rparr>), write_head]) (\<lambda>_ t. fresh_cache t \<and> lframe s t \<and>
      disk t = rec_disk d st (disk s) \<and> lh_n (log_lh (klog t)) = 0 \<and> log_dev (klog t) = d \<and> log_start (klog t) = st) u"
    if u: "cache_inv u" "lframe s u" "babs u = babs s" and l: "klog u = (klog s)\<lparr>log_lh := \<lparr>lh_n = head_n ?h, lh_block = bl\<rparr>\<rparr>"
      and bl: "length bl = LOGBLOCKS" "\<forall>i<?n. bl ! i = head_block ?h i" for u bl
  proof -
    let ?l = "klog u" let ?W = "map (\<lambda>i. (d, head_block ?h i, disk s d (st + i + 1))) ?is"
    let ?lz = "?l\<lparr>log_lh := (log_lh ?l)\<lparr>lh_n := 0\<rparr>\<rparr>" let ?k = "k_writes (babs s) ?W"
    have n: "n_logged ?l = ?n" "?n \<le> LOGBLOCKS" using h by (auto simp: n_logged_def l head_ok_def)
    have nl: "nth_logged ?l i = head_block ?h i" if "i < ?n" for i using bl that by (simp add: nth_logged_def l)
    have dl: "log_dev ?l = d" "log_start ?l = st" using d by (auto simp: l)
    have lg: "logged ?l = head_block ?h ` {..<?n}" using nl by (auto simp: logged_def n)
    have "b < 2 ^ 32" if "b \<in> set (take ?n bl)" for b
      using that bl n(2) head_block_bound [of ?h] by (auto simp: in_set_conv_nth)
    then have "lh_ok (log_lh ?l)" using h bl by (auto simp: lh_ok_def l head_ok_def)
    moreover have "inj_on (nth_logged ?l) {..<n_logged ?l}" using h nl by (auto simp: head_ok_def n inj_on_def)
    ultimately have r: "log_ready ?l (babs u)"
      using h d(3) by (auto simp: log_ready_def u(3) busy room dl lg log_area_def head_ok_def NBUF_def MAXOPBLOCKS_def)
    have W: "to_home ?l (disk s) ?is = ?W" by (auto simp: to_home_def dl nl)
    have k: "k_install False ?l (babs s) ?is = ?k" by (simp only: k_install_rec view W)
    have 2: "wp (install_trans True) (\<lambda>_ t. cache_inv t \<and> lframe s t \<and> klog t = ?l \<and> babs t = ?k) u"
      by (rule wp_mono [OF wp_install_trans [OF u(1) _ r]])
        (use u q n k in \<open>auto intro: lframe_trans lframe_quiet\<close>)
    have st: "st \<notin> head_block ?h ` {..<?n}" using h by (auto simp: head_ok_def)
    then have at_st: "apply_writes (disk s) ?W d st = ?h" by (intro apply_writes_other) auto
    have rz: "log_ready ?lz ?k" using r
      by (auto simp: log_ready_def u(3) lh_ok_def n_logged_def logged_def log_area_def)
    have 3: "wp write_head (\<lambda>_ t. cache_inv t \<and> lframe s t \<and> klog t = ?lz \<and> babs t = k_writes ?k [(d, st, put_field 4 ?h 0 0)]) (t\<lparr>klog := ?lz\<rparr>)"
      if "cache_inv t \<and> lframe s t \<and> klog t = ?l \<and> babs t = ?k" for t
      by (rule wp_mono [OF wp_write_head])
        (use that q rz at_st in \<open>auto simp: bframe_simps fill_head_0 dl view intro: lframe_quiet lframe_klog_bframe\<close>)
    have fin: "fresh_cache t \<and> disk t = rec_disk d st (disk s)"
      if "cache_inv t" "babs t = k_writes ?k [(d, st, put_field 4 ?h 0 0)]" for t
    proof -
      have "disk t = k_disk (babs t)" by (simp add: babs_def)
      then show ?thesis using that by (simp add: fresh_cache_def refs busy rec_disk_def Let_def kd)
    qed
    have 4: "wp (upd_lh (\<lambda>h. h\<lparr>lh_n := 0\<rparr>)) (\<lambda>_ v. v = t\<lparr>klog := ?lz\<rparr>) t" if "klog t = ?l" for t
      using that by (simp add: upd_lh_def upd_log_def)
    show ?thesis unfolding wp_block_Cons wp_block_Nil
    proof (rule wp_mono [OF 2], rule wp_mono [OF 4])
      fix t v x assume t: "cache_inv t \<and> lframe s t \<and> klog t = ?l \<and> babs t = ?k" and v: "v = t\<lparr>klog := ?lz\<rparr>"
      show "wp write_head (\<lambda>_ t. fresh_cache t \<and> lframe s t \<and> disk t = rec_disk d st (disk s) \<and> lh_n (log_lh (klog t)) = 0 \<and>
          log_dev (klog t) = d \<and> log_start (klog t) = st) v"
        unfolding v by (rule wp_mono [OF 3 [OF t]]) (use fin dl in auto)
    qed blast
  qed
  then show ?thesis unfolding recover_from_log_def blockK.simps(2) [of read_head] wp_bind [of read_head]
    by (intro wp_mono [OF 1]) blast
qed

section \<open>Crashes\<close>

text \<open>The prefixes of the writes of a commit, in terms of where the crash happens.\<close>

lemma take_commit_writes:
  obtains (before) j where "j \<le> n_logged l" and "take k (commit_writes l v) = to_log l v [0..<j]"
  | (during) j where "j \<le> n_logged l" and "take k (commit_writes l v) = to_log l v [0..<n_logged l] @
      [(log_dev l, log_start l, fill_head (log_lh l) (v (log_dev l) (log_start l)))] @ home_writes l v [0..<j]"
  | (after) "take k (commit_writes l v) = commit_writes l v"
proof -
  let ?n = "n_logged l"
  have len: "length (to_log l v xs) = length xs" "length (home_writes l v xs) = length xs" for xs
    by (auto simp: to_log_def home_writes_def)
  have tk: "take j (to_log l v [0..<?n]) = to_log l v [0..<min j ?n]"
    "take j (home_writes l v [0..<?n]) = home_writes l v [0..<min j ?n]" for j
    by (auto simp: to_log_def home_writes_def take_map take_upt min_def)
  consider "k \<le> ?n" | "?n < k" "k \<le> Suc (2 * ?n)" | "Suc (2 * ?n) < k" by linarith
  then show thesis
  proof cases
    case 1
    then show ?thesis using before [of k] by (simp add: commit_writes_def Let_def len tk min_def)
  next
    case 2
    then have "k - ?n = Suc (k - ?n - 1)" "k - ?n - 1 \<le> ?n" by auto
    then show ?thesis using during [of "k - ?n - 1"] 2
      by (cases "k - ?n") (auto simp: commit_writes_def Let_def len tk min_def)
  next
    case 3
    then have "length (commit_writes l v) \<le> k" by (simp add: commit_writes_def Let_def len)
    then show ?thesis using after by simp
  qed
qed

lemma rec_disk_clear: "head_n (D d st) = 0 \<Longrightarrow> b \<noteq> st \<Longrightarrow> rec_disk d st D d b = D d b"
  by (simp add: rec_disk_def upd2_apply)

lemma rec_disk_replay:
  assumes "D d st = h" and "inj_on (head_block h) {..<nat (head_n h)}" and "b \<noteq> st"
    and "\<And>i. i < nat (head_n h) \<Longrightarrow> D d (st + i + 1) = w (head_block h i)"
  shows "rec_disk d st D d b = (if b \<in> head_block h ` {..<nat (head_n h)} then w b else D d b)"
proof -
  let ?W = "map (\<lambda>i. (d, head_block h i, D d (st + i + 1))) [0..<nat (head_n h)]"
  have "apply_writes D ?W d b = (if b \<in> head_block h ` {..<nat (head_n h)} then w b else D d b)"
  proof (cases "b \<in> head_block h ` {..<nat (head_n h)}")
    case True
    then obtain i where i: "i < nat (head_n h)" "b = head_block h i" by auto
    then have "apply_writes D ?W d (head_block h i) = D d (st + i + 1)"
      using assms(2) by (intro apply_writes_map [where v = "\<lambda>i. D d (st + i + 1)"]) (auto simp: atLeast0LessThan)
    with i assms(4) True show ?thesis by simp
  next
    case False
    then show ?thesis by (auto intro!: apply_writes_other)
  qed
  then show ?thesis using assms(1,3) by (simp add: rec_disk_def Let_def upd2_apply)
qed

definition new_content :: "log \<Rightarrow> blocks \<Rightarrow> nat \<Rightarrow> u8 list" where
  "new_content l k b = (if b \<in> logged l then k_view k (log_dev l) b else k_disk k (log_dev l) b)"

lemma crash_disk:
  assumes r: "log_ready l k" and clr: "k_view k (log_dev l) (log_start l) = k_disk k (log_dev l) (log_start l)"
      "head_n (k_disk k (log_dev l) (log_start l)) = 0" "length (k_view k (log_dev l) (log_start l)) = BSIZE"
    and D: "D = apply_writes (k_disk k) (take j (commit_writes l (k_view k)))"
  shows "head_ok (log_start l) (D (log_dev l) (log_start l)) \<and>
    ((\<forall>b. b \<notin> log_area l \<longrightarrow> rec_disk (log_dev l) (log_start l) D (log_dev l) b = k_disk k (log_dev l) b) \<or>
     (\<forall>b. b \<notin> log_area l \<longrightarrow> rec_disk (log_dev l) (log_start l) D (log_dev l) b = new_content l k b))"
proof -
  let ?d = "log_dev l" and ?st = "log_start l" and ?n = "n_logged l" and ?v = "k_view k"
  let ?h = "fill_head (log_lh l) (?v ?d ?st)"
  have ok: "lh_ok (log_lh l)" and inj: "inj_on (nth_logged l) {..<?n}" and dis: "logged l \<inter> log_area l = {}"
    using r by (auto simp: log_ready_def)
  note rd = log_readyD [OF r] and hf = head_fill [OF ok clr(3)]
  have hn: "nat (head_n ?h) = ?n" "\<And>i. i < ?n \<Longrightarrow> head_block ?h i = nth_logged l i"
    using hf by (auto simp: n_logged_def nth_logged_def)
  have ar: "b \<noteq> ?st" if "b \<notin> log_area l" for b using that by (auto simp: log_area_def)
  have sub: "set [0..<i] \<subseteq> {..<LOGBLOCKS}" if "i \<le> ?n" for i using that rd(2) by auto
  have st: "?st \<notin> nth_logged l ` set [0..<i]" if "i \<le> ?n" for i
  proof
    assume "?st \<in> nth_logged l ` set [0..<i]"
    then obtain x where "x < i" "?st = nth_logged l x" by auto
    then show False using rd(7) [of x] that by simp
  qed
  have imgh: "head_block ?h ` {..<?n} = logged l" using hn(2) by (auto simp: logged_def)
  from take_commit_writes [of l j ?v] show ?thesis
  proof cases
    case (before i)
    have "D ?d ?st = k_disk k ?d ?st" unfolding D before(2) by (rule to_log_other(2))
    then have z: "head_n (D ?d ?st) = 0" using clr(2) by simp
    have "rec_disk ?d ?st D ?d b = k_disk k ?d b" if "b \<notin> log_area l" for b
      using rec_disk_clear [of D ?d ?st b, OF z ar [OF that]] to_log_other(1) [OF that sub [OF before(1)]]
      by (simp add: D before(2))
    then show ?thesis using z by (simp add: head_ok_def)
  next
    case (during i)
    let ?D1 = "upd2 (apply_writes (k_disk k) (to_log l ?v [0..<?n])) ?d ?st ?h"
    have D': "D = apply_writes ?D1 (home_writes l ?v [0..<i])" unfolding D during(2) by simp
    have dst: "D ?d ?st = ?h" unfolding D' using home_other [OF st [OF during(1)]] by (simp add: upd2_apply)
    have slot: "D ?d (?st + x + 1) = ?v ?d (nth_logged l x)" if x: "x < ?n" for x
    proof -
      have "?st + x + 1 \<notin> nth_logged l ` set [0..<i]" 
      proof
        assume "?st + x + 1 \<in> nth_logged l ` set [0..<i]"
        then obtain y where "y < i" "?st + x + 1 = nth_logged l y" by auto
        then show False using rd(5) [OF x, of y] during(1) by simp
      qed
      then show ?thesis unfolding D' using home_other [of "?st + x + 1"] to_log_slot [of x "[0..<?n]"] x
        by (simp add: upd2_apply)
    qed
    have home: "D ?d b = (if b \<in> nth_logged l ` {..<i} then ?v ?d b else k_disk k ?d b)" if b: "b \<notin> log_area l" for b
    proof (cases "b \<in> nth_logged l ` {..<i}")
      case True
      then obtain x where "x < i" "b = nth_logged l x" by auto
      moreover have "set [0..<i] \<subseteq> {..<?n}" using during(1) by auto
      ultimately show ?thesis unfolding D' using home_slot [OF inj, of "[0..<i]" x] by auto
    next
      case False
      then show ?thesis unfolding D' using home_other [of b l "[0..<i]"] ar [OF b] to_log_other(1) [OF b sub [of ?n]]
        by (simp add: upd2_apply atLeast0LessThan)
    qed
    have "rec_disk ?d ?st D ?d b = new_content l k b" if b: "b \<notin> log_area l" for b
      using rec_disk_replay [of D ?d ?st ?h b "?v ?d"] dst inj hn slot home [OF b] ar [OF b] imgh during(1)
      by (auto simp: new_content_def inj_on_def logged_def)
    moreover have "head_ok ?st (D ?d ?st)"
      unfolding dst using hn hf(2) ok inj dis imgh by (auto simp: head_ok_def lh_ok_def inj_on_def log_area_def)
    ultimately show ?thesis by blast
  next
    case after
    let ?D1 = "upd2 (apply_writes (k_disk k) (to_log l ?v [0..<?n])) ?d ?st ?h"
    let ?h2 = "fill_head ((log_lh l)\<lparr>lh_n := 0\<rparr>) ?h"
    have D': "D = upd2 (apply_writes ?D1 (home_writes l ?v [0..<?n])) ?d ?st ?h2"
      unfolding D after by (simp add: commit_writes_def Let_def)
    have "lh_ok ((log_lh l)\<lparr>lh_n := 0\<rparr>)" using ok by (auto simp: lh_ok_def)
    then have z: "head_n (D ?d ?st) = 0" unfolding D' using head_fill(2) [OF _ hf(1)] by (simp add: upd2_apply)
    have "rec_disk ?d ?st D ?d b = new_content l k b" if b: "b \<notin> log_area l" for b
    proof (cases "b \<in> logged l")
      case True
      then obtain x where "x < ?n" "b = nth_logged l x" by (auto simp: logged_def)
      then show ?thesis using rec_disk_clear [of D ?d ?st b, OF z ar [OF b]] home_slot [OF inj, of "[0..<?n]" x] ar [OF b] True
        by (simp add: D' upd2_apply new_content_def atLeast0LessThan)
    next
      case False
      then show ?thesis using rec_disk_clear [of D ?d ?st b, OF z ar [OF b]] home_other [of b l "[0..<?n]"]
          ar [OF b] to_log_other(1) [OF b sub [of ?n]]
        by (simp add: D' upd2_apply new_content_def logged_def atLeast0LessThan)
    qed
    then show ?thesis using z by (simp add: head_ok_def)
  qed
qed

section \<open>Adding a block\<close>

lemma absorb_bounds:
  "n \<le> length xs \<Longrightarrow> absorb bn xs n \<le> n \<and> (absorb bn xs n < n \<longleftrightarrow> bn \<in> set (take n xs)) \<and>
   (absorb bn xs n < n \<longrightarrow> xs ! absorb bn xs n = bn)"
  by (induction bn xs n rule: absorb.induct) auto

lemma wp_log_write:
  assumes inv: "cache_inv s" and h: "has_buf s b d n" and lk: "LogLock \<notin> set (held s)" "BcacheLock \<notin> set (held s)"
    and ok: "lh_ok (log_lh (klog s))" and room: "lh_n (log_lh (klog s)) < int LOGBLOCKS" and out: "1 \<le> log_outstanding (klog s)"
  shows "wp (log_write b) (\<lambda>_ t. cache_inv t \<and> lframe s t \<and> has_buf t b d n \<and> keeps_bufs s t d n \<and>
    (if n \<in> logged (klog s) then klog t = klog s \<and> babs t = babs s
     else klog t = (klog s)\<lparr>log_lh := \<lparr>lh_n = lh_n (log_lh (klog s)) + 1,
            lh_block = (lh_block (log_lh (klog s)))[n_logged (klog s) := n]\<rparr>\<rparr> \<and>
          babs t = (babs s)\<lparr>k_refs := upd2 (k_refs (babs s)) d n (k_refs (babs s) d n + 1)\<rparr>)) s"
proof -
  let ?l = "klog s" let ?n = "n_logged ?l" and ?bs = "lh_block (log_lh ?l)"
  let ?i = "absorb n ?bs ?n"
  have bn: "b_blockno (bufs s b) = n" using has_buf_facts [OF inv h] by simp
  have len: "?n < length ?bs" "int ?n = lh_n (log_lh ?l)" using ok room by (auto simp: lh_ok_def n_logged_def)
  note ab = absorb_bounds [of ?n ?bs n]
  have lg: "logged ?l = set (take ?n ?bs)"
    using len by (simp add: logged_def nth_logged_def [abs_def] nth_image [symmetric] atLeast0LessThan)
  show ?thesis
  proof (cases "n \<in> logged ?l")
    case True
    then have "?i < ?n" "?bs ! ?i = n" using ab lg len by auto
    moreover then have "?bs[?i := n] = ?bs" by (metis list_update_id)
    ultimately show ?thesis using lk out room bn inv h True len
      by (simp add: log_write_def upd_lh_def upd_log_def n_logged_def [symmetric] keeps_bufs_def)
  next
    case False
    then have i: "?i = ?n" using ab lg len by auto
    let ?G = "?l\<lparr>log_lh := (log_lh ?l)\<lparr>lh_block := ?bs[?n := n]\<rparr>\<rparr>"
    let ?s = "s\<lparr>held := LogLock # held s, klog := ?G\<rparr>"
    have "wp (bpin b) (\<lambda>_ t. has_buf t b d n \<and> keeps_bufs ?s t d n \<and>
        bstep ?s t (\<lambda>k. k\<lparr>k_refs := upd2 (k_refs k) d n (k_refs k d n + 1)\<rparr>)) ?s"
      by (rule bpin_spec) (use inv h lk in auto)
    then have "wp (bpin b) (\<lambda>_ t. wp (blockK [upd_lh (\<lambda>h. h\<lparr>lh_n := lh_n h + 1\<rparr>), release LogLock])
      (\<lambda>_ t. cache_inv t \<and> lframe s t \<and> has_buf t b d n \<and> keeps_bufs s t d n \<and>
        klog t = ?l\<lparr>log_lh := \<lparr>lh_n = lh_n (log_lh ?l) + 1, lh_block = ?bs[?n := n]\<rparr>\<rparr> \<and>
          babs t = (babs s)\<lparr>k_refs := upd2 (k_refs (babs s)) d n (k_refs (babs s) d n + 1)\<rparr>) t) ?s"
    proof (rule wp_mono)
      fix x t
      assume t: "has_buf t b d n \<and> keeps_bufs ?s t d n \<and> bstep ?s t (\<lambda>k. k\<lparr>k_refs := upd2 (k_refs k) d n (k_refs k d n + 1)\<rparr>)"
      then have fr: "bframe ?s t" by (simp add: bstep_def)
      have fr2: "lframe s (t\<lparr>klog := G, held := held s\<rparr>)" for G
      proof -
        obtain P L B D T where "t = ?s\<lparr>procs := P, slocks := L, bufs := B, disk := D, dtrace := T\<rparr>"
            "\<forall>i. L (InodeLock i) = slocks ?s (InodeLock i)"
            "\<forall>p. P p = procs ?s p \<or> Some p \<noteq> cur ?s \<and> p_state (procs ?s p) = SLEEPING \<and>
            P p = (procs ?s p)\<lparr>p_state := RUNNABLE\<rparr>"
          using fr unfolding bframe_def by blast
        then show ?thesis unfolding lframe_def bframe_def
          by (intro exI [of _ G] exI [of _ "uart s"] exI [of _ P] exI [of _ L] exI [of _ B] exI [of _ D] exI [of _ T]) simp
      qed
      have "(log_lh ?l)\<lparr>lh_block := ?bs[?n := n], lh_n := lh_n (log_lh ?l) + 1\<rparr>
          = \<lparr>lh_n = lh_n (log_lh ?l) + 1, lh_block = ?bs[?n := n]\<rparr>" by (cases "log_lh ?l") simp
      moreover have "keeps_bufs s t d n" using t by (simp add: keeps_bufs_def)
      ultimately show "wp (blockK [upd_lh (\<lambda>h. h\<lparr>lh_n := lh_n h + 1\<rparr>), release LogLock])
      (\<lambda>_ t. cache_inv t \<and> lframe s t \<and> has_buf t b d n \<and> keeps_bufs s t d n \<and>
        klog t = ?l\<lparr>log_lh := \<lparr>lh_n = lh_n (log_lh ?l) + 1, lh_block = ?bs[?n := n]\<rparr>\<rparr> \<and>
          babs t = (babs s)\<lparr>k_refs := upd2 (k_refs (babs s)) d n (k_refs (babs s) d n + 1)\<rparr>) t"
        using t bframe_simps(2,3) [OF fr] fr2 by (simp add: bstep_def upd_lh_def upd_log_def keeps_bufs_def)
    qed
    moreover have "wp (log_write b) Q s
        = wp (bpin b) (\<lambda>_. wp (blockK [upd_lh (\<lambda>h. h\<lparr>lh_n := lh_n h + 1\<rparr>), release LogLock]) Q) ?s" for Q
    proof -
      have "wp (release LogLock) Q = (\<lambda>s. LogLock \<in> set (held s) \<and> Q () (s\<lparr>held := remove1 LogLock (held s)\<rparr>))"
        by (rule ext) simp
      then show ?thesis
        using lk out room bn i len by (simp add: log_write_def upd_lh_def upd_log_def n_logged_def [symmetric])
    qed
    ultimately show ?thesis by (simp only: False if_False)
  qed
qed

section \<open>Properties\<close>

lemma initlog_recovers:
  assumes "fresh_cache u" and "quiet u" and "d \<noteq> 0" and "head_ok (sb_logstart sb) (disk u d (sb_logstart sb))"
    and "length (lh_block (log_lh (klog u))) = LOGBLOCKS"
  shows "wp (initlog d sb) (\<lambda>_ t. fresh_cache t \<and> disk t = rec_disk d (sb_logstart sb) (disk u) \<and> lh_n (log_lh (klog t)) = 0) u"
proof -
  let ?G = "(klog u)\<lparr>log_start := sb_logstart sb, log_dev := d\<rparr>"
  have "wp recover_from_log (\<lambda>_ t. fresh_cache t \<and> disk t = rec_disk d (sb_logstart sb) (disk u) \<and> lh_n (log_lh (klog t)) = 0) (u\<lparr>klog := ?G\<rparr>)"
    by (rule wp_mono [OF wp_recover [where d = d and st = "sb_logstart sb"]])
      (use assms in \<open>auto simp: fresh_cache_def\<close>)
  then show ?thesis by (simp add: initlog_def upd_log_def LOGBLOCKS_def MAXOPBLOCKS_def BSIZE_def)
qed

text \<open>
  C1. Transactions are atomic with respect to crashes: \<open>commit\<close> issues a sequence \<open>W\<close> of block
  writes, and if the machine stops after any number of them and boots again, \<open>initlog\<close> recovers
  a disk on which the blocks outside the log area are either all as they were before the commit or all as
  the transaction left them, and the log is empty. The transaction fits the cache (two
  buffers can be recycled), its blocks are pinned, distinct and outside the log area, and the header on disk was clear.
\<close>

theorem log_crash_atomic:
  assumes "cache_inv s" and "quiet s" and "log_ready (klog s) (babs s)"
    and "\<And>b. b \<in> logged (klog s) \<Longrightarrow> k_refs (babs s) (log_dev (klog s)) b > 0"
    and "lh_n (log_lh (klog s)) > 0"
    and "k_refs (babs s) (log_dev (klog s)) (log_start (klog s)) = 0"
    and "head_n (disk s (log_dev (klog s)) (log_start (klog s))) = 0"
  shows "wp commit (\<lambda>_ t. \<exists>W. dtrace t = dtrace s @ W \<and> disk t = apply_writes (disk s) W \<and>
    (\<forall>j u sb. fresh_cache u \<and> quiet u \<and> length (lh_block (log_lh (klog u))) = LOGBLOCKS \<and>
        disk u = apply_writes (disk s) (take j W) \<and> sb_logstart sb = log_start (klog s) \<longrightarrow>
      wp (initlog (log_dev (klog s)) sb) (\<lambda>_ v. lh_n (log_lh (klog v)) = 0 \<and>
        ((\<forall>b. b \<notin> log_area (klog s) \<longrightarrow> disk v (log_dev (klog s)) b = disk s (log_dev (klog s)) b) \<or>
         (\<forall>b. b \<notin> log_area (klog s) \<longrightarrow> disk v (log_dev (klog s)) b = new_content (klog s) (babs s) b))) u)) s"
proof (rule wp_mono [OF wp_commit [OF assms(1-5)]])
  let ?l = "klog s" let ?W = "commit_writes ?l (k_view (babs s))"
  have kd: "k_disk (babs u) = disk u" "k_trace (babs u) = dtrace u" for u by (simp_all add: babs_def)
  fix x t
  assume t: "cache_inv t \<and> lframe s t \<and> klog t = ?l\<lparr>log_lh := (log_lh ?l)\<lparr>lh_n := 0\<rparr>\<rparr> \<and>
    babs t = (k_writes (babs s) ?W)\<lparr>k_refs := drop_refs (k_refs (babs s)) (log_dev ?l) (logged ?l)\<rparr>"
  have crash: "head_ok (log_start ?l) (D (log_dev ?l) (log_start ?l)) \<and>
    ((\<forall>b. b \<notin> log_area ?l \<longrightarrow> rec_disk (log_dev ?l) (log_start ?l) D (log_dev ?l) b = disk s (log_dev ?l) b) \<or>
     (\<forall>b. b \<notin> log_area ?l \<longrightarrow> rec_disk (log_dev ?l) (log_start ?l) D (log_dev ?l) b = new_content ?l (babs s) b))"
    if "D = apply_writes (disk s) (take j ?W)" for D j
  proof -
    have z: "head_n (k_disk (babs s) (log_dev ?l) (log_start ?l)) = 0" using assms(7) by (simp add: kd)
    from crash_disk [OF assms(3) cache_clean [OF assms(1,6)] z bc.view_length [OF assms(1)], of D j] that
    show ?thesis by (simp only: kd)
  qed
  have dev: "log_dev ?l \<noteq> 0" using assms(3) by (simp add: log_ready_def)
  show "\<exists>W. dtrace t = dtrace s @ W \<and> disk t = apply_writes (disk s) W \<and>
    (\<forall>j u sb. fresh_cache u \<and> quiet u \<and> length (lh_block (log_lh (klog u))) = LOGBLOCKS \<and>
        disk u = apply_writes (disk s) (take j W) \<and> sb_logstart sb = log_start ?l \<longrightarrow>
      wp (initlog (log_dev ?l) sb) (\<lambda>_ v. lh_n (log_lh (klog v)) = 0 \<and>
        ((\<forall>b. b \<notin> log_area ?l \<longrightarrow> disk v (log_dev ?l) b = disk s (log_dev ?l) b) \<or>
         (\<forall>b. b \<notin> log_area ?l \<longrightarrow> disk v (log_dev ?l) b = new_content ?l (babs s) b))) u)"
  proof (intro exI [of _ ?W] conjI allI impI)
    show "dtrace t = dtrace s @ ?W" using t kd(2) [of t] kd(2) [of s] by simp
    show "disk t = apply_writes (disk s) ?W" using t kd(1) [of t] kd(1) [of s] by simp
    fix j u and sb :: superblock
    assume u: "fresh_cache u \<and> quiet u \<and> length (lh_block (log_lh (klog u))) = LOGBLOCKS \<and>
        disk u = apply_writes (disk s) (take j ?W) \<and> sb_logstart sb = log_start ?l"
    show "wp (initlog (log_dev ?l) sb) (\<lambda>_ v. lh_n (log_lh (klog v)) = 0 \<and>
        ((\<forall>b. b \<notin> log_area ?l \<longrightarrow> disk v (log_dev ?l) b = disk s (log_dev ?l) b) \<or>
         (\<forall>b. b \<notin> log_area ?l \<longrightarrow> disk v (log_dev ?l) b = new_content ?l (babs s) b))) u"
      by (rule wp_mono [OF initlog_recovers]) (use u dev crash [of "disk u" j] in auto)
  qed
qed

lemma logged_state:
  obtains s where "cache_inv s" and "quiet s" and "log_ready (klog s) (babs s)" and "logged (klog s) = {100}"
    and "k_refs (babs s) = upd2 (\<lambda>_ _. 0) 1 100 1" and "log_dev (klog s) = 1" and "log_start (klog s) = 2"
    and "lh_n (log_lh (klog s)) = 1" and "disk s = (\<lambda>_ _. replicate BSIZE 0)"
proof -
  let ?k = "\<lparr>k_view = (\<lambda>_ _. replicate BSIZE 0), k_refs = (\<lambda>_ _. 0),
     k_busy = (\<lambda>_ _. False), k_disk = (\<lambda>_ _. replicate BSIZE 0), k_trace = []\<rparr> :: blocks"
  obtain s where s: "cache_inv s" "quiet s" "babs s = ?k" using booted_cache by blast
  have r: "has_room (babs s) 1 100" by (simp add: s(3) has_room_def refd_def const_defs)
  obtain b t where t: "has_buf t b 1 100" "cache_inv t" "bframe s t" "babs t = ?k\<lparr>k_refs := upd2 (\<lambda>_ _. 0) 1 100 1,
                        k_busy := upd2 (\<lambda>_ _. False) 1 100 True\<rparr>"
    using bc.rd_spec [OF s(1,2) _ _ r] by (auto simp: s(3) wp_iff)
  have "wp (bpin b) (\<lambda>_ u. has_buf u b 1 100 \<and> keeps_bufs t u 1 100 \<and>
      bstep t u (\<lambda>k. k\<lparr>k_refs := upd2 (k_refs k) 1 100 (k_refs k 1 100 + 1)\<rparr>)) t"
    by (rule bpin_spec [OF t(2,1)]) (use bframe_quiet [OF t(3) s(2)] in \<open>simp add: quiet_def\<close>)
  then obtain u where u: "has_buf u b 1 100" "cache_inv u" "bframe t u" "babs u = ?k\<lparr>k_refs := upd2 (\<lambda>_ _. 0) 1 100 2,
                        k_busy := upd2 (\<lambda>_ _. False) 1 100 True\<rparr>"
    by (auto simp: wp_iff bstep_def t(4) upd2_apply)
  have qu: "quiet u" using bframe_quiet [OF u(3) bframe_quiet [OF t(3) s(2)]] .
  have "wp (brelse b) (\<lambda>_ v. keeps_bufs u v 1 100 \<and> cache_inv v \<and> bframe u v \<and>
        babs v = (babs u)\<lparr>k_refs := upd2 (k_refs (babs u)) 1 100 (k_refs (babs u) 1 100 - 1),
                        k_busy := upd2 (k_busy (babs u)) 1 100 False\<rparr>) u"
    by (rule bc.rl_spec [OF u(2) qu u(1)]) (simp add: u(4) upd2_apply)
  then obtain v where v: "cache_inv v" "bframe u v" "babs v = ?k\<lparr>k_refs := upd2 (\<lambda>_ _. 0) 1 100 1\<rparr>"
    by (auto simp: wp_iff u(4) upd2_apply bc.upd2_False)
  let ?G = "zero_log\<lparr>log_start := 2, log_dev := 1, log_lh := \<lparr>lh_n = 1, lh_block = 100 # replicate 29 0\<rparr>\<rparr>"
  have rf: "refd (babs v) = {(1, 100)}" by (auto simp: refd_def v(3) upd2_def split: if_splits)
  have lg: "logged ?G = {100}" by (auto simp: logged_def nth_logged_def n_logged_def)
  have "log_ready ?G (babs v)"
    unfolding log_ready_def rf lg by (auto simp: v(3) lh_ok_def n_logged_def log_area_def const_defs inj_on_def)
  moreover have "quiet v" using bframe_quiet [OF v(2) qu] .
  moreover have "disk v = k_disk (babs v)" by (simp add: babs_def)
  ultimately show thesis by (intro that [of "v\<lparr>klog := ?G\<rparr>"]) (use v lg in auto)
qed

lemma head_n_zero: "head_n (replicate BSIZE 0) = 0"
  by (simp add: head_n_def get_field_def)

theorem log_crash_atomic_witness:
  "\<exists>s t W. lh_n (log_lh (klog s)) = 1 \<and> commit s = Ret () t \<and> dtrace t = dtrace s @ W \<and> disk t = apply_writes (disk s) W"
proof -
  obtain s where s: "cache_inv s" "quiet s" "log_ready (klog s) (babs s)" "logged (klog s) = {100}"
    "k_refs (babs s) = upd2 (\<lambda>_ _. 0) 1 100 1" "log_dev (klog s) = 1" "log_start (klog s) = 2"
    "lh_n (log_lh (klog s)) = 1" "disk s = (\<lambda>_ _. replicate BSIZE 0)" by (rule logged_state)
  have "wp commit (\<lambda>_ t. \<exists>W. dtrace t = dtrace s @ W \<and> disk t = apply_writes (disk s) W) s"
    by (rule wp_mono [OF log_crash_atomic [OF s(1-3)]]) (use s(4-9) head_n_zero in \<open>auto simp: upd2_apply\<close>)
  then show ?thesis using s(8) by (auto simp: wp_iff)
qed

text \<open>
  C10. \<open>log_write\<close> of a checked-out block inside a transaction with space left: if the block is
  already in the transaction nothing changes (absorption); otherwise it is appended to the list of logged
  blocks and its buffer is pinned by one more reference. The cached contents, the disk and every
  other block stay as they were.
\<close>

theorem log_write_absorbs:
  assumes "cache_inv s" and "has_buf s b d n" and "LogLock \<notin> set (held s)" and "BcacheLock \<notin> set (held s)"
    and "lh_ok (log_lh (klog s))" and "lh_n (log_lh (klog s)) < int LOGBLOCKS" and "1 \<le> log_outstanding (klog s)"
  shows "wp (log_write b) (\<lambda>_ t. cache_inv t \<and> lframe s t \<and> has_buf t b d n \<and>
    (if n \<in> logged (klog s) then klog t = klog s \<and> babs t = babs s
     else klog t = (klog s)\<lparr>log_lh := \<lparr>lh_n = lh_n (log_lh (klog s)) + 1,
            lh_block = (lh_block (log_lh (klog s)))[n_logged (klog s) := n]\<rparr>\<rparr> \<and>
          babs t = (babs s)\<lparr>k_refs := upd2 (k_refs (babs s)) d n (k_refs (babs s) d n + 1)\<rparr>)) s"
  by (rule wp_mono [OF wp_log_write [OF assms(1-7)]]) auto

theorem log_write_absorbs_witness:
  "\<exists>s b t. lh_n (log_lh (klog s)) = 0 \<and> log_write b s = Ret () t \<and> lh_n (log_lh (klog t)) = 1"
proof -
  obtain s where s: "cache_inv s" "quiet s" "babs s = \<lparr>k_view = (\<lambda>_ _. replicate BSIZE 0), k_refs = (\<lambda>_ _. 0),
     k_busy = (\<lambda>_ _. False), k_disk = (\<lambda>_ _. replicate BSIZE 0), k_trace = []\<rparr>" using booted_cache by blast
  have r: "has_room (babs s) 1 100" by (simp add: s(3) has_room_def refd_def const_defs)
  obtain b t where t: "has_buf t b 1 100" "cache_inv t" "bframe s t"
    using bc.rd_spec [OF s(1,2) _ _ r] by (auto simp: s(3) wp_iff)
  let ?t = "t\<lparr>klog := zero_log\<lparr>log_outstanding := 1\<rparr>\<rparr>"
  have "wp (log_write b) (\<lambda>_ u. cache_inv u \<and> lframe ?t u \<and> has_buf u b 1 100 \<and>
    (if 100 \<in> logged (klog ?t) then klog u = klog ?t \<and> babs u = babs ?t
     else klog u = (klog ?t)\<lparr>log_lh := \<lparr>lh_n = lh_n (log_lh (klog ?t)) + 1,
            lh_block = (lh_block (log_lh (klog ?t)))[n_logged (klog ?t) := 100]\<rparr>\<rparr> \<and>
          babs u = (babs ?t)\<lparr>k_refs := upd2 (k_refs (babs ?t)) 1 100 (k_refs (babs ?t) 1 100 + 1)\<rparr>)) ?t"
    by (rule log_write_absorbs) (use t bframe_quiet [OF t(3) s(2)] in \<open>auto simp: quiet_def zero_log_def lh_ok_def const_defs\<close>)
  then obtain u where "log_write b ?t = Ret () u" "lh_n (log_lh (klog u)) = 1"
    by (auto simp: wp_iff logged_def n_logged_def zero_log_def)
  then show ?thesis by (intro exI [of _ ?t] exI [of _ b] exI [of _ u]) (simp add: zero_log_def)
qed

end
