(* ===== verification/Vm.thy ===== *)
theory Vm
  imports Kalloc Printf
begin

text \<open>
  Page tables and copies between user and kernel memory (\<open>vm.c\<close>, \<open>proc_mapstacks\<close> of
  \<open>proc.c\<close>, \<open>either_copyout\<close> and \<open>either_copyin\<close> of \<open>proc.c\<close>).

  A page table is the physical address of its root page; entries are 64-bit words of \<open>mem\<close>. A
  null page-table entry pointer is \<open>None\<close>; a null physical address is 0 as in C. Kernel buffers
  are byte lists: \<open>copyout\<close> takes the bytes it copies, \<open>copyin\<close> and \<open>copyinstr\<close> return the
  status together with the bytes that reached the destination, also when they fail half-way.
  The loops over pages run over the list of their page addresses; \<open>freewalk\<close>, which recurses
  through the levels of the table, takes the number of levels.
\<close>

section \<open>Page-table entries\<close>

definition PTE_V :: u64 where "PTE_V = 1"
definition PTE_R :: u64 where "PTE_R = 2"
definition PTE_W :: u64 where "PTE_W = 4"
definition PTE_X :: u64 where "PTE_X = 8"
definition PTE_U :: u64 where "PTE_U = 16"

definition PA2PTE :: "u64 \<Rightarrow> u64" where
  "PA2PTE pa = push_bit 10 (drop_bit 12 pa)"

definition PTE2PA :: "u64 \<Rightarrow> u64" where
  "PTE2PA pte = push_bit 12 (drop_bit 10 pte)"

definition PTE_FLAGS :: "u64 \<Rightarrow> u64" where
  "PTE_FLAGS pte = pte AND 0x3FF"

definition PX :: "nat \<Rightarrow> u64 \<Rightarrow> u64" where
  "PX level va = drop_bit (12 + 9 * level) va AND 0x1FF"

definition MAKE_SATP :: "u64 \<Rightarrow> u64" where
  "MAKE_SATP pagetable = push_bit 60 8 OR drop_bit 12 pagetable"

definition UART0 :: u64 where "UART0 = 0x10000000"
definition VIRTIO0 :: u64 where "VIRTIO0 = 0x10001000"
definition PLIC :: u64 where "PLIC = 0x0c000000"

definition pte_addr :: "u64 \<Rightarrow> nat \<Rightarrow> u64 \<Rightarrow> u64" where
  "pte_addr pagetable level va = pagetable + 8 * PX level va"

definition load_mem :: "u64 \<Rightarrow> u64 kern" where
  "load_mem a = getsK (\<lambda>s. load64 (mem s) a)"

definition store_mem :: "u64 \<Rightarrow> u64 \<Rightarrow> unit kern" where
  "store_mem a w = modifyK (\<lambda>s. s\<lparr>mem := store64 (mem s) a w\<rparr>)"

definition zero_page :: "u64 \<Rightarrow> unit kern" where
  "zero_page p = modifyK (\<lambda>s. s\<lparr>mem := memset (mem s) p 0 PGSIZE\<rparr>)"

definition put_mem :: "u64 \<Rightarrow> u8 list \<Rightarrow> unit kern" where
  "put_mem a bs = modifyK (\<lambda>s. s\<lparr>mem := write_bytes (mem s) a bs\<rparr>)"

section \<open>Page tables\<close>

primrec walk_levels :: "nat \<Rightarrow> u64 \<Rightarrow> u64 \<Rightarrow> bool \<Rightarrow> u64 option kern" where
  "walk_levels 0 pagetable va alloc = returnK (Some (pte_addr pagetable 0 va))"
| "walk_levels (Suc level) pagetable va alloc =
     (let pte = pte_addr pagetable (Suc level) va in
      bindK (load_mem pte) (\<lambda>v.
        if v AND PTE_V \<noteq> 0 then walk_levels level (PTE2PA v) va alloc
        else if \<not> alloc then returnK None
        else bindK kalloc (\<lambda>p.
          if p = 0 then returnK None
          else thenK (blockK [zero_page p, store_mem pte (PA2PTE p OR PTE_V)])
            (walk_levels level p va alloc))))"

definition walk :: "u64 \<Rightarrow> u64 \<Rightarrow> bool \<Rightarrow> u64 option kern" where
  "walk pagetable va alloc =
     (if va \<ge> MAXVA then panicK ''walk'' else walk_levels 2 pagetable va alloc)"

definition walkaddr :: "u64 \<Rightarrow> u64 \<Rightarrow> u64 kern" where
  "walkaddr pagetable va =
     (if va \<ge> MAXVA then returnK 0
      else bindK (walk pagetable va False) (\<lambda>r. case r of
          None \<Rightarrow> returnK 0
        | Some pte \<Rightarrow> bindK (load_mem pte) (\<lambda>v.
            if v AND PTE_V = 0 then returnK 0
            else if v AND PTE_U = 0 then returnK 0
            else returnK (PTE2PA v))))"

text \<open>The addresses visited by \<open>for(a = lo; a < hi; a += PGSIZE)\<close>.\<close>

definition page_range :: "u64 \<Rightarrow> u64 \<Rightarrow> u64 list" where
  "page_range lo hi = (if lo < hi
     then map (\<lambda>i. lo + of_nat (4096 * i)) [0..<(unat (hi - lo) + 4095) div 4096] else [])"

primrec mappages_loop :: "u64 \<Rightarrow> u64 list \<Rightarrow> u64 \<Rightarrow> u64 \<Rightarrow> int kern" where
  "mappages_loop pagetable [] pa perm = returnK 0"
| "mappages_loop pagetable (a # as) pa perm =
     bindK (walk pagetable a True) (\<lambda>r. case r of
         None \<Rightarrow> returnK (-1)
       | Some pte \<Rightarrow> bindK (load_mem pte) (\<lambda>v.
           if v AND PTE_V \<noteq> 0 then panicK ''mappages: remap''
           else thenK (store_mem pte (PA2PTE pa OR perm OR PTE_V))
             (mappages_loop pagetable as (pa + of_nat PGSIZE) perm)))"

definition mappages :: "u64 \<Rightarrow> u64 \<Rightarrow> u64 \<Rightarrow> u64 \<Rightarrow> u64 \<Rightarrow> int kern" where
  "mappages pagetable va sz pa perm =
     (if va mod of_nat PGSIZE \<noteq> 0 then panicK ''mappages: va not aligned''
      else if sz mod of_nat PGSIZE \<noteq> 0 then panicK ''mappages: size not aligned''
      else if sz = 0 then panicK ''mappages: size''
      else mappages_loop pagetable (map (\<lambda>i. va + of_nat (4096 * i)) [0..<unat sz div 4096]) pa perm)"

definition kvmmap :: "u64 \<Rightarrow> u64 \<Rightarrow> u64 \<Rightarrow> u64 \<Rightarrow> u64 \<Rightarrow> unit kern" where
  "kvmmap kpgtbl va pa sz perm = bindK (mappages kpgtbl va sz pa perm) (\<lambda>r.
     if r \<noteq> 0 then panicK ''kvmmap'' else returnK ())"

definition proc_mapstacks :: "u64 \<Rightarrow> unit kern" where
  "proc_mapstacks kpgtbl = forK [0..<NPROC] (\<lambda>p.
     bindK kalloc (\<lambda>pa. if pa = 0 then panicK ''kalloc''
       else kvmmap kpgtbl (KSTACK p) pa (of_nat PGSIZE) (PTE_R OR PTE_W)))"

text \<open>\<open>kvmmake\<close> does not test its first \<open>kalloc\<close>: with no memory it would write through null.\<close>

definition kvmmake :: "u64 kern" where
  "kvmmake = bindK kalloc (\<lambda>kpgtbl. if kpgtbl = 0 then undefK ''kvmmake: null page table'' else
     bindK (getsK (\<lambda>s. (etext s, trampoline s))) (\<lambda>(et, tr). thenK (blockK [
       zero_page kpgtbl,
       kvmmap kpgtbl UART0 UART0 (of_nat PGSIZE) (PTE_R OR PTE_W),
       kvmmap kpgtbl VIRTIO0 VIRTIO0 (of_nat PGSIZE) (PTE_R OR PTE_W),
       kvmmap kpgtbl PLIC PLIC 0x4000000 (PTE_R OR PTE_W),
       kvmmap kpgtbl KERNBASE KERNBASE (et - KERNBASE) (PTE_R OR PTE_X),
       kvmmap kpgtbl et et (PHYSTOP - et) (PTE_R OR PTE_W),
       kvmmap kpgtbl TRAMPOLINE tr (of_nat PGSIZE) (PTE_R OR PTE_X),
       proc_mapstacks kpgtbl])
     (returnK kpgtbl)))"

definition kvminit :: "unit kern" where
  "kvminit = bindK kvmmake (\<lambda>p. modifyK (\<lambda>s. s\<lparr>kernel_pagetable := p\<rparr>))"

definition kvminithart :: "unit kern" where
  "kvminithart = modifyK (\<lambda>s. s\<lparr>regs := (regs s)\<lparr>r_satp := MAKE_SATP (kernel_pagetable s)\<rparr>\<rparr>)"

definition uvmcreate :: "u64 kern" where
  "uvmcreate = bindK kalloc (\<lambda>p. if p = 0 then returnK 0 else thenK (zero_page p) (returnK p))"

definition uvmunmap :: "u64 \<Rightarrow> u64 \<Rightarrow> u64 \<Rightarrow> bool \<Rightarrow> unit kern" where
  "uvmunmap pagetable va npages do_free =
     (if va mod of_nat PGSIZE \<noteq> 0 then panicK ''uvmunmap: not aligned''
      else forK (page_range va (va + npages * of_nat PGSIZE)) (\<lambda>a.
        bindK (walk pagetable a False) (\<lambda>r. case r of
          None \<Rightarrow> returnK ()
        | Some pte \<Rightarrow> bindK (load_mem pte) (\<lambda>v.
            if v AND PTE_V = 0 then returnK ()
            else blockK [whenK do_free (kfree (PTE2PA v)), store_mem pte 0]))))"

definition uvmdealloc :: "u64 \<Rightarrow> u64 \<Rightarrow> u64 \<Rightarrow> u64 kern" where
  "uvmdealloc pagetable oldsz newsz =
     (if newsz \<ge> oldsz then returnK oldsz
      else thenK (whenK (PGROUNDUP newsz < PGROUNDUP oldsz)
          (uvmunmap pagetable (PGROUNDUP newsz)
            (scast (ucast ((PGROUNDUP oldsz - PGROUNDUP newsz) div of_nat PGSIZE) :: u32)) True))
        (returnK newsz))"

primrec uvmalloc_loop :: "u64 \<Rightarrow> u64 \<Rightarrow> u64 list \<Rightarrow> u64 \<Rightarrow> bool kern" where
  "uvmalloc_loop pagetable oldsz [] xperm = returnK True"
| "uvmalloc_loop pagetable oldsz (a # as) xperm =
     bindK kalloc (\<lambda>p.
       if p = 0 then bindK (uvmdealloc pagetable a oldsz) (\<lambda>_. returnK False)
       else thenK (zero_page p)
         (bindK (mappages pagetable a (of_nat PGSIZE) p (PTE_R OR PTE_U OR xperm)) (\<lambda>r.
            if r \<noteq> 0 then thenK (kfree p) (bindK (uvmdealloc pagetable a oldsz) (\<lambda>_. returnK False))
            else uvmalloc_loop pagetable oldsz as xperm)))"

definition uvmalloc :: "u64 \<Rightarrow> u64 \<Rightarrow> u64 \<Rightarrow> u64 \<Rightarrow> u64 kern" where
  "uvmalloc pagetable oldsz newsz xperm =
     (if newsz < oldsz then returnK oldsz
      else bindK (uvmalloc_loop pagetable (PGROUNDUP oldsz) (page_range (PGROUNDUP oldsz) newsz) xperm) (\<lambda>ok.
        returnK (if ok then newsz else 0)))"

primrec freewalk :: "nat \<Rightarrow> u64 \<Rightarrow> unit kern" where
  "freewalk 0 pagetable = no_fuelK"
| "freewalk (Suc levels) pagetable = blockK [
     forK [0..<512] (\<lambda>i.
       bindK (load_mem (pagetable + of_nat (8 * i))) (\<lambda>pte.
         if pte AND PTE_V \<noteq> 0 \<and> pte AND (PTE_R OR PTE_W OR PTE_X) = 0
         then blockK [freewalk levels (PTE2PA pte), store_mem (pagetable + of_nat (8 * i)) 0]
         else if pte AND PTE_V \<noteq> 0 then panicK ''freewalk: leaf''
         else returnK ())),
     kfree pagetable]"

definition uvmfree :: "u64 \<Rightarrow> u64 \<Rightarrow> unit kern" where
  "uvmfree pagetable sz = blockK [
     whenK (sz > 0) (uvmunmap pagetable 0 (PGROUNDUP sz div of_nat PGSIZE) True),
     freewalk 3 pagetable]"

primrec uvmcopy_loop :: "u64 \<Rightarrow> u64 \<Rightarrow> u64 list \<Rightarrow> int kern" where
  "uvmcopy_loop old new [] = returnK 0"
| "uvmcopy_loop old new (i # is) =
     bindK (walk old i False) (\<lambda>r. case r of
         None \<Rightarrow> uvmcopy_loop old new is
       | Some pte \<Rightarrow> bindK (load_mem pte) (\<lambda>v.
           if v AND PTE_V = 0 then uvmcopy_loop old new is
           else bindK kalloc (\<lambda>p.
             let err = thenK (uvmunmap new 0 (i div of_nat PGSIZE) True) (returnK (-1)) in
             if p = 0 then err
             else thenK (modifyK (\<lambda>s. s\<lparr>mem := memmove (mem s) p (PTE2PA v) PGSIZE\<rparr>))
               (bindK (mappages new i (of_nat PGSIZE) p (PTE_FLAGS v)) (\<lambda>r.
                  if r \<noteq> 0 then thenK (kfree p) err
                  else uvmcopy_loop old new is)))))"

definition uvmcopy :: "u64 \<Rightarrow> u64 \<Rightarrow> u64 \<Rightarrow> int kern" where
  "uvmcopy old new sz = uvmcopy_loop old new (page_range 0 sz)"

definition uvmclear :: "u64 \<Rightarrow> u64 \<Rightarrow> unit kern" where
  "uvmclear pagetable va = bindK (walk pagetable va False) (\<lambda>r. case r of
       None \<Rightarrow> panicK ''uvmclear''
     | Some pte \<Rightarrow> bindK (load_mem pte) (\<lambda>v. store_mem pte (v AND NOT PTE_U)))"

definition ismapped :: "u64 \<Rightarrow> u64 \<Rightarrow> bool kern" where
  "ismapped pagetable va = bindK (walk pagetable va False) (\<lambda>r. case r of
       None \<Rightarrow> returnK False
     | Some pte \<Rightarrow> bindK (load_mem pte) (\<lambda>v. returnK (v AND PTE_V \<noteq> 0)))"

definition vmfault :: "u64 \<Rightarrow> u64 \<Rightarrow> bool \<Rightarrow> u64 kern" where
  "vmfault pagetable va read = bindK myproc (\<lambda>p. bindK (getsK (\<lambda>s. procs s p)) (\<lambda>q.
     if va \<ge> p_sz q then returnK 0
     else let va = PGROUNDDOWN va in
       bindK (ismapped pagetable va) (\<lambda>m.
         if m then returnK 0
         else bindK kalloc (\<lambda>pg.
           if pg = 0 then returnK 0
           else thenK (zero_page pg)
             (bindK (mappages (p_pagetable q) va (of_nat PGSIZE) pg (PTE_W OR PTE_U OR PTE_R)) (\<lambda>r.
                if r \<noteq> 0 then thenK (kfree pg) (returnK 0) else returnK pg))))))"

section \<open>Copies between user and kernel memory\<close>

lemma page_offset_lt: "unat (a - PGROUNDDOWN a) < 4096"
  using in_page_iff [of "PGROUNDDOWN a" a] by simp

function copyout :: "u64 \<Rightarrow> u64 \<Rightarrow> u8 list \<Rightarrow> int kern" where
  "copyout pagetable dstva src =
     (if src = [] then returnK 0
      else let va0 = PGROUNDDOWN dstva; off = unat (dstva - va0); n = min (PGSIZE - off) (length src) in
        if va0 \<ge> MAXVA then returnK (-1)
        else bindK (walkaddr pagetable va0) (\<lambda>a.
             bindK (if a = 0 then vmfault pagetable va0 False else returnK a) (\<lambda>pa0.
               if pa0 = 0 then returnK (-1)
               else bindK (walk pagetable va0 False) (\<lambda>r. case r of
                   None \<Rightarrow> undefK ''copyout: null pte''
                 | Some pte \<Rightarrow> bindK (load_mem pte) (\<lambda>v.
                     if v AND PTE_W = 0 then returnK (-1)
                     else thenK (put_mem (pa0 + of_nat off) (take n src))
                       (copyout pagetable (va0 + of_nat PGSIZE) (drop n src)))))))"
  by pat_completeness auto
termination
  by (relation "measure (\<lambda>(_, _, src). length src)")
    (auto simp: PGSIZE_def page_offset_lt)

function copyin :: "u64 \<Rightarrow> u64 \<Rightarrow> nat \<Rightarrow> (int \<times> u8 list) kern" where
  "copyin pagetable srcva len =
     (if len = 0 then returnK (0, [])
      else let va0 = PGROUNDDOWN srcva; off = unat (srcva - va0); n = min (PGSIZE - off) len in
        bindK (walkaddr pagetable va0) (\<lambda>a.
        bindK (if a = 0 then vmfault pagetable va0 False else returnK a) (\<lambda>pa0.
          if pa0 = 0 then returnK (-1, [])
          else bindK (getsK (\<lambda>s. read_bytes (mem s) (pa0 + of_nat off) n)) (\<lambda>bs.
               bindK (copyin pagetable (va0 + of_nat PGSIZE) (len - n)) (\<lambda>(r, rest).
                 returnK (r, bs @ rest))))))"
  by pat_completeness auto
termination
  by (relation "measure (\<lambda>(_, _, len). len)") (auto simp: PGSIZE_def page_offset_lt)

text \<open>
  The inner loop of \<open>copyinstr\<close>: the bytes stored in at most \<open>n\<close> steps, with the terminating
  NUL if it was reached.
\<close>

primrec copy_chars :: "memory \<Rightarrow> u64 \<Rightarrow> nat \<Rightarrow> u8 list \<times> bool" where
  "copy_chars m p 0 = ([], False)"
| "copy_chars m p (Suc n) =
     (if m p = 0 then ([0], True)
      else let (bs, got_null) = copy_chars m (p + 1) n in (m p # bs, got_null))"

function copyinstr :: "u64 \<Rightarrow> u64 \<Rightarrow> nat \<Rightarrow> (int \<times> u8 list) kern" where
  "copyinstr pagetable srcva mx =
     (if mx = 0 then returnK (-1, [])
      else let va0 = PGROUNDDOWN srcva; off = unat (srcva - va0); n = min (PGSIZE - off) mx in
        bindK (walkaddr pagetable va0) (\<lambda>pa0.
          if pa0 = 0 then returnK (-1, [])
          else bindK (getsK (\<lambda>s. copy_chars (mem s) (pa0 + of_nat off) n)) (\<lambda>(bs, got_null).
            if got_null then returnK (0, bs)
            else bindK (copyinstr pagetable (va0 + of_nat PGSIZE) (mx - n)) (\<lambda>(r, rest).
              returnK (r, bs @ rest)))))"
  by pat_completeness auto
termination
  by (relation "measure (\<lambda>(_, _, mx). mx)") (auto simp: PGSIZE_def page_offset_lt)

declare copyout.simps [simp del] copyin.simps [simp del] copyinstr.simps [simp del]

text \<open>
  A buffer address with its \<open>user\<close> flag: a user virtual address, or the bytes of a kernel
  buffer. A copy to a kernel buffer has no effect on the modelled memory; its caller receives
  the bytes.
\<close>

datatype ubuf = UBuf u64 | KBuf "u8 list"

definition cur_pagetable :: "u64 kern" where
  "cur_pagetable = bindK myproc (\<lambda>p. getsK (\<lambda>s. p_pagetable (procs s p)))"

definition either_copyout :: "ubuf \<Rightarrow> nat \<Rightarrow> u8 list \<Rightarrow> int kern" where
  "either_copyout dst off src = (case dst of
      UBuf a \<Rightarrow> bindK cur_pagetable (\<lambda>pt. copyout pt (a + of_nat off) src)
    | KBuf _ \<Rightarrow> returnK 0)"

definition either_copyin :: "ubuf \<Rightarrow> nat \<Rightarrow> nat \<Rightarrow> (int \<times> u8 list) kern" where
  "either_copyin src off len = (case src of
      UBuf a \<Rightarrow> bindK cur_pagetable (\<lambda>pt. copyin pt (a + of_nat off) len)
    | KBuf bs \<Rightarrow> if off + len \<le> length bs then returnK (0, take len (drop off bs))
        else undefK ''either_copyin: kernel buffer'')"

section \<open>Address translation\<close>

text \<open>
  What the hardware does with a page table: \<open>pt_entry\<close> follows the levels to the address of the
  leaf entry, \<open>user_page\<close> gives the physical page of a user-accessible virtual page,
  \<open>user_addr\<close> the physical address of a byte.
\<close>

primrec pt_entry :: "nat \<Rightarrow> memory \<Rightarrow> u64 \<Rightarrow> u64 \<Rightarrow> u64 option" where
  "pt_entry 0 m pagetable va = Some (pte_addr pagetable 0 va)"
| "pt_entry (Suc level) m pagetable va =
     (let v = load64 m (pte_addr pagetable (Suc level) va)
      in if v AND PTE_V \<noteq> 0 then pt_entry level m (PTE2PA v) va else None)"

definition user_page :: "memory \<Rightarrow> u64 \<Rightarrow> u64 \<Rightarrow> u64 option" where
  "user_page m pagetable va =
     (if va \<ge> MAXVA then None
      else case pt_entry 2 m pagetable va of None \<Rightarrow> None
        | Some a \<Rightarrow> let v = load64 m a in
            if v AND PTE_V = 0 \<or> v AND PTE_U = 0 \<or> PTE2PA v = 0 then None else Some (PTE2PA v))"

definition user_addr :: "memory \<Rightarrow> u64 \<Rightarrow> u64 \<Rightarrow> u64 option" where
  "user_addr m pagetable va =
     map_option (\<lambda>pa. pa + (va - PGROUNDDOWN va)) (user_page m pagetable (PGROUNDDOWN va))"

definition user_byte :: "memory \<Rightarrow> u64 \<Rightarrow> u64 \<Rightarrow> u8" where
  "user_byte m pagetable va = m (the (user_addr m pagetable va))"

lemma run_walk_levels: "walk_levels n pagetable va False s = Ret (pt_entry n (mem s) pagetable va) s"
  by (induction n arbitrary: pagetable) (simp_all add: run_simps load_mem_def Let_def)

lemma run_walkaddr:
  "walkaddr pagetable va s = Ret (case user_page (mem s) pagetable va of None \<Rightarrow> 0 | Some pa \<Rightarrow> pa) s"
  by (simp add: walkaddr_def walk_def user_page_def run_walk_levels run_simps load_mem_def Let_def
      split: option.split)

lemma user_page_nonzero: "user_page m pagetable va = Some pa \<Longrightarrow> pa \<noteq> 0"
  by (auto simp: user_page_def Let_def split: if_splits option.splits)

lemma page_step:
  assumes "j < 4096 - unat (va - PGROUNDDOWN va)"
  shows "PGROUNDDOWN (va + of_nat j) = PGROUNDDOWN va"
    and "va + of_nat j - PGROUNDDOWN va = of_nat (unat (va - PGROUNDDOWN va) + j)"
proof -
  show e: "va + of_nat j - PGROUNDDOWN va = of_nat (unat (va - PGROUNDDOWN va) + j)" by simp
  have "unat (va + of_nat j - PGROUNDDOWN va) < 4096"
    unfolding e using assms by (simp add: unat_of_nat_u64 del: of_nat_add)
  then show "PGROUNDDOWN (va + of_nat j) = PGROUNDDOWN va" by (simp add: in_page_iff)
qed

lemma user_addr_step:
  "j < 4096 - unat (va - PGROUNDDOWN va) \<Longrightarrow> user_page m pt (PGROUNDDOWN va) = Some pa
   \<Longrightarrow> user_addr m pt (va + of_nat j) = Some (pa + of_nat (unat (va - PGROUNDDOWN va)) + of_nat j)"
  by (simp add: user_addr_def page_step)

lemma next_page: "va + of_nat (4096 - unat (va - PGROUNDDOWN va)) = PGROUNDDOWN va + of_nat PGSIZE"
  using page_offset_lt [of va] by (simp add: PGSIZE_def of_nat_diff)

lemma map_upt_split: "k \<le> n \<Longrightarrow> map f [0..<n] = map f [0..<k] @ map (\<lambda>i. f (k + i)) [0..<n - k]"
  by (rule nth_equalityI) (auto simp: nth_append)

text \<open>On mapped memory \<open>copyin\<close> is the byte-wise copy through the translation.\<close>

lemma run_copyin:
  assumes "\<forall>i < len. user_addr (mem s) pagetable (srcva + of_nat i) \<noteq> None"
  shows "copyin pagetable srcva len s
    = Ret (0, map (\<lambda>i. user_byte (mem s) pagetable (srcva + of_nat i)) [0..<len]) s"
  using assms
proof (induction pagetable srcva len rule: copyin.induct)
  case (1 pagetable srcva len)
  show ?case
  proof (cases "len = 0")
    case True
    then show ?thesis by (simp add: copyin.simps run_simps)
  next
    case False
    define va where "va = PGROUNDDOWN srcva"
    define off where "off = unat (srcva - va)"
    define n where "n = min (PGSIZE - off) len"
    have off: "off < 4096" by (simp add: off_def va_def page_offset_lt)
    have n: "n \<le> len" "n \<le> 4096 - off" "0 < n" using off False by (auto simp: n_def PGSIZE_def)
    obtain pa where pa: "user_page (mem s) pagetable va = Some pa"
      using "1.prems" False by (auto simp: user_addr_def va_def)
    have here: "user_addr (mem s) pagetable (srcva + of_nat j) = Some (pa + of_nat off + of_nat j)" if "j < n" for j
      using user_addr_step [of j srcva "mem s" pagetable pa] pa that n by (simp add: va_def off_def)
    have bytes: "read_bytes (mem s) (pa + of_nat off) n
        = map (\<lambda>i. user_byte (mem s) pagetable (srcva + of_nat i)) [0..<n]"
      by (simp add: read_bytes_def user_byte_def here)
    have nxt: "va + of_nat PGSIZE + of_nat i = srcva + of_nat (n + i)" if "n < len" for i
    proof -
      have "n = 4096 - off" using that by (auto simp: n_def PGSIZE_def)
      then show ?thesis using next_page [of srcva] by (simp add: va_def off_def algebra_simps)
    qed
    have mapped: "\<forall>i < len - n. user_addr (mem s) pagetable (va + of_nat PGSIZE + of_nat i) \<noteq> None"
    proof (intro allI impI)
      fix i assume i: "i < len - n"
      then show "user_addr (mem s) pagetable (va + of_nat PGSIZE + of_nat i) \<noteq> None"
        using "1.prems" nxt [of i] by (metis add.commute less_diff_conv linorder_not_less diff_is_0_eq' not_less_zero)
    qed
    have rest: "copyin pagetable (va + of_nat PGSIZE) (len - n) s
        = Ret (0, map (\<lambda>i. user_byte (mem s) pagetable (srcva + of_nat (n + i))) [0..<len - n]) s"
    proof (cases "n < len")
      case True
      have "copyin pagetable (va + of_nat PGSIZE) (len - n) s
          = Ret (0, map (\<lambda>i. user_byte (mem s) pagetable (va + of_nat PGSIZE + of_nat i)) [0..<len - n]) s"
        using "1.IH" [OF False va_def off_def n_def, of 1] mapped by simp
      then show ?thesis by (simp only: nxt [OF True])
    next
      case False
      then show ?thesis by (simp add: copyin.simps run_simps)
    qed
    have "copyin pagetable srcva len s = Ret (0, map (\<lambda>i. user_byte (mem s) pagetable (srcva + of_nat i)) [0..<n]
        @ map (\<lambda>i. user_byte (mem s) pagetable (srcva + of_nat (n + i))) [0..<len - n]) s"
      using False rest pa user_page_nonzero [OF pa]
      by (subst copyin.simps)
        (simp add: Let_def va_def [symmetric] off_def [symmetric] n_def [symmetric] run_walkaddr bindK_def getsK_def
          returnK_def bytes)
    then show ?thesis using map_upt_split [OF n(1), of "\<lambda>i. user_byte (mem s) pagetable (srcva + of_nat i)"] by simp
  qed
qed

text \<open>Strings: \<open>copyinstr\<close> finds the first NUL byte wherever the page boundaries are.\<close>

lemma copy_chars_zero:
  "k < n \<Longrightarrow> m (p + of_nat k) = 0 \<Longrightarrow> \<forall>i < k. m (p + of_nat i) \<noteq> 0
   \<Longrightarrow> copy_chars m p n = (map (\<lambda>i. m (p + of_nat i)) [0..<Suc k], True)"
proof (induction n arbitrary: p k)
  case (Suc n)
  show ?case
  proof (cases k)
    case 0
    with Suc.prems show ?thesis by simp
  next
    case (Suc k')
    have "m p \<noteq> 0" using Suc.prems(3) Suc by force
    moreover have "\<forall>i < k'. m (p + 1 + of_nat i) \<noteq> 0"
      using Suc.prems(3) Suc by (metis Suc_less_eq add.assoc of_nat_Suc)
    then have "copy_chars m (p + 1) n = (map (\<lambda>i. m (p + 1 + of_nat i)) [0..<Suc k'], True)"
      using Suc.prems Suc by (intro Suc.IH) (auto simp: algebra_simps)
    ultimately show ?thesis unfolding Suc by (simp add: map_upt_Suc add.assoc del: upt_Suc)
  qed
qed simp

lemma copy_chars_none:
  "\<forall>i < n. m (p + of_nat i) \<noteq> 0 \<Longrightarrow> copy_chars m p n = (map (\<lambda>i. m (p + of_nat i)) [0..<n], False)"
proof (induction n arbitrary: p)
  case (Suc n)
  have "m p \<noteq> 0" using Suc.prems by force
  moreover have "\<forall>i < n. m (p + 1 + of_nat i) \<noteq> 0"
    using Suc.prems by (metis Suc_less_eq add.assoc of_nat_Suc)
  ultimately show ?case using Suc.IH [of "p + 1"] by (simp add: map_upt_Suc add.assoc del: upt_Suc)
qed simp

text \<open>One page of the loops of \<open>copyinstr\<close>.\<close>

lemma page_chunk:
  assumes "user_addr m pt va \<noteq> None"
  obtains pa where "user_page m pt (PGROUNDDOWN va) = Some pa" and "pa \<noteq> 0"
    and "\<And>j. j < 4096 - unat (va - PGROUNDDOWN va) \<Longrightarrow>
      m (pa + of_nat (unat (va - PGROUNDDOWN va)) + of_nat j) = user_byte m pt (va + of_nat j)"
proof -
  obtain pa where pa: "user_page m pt (PGROUNDDOWN va) = Some pa" using assms by (auto simp: user_addr_def)
  with user_addr_step [OF _ pa] user_page_nonzero [OF pa] show thesis
    by (intro that [of pa]) (auto simp: user_byte_def)
qed

lemma run_copyinstr:
  assumes "k < mx" and "\<forall>i \<le> k. user_addr (mem s) pt (srcva + of_nat i) \<noteq> None"
    and "user_byte (mem s) pt (srcva + of_nat k) = 0"
    and "\<forall>i < k. user_byte (mem s) pt (srcva + of_nat i) \<noteq> 0"
  shows "copyinstr pt srcva mx s = Ret (0, map (\<lambda>i. user_byte (mem s) pt (srcva + of_nat i)) [0..<Suc k]) s"
  using assms
proof (induction pt srcva mx arbitrary: k rule: copyinstr.induct)
  case (1 pt srcva mx)
  let ?b = "\<lambda>i. user_byte (mem s) pt (srcva + of_nat i)"
  define va where "va = PGROUNDDOWN srcva"
  define off where "off = unat (srcva - va)"
  define n where "n = min (PGSIZE - off) mx"
  have mx: "mx \<noteq> 0" using "1.prems"(1) by simp
  have off: "off < 4096" by (simp add: off_def va_def page_offset_lt)
  have n: "n \<le> 4096 - off" "0 < n" using off mx by (auto simp: n_def PGSIZE_def)
  have first: "user_addr (mem s) pt srcva \<noteq> None" using "1.prems"(2) [rule_format, of 0] by simp
  obtain pa where pa: "user_page (mem s) pt va = Some pa" "pa \<noteq> 0"
    and here: "\<And>j. j < 4096 - off \<Longrightarrow> mem s (pa + of_nat off + of_nat j) = ?b j"
    unfolding off_def va_def by (erule page_chunk [OF first])
  have code: "copyinstr pt srcva mx s = (case copy_chars (mem s) (pa + of_nat off) n of (bs, got_null) \<Rightarrow>
      if got_null then returnK (0, bs)
      else bindK (copyinstr pt (va + of_nat PGSIZE) (mx - n)) (\<lambda>(r, rest). returnK (r, bs @ rest))) s"
    using mx pa by (subst copyinstr.simps)
      (simp add: Let_def va_def [symmetric] off_def [symmetric] n_def [symmetric] run_walkaddr bindK_def getsK_def
        split: prod.split)
  show ?case
  proof (cases "k < n")
    case True
    have "copy_chars (mem s) (pa + of_nat off) n = (map (\<lambda>i. mem s (pa + of_nat off + of_nat i)) [0..<Suc k], True)"
      by (rule copy_chars_zero) (use True "1.prems" n here in auto)
    moreover have "map (\<lambda>i. mem s (pa + of_nat off + of_nat i)) [0..<Suc k] = map ?b [0..<Suc k]"
      using True n here by auto
    ultimately show ?thesis unfolding code by (simp add: returnK_def del: upt_Suc)
  next
    case False
    then have "n = 4096 - off" using "1.prems"(1) by (auto simp: n_def PGSIZE_def)
    then have nxt: "va + of_nat PGSIZE + of_nat i = srcva + of_nat (n + i)" for i
      using next_page [of srcva] by (simp add: va_def off_def algebra_simps)
    have "copy_chars (mem s) (pa + of_nat off) n = (map (\<lambda>i. mem s (pa + of_nat off + of_nat i)) [0..<n], False)"
      by (rule copy_chars_none) (use False "1.prems" n here in auto)
    moreover have "map (\<lambda>i. mem s (pa + of_nat off + of_nat i)) [0..<n] = map ?b [0..<n]"
      using n here by auto
    moreover have "copyinstr pt (va + of_nat PGSIZE) (mx - n) s
        = Ret (0, map (\<lambda>i. user_byte (mem s) pt (va + of_nat PGSIZE + of_nat i)) [0..<Suc (k - n)]) s"
      by (rule "1.IH" [OF mx va_def off_def n_def, of 1])
        (use False "1.prems" in \<open>auto simp: nxt simp del: of_nat_add of_nat_diff\<close>)
    ultimately show ?thesis
      using map_upt_split [of n "Suc k" ?b] False
      by (simp add: code bindK_def returnK_def nxt Suc_diff_le not_less del: upt_Suc of_nat_add)
  qed
qed

text \<open>
  For \<open>copyout\<close> the destination must not overlap the page table it is translated by:
  \<open>pt_apart m pt A\<close> says that no change of the bytes in \<open>A\<close> changes a translation.
\<close>

definition user_leaf :: "memory \<Rightarrow> u64 \<Rightarrow> u64 \<Rightarrow> u64 option" where
  "user_leaf m pt va = (if va \<ge> MAXVA then None else map_option (load64 m) (pt_entry 2 m pt va))"

definition user_writable :: "memory \<Rightarrow> u64 \<Rightarrow> u64 \<Rightarrow> bool" where
  "user_writable m pt va \<longleftrightarrow> (case user_leaf m pt (PGROUNDDOWN va) of None \<Rightarrow> False | Some v \<Rightarrow> v AND PTE_W \<noteq> 0)"

definition pt_apart :: "memory \<Rightarrow> u64 \<Rightarrow> u64 set \<Rightarrow> bool" where
  "pt_apart m pt A \<longleftrightarrow> (\<forall>m' va. (\<forall>x. x \<notin> A \<longrightarrow> m' x = m x) \<longrightarrow> user_leaf m' pt va = user_leaf m pt va)"

definition put_at :: "(u64 \<times> u8) list \<Rightarrow> memory \<Rightarrow> memory" where
  "put_at ps m = fold (\<lambda>(a, b) m. m(a := b)) ps m"

lemma user_page_leaf: "user_page m pt va = (case user_leaf m pt va of None \<Rightarrow> None
   | Some v \<Rightarrow> if v AND PTE_V = 0 \<or> v AND PTE_U = 0 \<or> PTE2PA v = 0 then None else Some (PTE2PA v))"
  by (simp add: user_page_def user_leaf_def Let_def split: option.split)

lemma pt_apartD:
  assumes "pt_apart m pt A" and "\<forall>x. x \<notin> A \<longrightarrow> m' x = m x"
  shows "user_leaf m' pt va = user_leaf m pt va" and "user_page m' pt va = user_page m pt va"
proof -
  show leaf: "user_leaf m' pt va = user_leaf m pt va"
    by (rule assms(1) [unfolded pt_apart_def, THEN spec, THEN spec, THEN mp, OF assms(2)])
  then show "user_page m' pt va = user_page m pt va" by (simp add: user_page_leaf)
qed

lemma put_at_append: "put_at (ps @ qs) m = put_at qs (put_at ps m)"
  by (simp add: put_at_def)

lemma put_at_other: "x \<notin> fst ` set ps \<Longrightarrow> put_at ps m x = m x"
  by (induction ps arbitrary: m) (auto simp: put_at_def)

lemma put_at_same: "distinct (map fst ps) \<Longrightarrow> (a, b) \<in> set ps \<Longrightarrow> put_at ps m a = b"
proof (induction ps arbitrary: m)
  case (Cons p ps)
  obtain a' b' where p: "p = (a', b')" by (cases p)
  show ?case
  proof (cases "(a, b) \<in> set ps")
    case True
    then show ?thesis using Cons by (simp add: put_at_def p)
  next
    case False
    then have e: "a' = a" "b' = b" using Cons.prems(2) p by auto
    then have "a \<notin> fst ` set ps" using Cons.prems(1) p by simp
    then show ?thesis using put_at_other [of a ps "m(a := b)"] by (simp add: put_at_def p e)
  qed
qed simp

lemma write_bytes_put_at:
  "length bs < 2 ^ 64 \<Longrightarrow> write_bytes m a bs = put_at (zip (map (\<lambda>i. a + of_nat i) [0..<length bs]) bs) m"
proof (induction bs arbitrary: m a)
  case (Cons b bs)
  then have "write_bytes (m(a := b)) (a + 1) bs = put_at (zip (map (\<lambda>i. a + 1 + of_nat i) [0..<length bs]) bs) (m(a := b))"
    by simp
  moreover have "map (\<lambda>i. a + of_nat i) [0..<length (b # bs)] = a # map (\<lambda>i. a + 1 + of_nat i) [0..<length bs]"
    by (simp add: map_upt_Suc add.assoc del: upt_Suc)
  ultimately show ?case using Cons.prems by (simp add: write_bytes_Cons put_at_def del: upt_Suc)
qed (simp add: put_at_def)

lemma run_walk: "\<not> va \<ge> MAXVA \<Longrightarrow> walk pt va False s = Ret (pt_entry 2 (mem s) pt va) s"
  by (simp only: walk_def run_walk_levels if_False)

lemma zip_map_upt_split:
  "n \<le> length src \<Longrightarrow> zip (map f [0..<length src]) src
     = zip (map f [0..<n]) (take n src) @ zip (map (\<lambda>i. f (n + i)) [0..<length src - n]) (drop n src)"
  by (subst map_upt_split [of n]) (simp_all add: zip_append1)

text \<open>One page of \<open>copyout\<close>, in a memory that may differ from the original one inside \<open>A\<close>.\<close>

lemma copyout_step:
  assumes apart: "pt_apart m pt A" and agree: "\<forall>x. x \<notin> A \<longrightarrow> mem s x = m x"
    and w: "user_writable m pt dstva" and pa: "user_page m pt (PGROUNDDOWN dstva) = Some pa"
    and src: "src \<noteq> []" and va: "va = PGROUNDDOWN dstva" and off: "off = unat (dstva - va)"
    and n: "n = min (PGSIZE - off) (length src)"
  shows "copyout pt dstva src s
    = copyout pt (va + of_nat PGSIZE) (drop n src) (s\<lparr>mem := write_bytes (mem s) (pa + of_nat off) (take n src)\<rparr>)"
proof -
  obtain v where v: "user_leaf m pt va = Some v" "v AND PTE_W \<noteq> 0"
    using w by (auto simp: user_writable_def va split: option.splits)
  then have l: "user_leaf (mem s) pt va = Some v" using pt_apartD(1) [OF apart agree] by simp
  then have max: "\<not> va \<ge> MAXVA" by (auto simp: user_leaf_def split: if_splits)
  then obtain a where a: "pt_entry 2 (mem s) pt va = Some a" "load64 (mem s) a = v"
    using l by (auto simp: user_leaf_def)
  have p: "user_page (mem s) pt va = Some pa" using pa pt_apartD(2) [OF apart agree] by (simp add: va)
  have "walk pt va False s = Ret (Some a) s" using max a by (simp add: run_walk)
  then show ?thesis
    using src max p user_page_nonzero [OF p] v(2) a(2)
    by (subst copyout.simps)
      (simp add: Let_def va [symmetric] off [symmetric] n [symmetric] run_walkaddr load_mem_def put_mem_def run_simps)
qed

lemma put_at_keeps: "fst ` set ps \<subseteq> A \<Longrightarrow> x \<notin> A \<Longrightarrow> put_at ps m x = m x"
  by (rule put_at_other) auto

lemma run_copyout:
  assumes "pt_apart m pt A" and "\<forall>x. x \<notin> A \<longrightarrow> mem s x = m x"
    and "\<forall>i < length src. user_writable m pt (dstva + of_nat i) \<and> (\<exists>a\<in>A. user_addr m pt (dstva + of_nat i) = Some a)"
  shows "copyout pt dstva src s
    = Ret 0 (s\<lparr>mem := put_at (zip (map (\<lambda>i. the (user_addr m pt (dstva + of_nat i))) [0..<length src]) src) (mem s)\<rparr>)"
  using assms
proof (induction "length src" arbitrary: dstva src s rule: less_induct)
  case less
  show ?case
  proof (cases "src = []")
    case True
    then show ?thesis by (simp add: copyout.simps run_simps put_at_def)
  next
    case False
    define va where "va = PGROUNDDOWN dstva"
    define off where "off = unat (dstva - va)"
    define n where "n = min (PGSIZE - off) (length src)"
    let ?f = "\<lambda>i. the (user_addr m pt (dstva + of_nat i))"
    let ?ps = "zip (map ?f [0..<n]) (take n src)"
    have n: "n \<le> length src" "n \<le> 4096 - off" "0 < n"
      using False page_offset_lt [of dstva] by (auto simp: n_def off_def va_def PGSIZE_def)
    have first: "user_writable m pt dstva" "user_addr m pt dstva \<noteq> None"
      using less.prems(3) [rule_format, of 0] False by auto
    obtain pa where pa: "user_page m pt (PGROUNDDOWN dstva) = Some pa" using first(2) by (auto simp: user_addr_def)
    have f: "?f j = pa + of_nat off + of_nat j" if "j < n" for j
      using user_addr_step [of j dstva m pt pa] pa that n(2) by (simp add: va_def off_def)
    have f': "map ?f [0..<n] = map (\<lambda>i. pa + of_nat off + of_nat i) [0..<n]" using f by simp
    have "length (take n src) = n" "n < 2 ^ 64" using n by auto
    then have mem: "write_bytes (mem s) (pa + of_nat off) (take n src) = put_at ?ps (mem s)"
      using write_bytes_put_at [of "take n src" "mem s" "pa + of_nat off"] unfolding f' by simp
    have A: "fst ` set ?ps \<subseteq> A"
    proof
      fix x assume "x \<in> fst ` set ?ps"
      then obtain i where i: "i < n" "x = ?f i" by (auto simp: set_zip)
      then show "x \<in> A" using less.prems(3) [rule_format, of i] n(1) by auto
    qed
    have nxt: "va + of_nat PGSIZE + of_nat i = dstva + of_nat (n + i)" if "n < length src" for i
    proof -
      have "n = 4096 - off" using that by (auto simp: n_def PGSIZE_def)
      then show ?thesis using next_page [of dstva] by (simp add: va_def off_def algebra_simps)
    qed
    define s1 where "s1 = s\<lparr>mem := put_at ?ps (mem s)\<rparr>"
    have agree: "\<forall>x. x \<notin> A \<longrightarrow> mem s1 x = m x"
      using less.prems(2) put_at_keeps [OF A] by (simp add: s1_def)
    have rest: "copyout pt (va + of_nat PGSIZE) (drop n src) s1
        = Ret 0 (s1\<lparr>mem := put_at (zip (map (\<lambda>i. ?f (n + i)) [0..<length src - n]) (drop n src)) (mem s1)\<rparr>)"
    proof (cases "n < length src")
      case True
      have "\<forall>i < length (drop n src). user_writable m pt (va + of_nat PGSIZE + of_nat i)
          \<and> (\<exists>a\<in>A. user_addr m pt (va + of_nat PGSIZE + of_nat i) = Some a)"
        using less.prems(3) unfolding nxt [OF True] by (simp del: of_nat_add)
      then have "copyout pt (va + of_nat PGSIZE) (drop n src) s1 = Ret 0 (s1\<lparr>mem := put_at (zip
          (map (\<lambda>i. the (user_addr m pt (va + of_nat PGSIZE + of_nat i))) [0..<length (drop n src)]) (drop n src)) (mem s1)\<rparr>)"
        using n True less.prems(1) agree by (intro less.hyps) auto
      then show ?thesis unfolding nxt [OF True] by simp
    next
      case False
      then show ?thesis by (simp add: copyout.simps run_simps put_at_def)
    qed
    show ?thesis
      using copyout_step [OF less.prems(1,2) first(1) pa False va_def off_def n_def] rest
      unfolding mem zip_map_upt_split [OF n(1), of ?f] put_at_append by (simp add: s1_def)
  qed
qed

section \<open>A concrete address space\<close>

text \<open>
  A page table at \<open>0x1000\<close> with its lower levels at \<open>0x2000\<close> and \<open>0x3000\<close>, which maps the user
  page 0 to the physical page \<open>0x4000\<close>, readable and writable, and nothing else.
\<close>

definition demo_byte :: "nat \<Rightarrow> u8" where
  "demo_byte n = (if n = 4096 then 1 else if n = 4097 then 8 else if n = 8192 then 1 else if n = 8193 then 0xC
     else if n = 12288 then 0x17 else if n = 12289 then 0x10 else if n = 0x4000 then 104 else if n = 0x4001 then 105 else 0)"

definition demo_mem :: memory where
  "demo_mem x = demo_byte (unat x)"

lemma PX_bound: "unat (PX level va) < 512"
proof -
  have "PX level va = take_bit 9 (drop_bit (12 + 9 * level) va)"
    by (simp add: PX_def take_bit_eq_mask mask_eq_exp_minus_1)
  then have "unat (PX level va) = unat (drop_bit (12 + 9 * level) va) mod 512"
    by (simp add: take_bit_eq_mod unat_mod)
  then show ?thesis by simp
qed

lemma demo_zero:
  assumes "b \<in> {0x1000, 0x2000, 0x3000}" and "0 < k" and "k < 512" and "i < 8"
  shows "demo_byte (b + 8 * k + i) = 0"
proof -
  have j: "b + 8 \<le> b + 8 * k + i" "b + 8 * k + i < b + 4096" using assms by auto
  from assms(1) consider "b = 0x1000" | "b = 0x2000" | "b = 0x3000" by auto
  then show ?thesis using j assms(2) by cases (simp_all add: demo_byte_def)
qed

lemma demo_load:
  assumes "\<forall>x. x \<notin> A \<longrightarrow> m x = demo_mem x" and "\<forall>x \<in> A. 0x4000 \<le> unat x"
    and "b \<in> {0x1000, 0x2000, 0x3000}"
  shows "load64 m (of_nat b + 8 * PX level va) = (if PX level va = 0 then load64 demo_mem (of_nat b) else 0)"
proof -
  let ?k = "unat (PX level va)"
  have a: "of_nat b + 8 * PX level va = of_nat (b + 8 * ?k)" by simp
  have k: "?k < 512" by (rule PX_bound)
  have u: "unat (of_nat (b + 8 * ?k + i) :: u64) = b + 8 * ?k + i" if "i < 8" for i
    using k assms(3) that by (intro unat_of_nat_u64) auto
  have "load64 m (of_nat b + 8 * PX level va) = load64 (\<lambda>x. demo_mem x) (of_nat (b + 8 * ?k))"
    unfolding a
  proof (rule load64_cong)
    fix i :: nat assume i: "i < 8"
    have "of_nat (b + 8 * ?k) + of_nat i \<notin> A"
    proof
      assume "of_nat (b + 8 * ?k) + of_nat i \<in> A"
      then have "0x4000 \<le> unat (of_nat (b + 8 * ?k) + of_nat i :: u64)" by (rule assms(2) [rule_format])
      then have "0x4000 \<le> b + 8 * ?k + i" using u [OF i] by (simp only: of_nat_add)
      moreover have "b \<le> 0x3000" using assms(3) by auto
      ultimately show False using k i by simp
    qed
    then show "m (of_nat (b + 8 * ?k) + of_nat i) = demo_mem (of_nat (b + 8 * ?k) + of_nat i)"
      by (rule assms(1) [rule_format])
  qed
  moreover have "load64 demo_mem (of_nat (b + 8 * ?k)) = 0" if "?k \<noteq> 0"
  proof -
    have "load64 demo_mem (of_nat (b + 8 * ?k)) = load64 (\<lambda>_. 0) (of_nat (b + 8 * ?k))"
    proof (rule load64_cong)
      fix i :: nat assume i: "i < 8"
      have "of_nat (b + 8 * ?k) + of_nat i = (of_nat (b + 8 * ?k + i) :: u64)" by simp
      then show "demo_mem (of_nat (b + 8 * ?k) + of_nat i) = 0"
        unfolding demo_mem_def using u [OF i] demo_zero [OF assms(3) _ k i] that by (simp only: not_gr_zero simp_thms)
    qed
    then show ?thesis by (simp only: load64_zero)
  qed
  ultimately show ?thesis by (auto simp: unat_eq_zero)
qed

lemma demo_roots:
  "load64 demo_mem 0x1000 = 0x801" "load64 demo_mem 0x2000 = 0xC01" "load64 demo_mem 0x3000 = 0x1017"
  by (simp_all add: load64_def read_bytes_def demo_mem_def demo_byte_def upt_rec)

lemma demo_leaf:
  assumes "\<forall>x. x \<notin> A \<longrightarrow> m x = demo_mem x" and "\<forall>x \<in> A. 0x4000 \<le> unat x"
  shows "user_leaf m 0x1000 va = (if va \<ge> MAXVA then None
    else if PX 2 va = 0 \<and> PX 1 va = 0 then Some (if PX 0 va = 0 then 0x1017 else 0) else None)"
proof -
  note l = demo_load [OF assms, of "0x1000"] demo_load [OF assms, of "0x2000"] demo_load [OF assms, of "0x3000"]
  have "PTE2PA 0x801 = 0x2000" "PTE2PA 0xC01 = 0x3000" by (simp_all add: PTE2PA_def drop_bit_eq_div push_bit_eq_mult)
  moreover have "load64 m 0x1000 = 0x801" "load64 m 0x2000 = 0xC01" "load64 m 0x3000 = 0x1017"
    using l [of 0 0] demo_roots by (simp_all add: PX_def)
  ultimately show ?thesis
    using l by (simp add: user_leaf_def numeral_2_eq_2 pte_addr_def Let_def demo_roots PTE_V_def)
qed

lemma demo_apart: "\<forall>x \<in> A. 0x4000 \<le> unat x \<Longrightarrow> pt_apart demo_mem 0x1000 A"
  unfolding pt_apart_def by (auto simp: demo_leaf [of A] demo_leaf [of "{}" demo_mem])

lemma demo_mapped:
  assumes "i < 4096"
  shows "user_addr demo_mem 0x1000 (of_nat i) = Some (0x4000 + of_nat i)" and "user_writable demo_mem 0x1000 (of_nat i)"
proof -
  have p: "PGROUNDDOWN (of_nat i) = 0" using PGROUNDDOWN_in_page [of 0 i] assms by (simp add: page_aligned_def)
  have l: "user_leaf demo_mem 0x1000 0 = Some 0x1017"
    using demo_leaf [of "{}" demo_mem 0] by (simp add: PX_def MAXVA_def)
  have b: "(0x1017 :: u64) AND PTE_V \<noteq> 0" "(0x1017 :: u64) AND PTE_U \<noteq> 0" "(0x1017 :: u64) AND PTE_W \<noteq> 0"
    "PTE2PA 0x1017 = 0x4000"
    by (simp_all add: PTE_V_def PTE_U_def PTE_W_def PTE2PA_def drop_bit_eq_div push_bit_eq_mult)
  show "user_addr demo_mem 0x1000 (of_nat i) = Some (0x4000 + of_nat i)"
    using l b by (simp add: user_addr_def p user_page_leaf)
  show "user_writable demo_mem 0x1000 (of_nat i)" using l b by (simp add: user_writable_def p)
qed

lemma demo_buffer:
  assumes "n \<le> 64" and "f = (\<lambda>j. the (user_addr demo_mem 0x1000 (8 + of_nat j)))"
  shows "\<forall>j < n. user_writable demo_mem 0x1000 (8 + of_nat j) \<and> user_addr demo_mem 0x1000 (8 + of_nat j) \<noteq> None"
    and "inj_on f {..<n}" and "pt_apart demo_mem 0x1000 (f ` {..<n})"
proof -
  have m: "user_addr demo_mem 0x1000 (8 + of_nat j) = Some (of_nat (0x4008 + j))"
    "user_writable demo_mem 0x1000 (8 + of_nat j)" if "j < n" for j
    using demo_mapped [of "8 + j"] that assms(1) by simp_all
  have f: "unat (f j) = 0x4008 + j" if "j < n" for j
    using m(1) [OF that] that assms unat_of_nat_u64 [of "0x4008 + j"] by simp
  show "\<forall>j < n. user_writable demo_mem 0x1000 (8 + of_nat j) \<and> user_addr demo_mem 0x1000 (8 + of_nat j) \<noteq> None"
    using m by simp
  show "inj_on f {..<n}" using f by (intro inj_onI) (metis add_left_cancel lessThan_iff)
  show "pt_apart demo_mem 0x1000 (f ` {..<n})" by (rule demo_apart) (use f in auto)
qed

section \<open>Properties\<close>

text \<open>
  C7. Copies between kernel and user space agree with address translation, byte by byte and
  across page boundaries: when every byte of the destination is mapped writable for the user,
  no two of them share a physical byte and the destination does not overlap the page table,
  \<open>copyout\<close> succeeds, changes only the physical bytes of the destination, and \<open>copyin\<close> from the
  same address gives the bytes back.
\<close>

theorem copyout_copyin:
  assumes "\<forall>i < length bs. user_writable (mem s) pt (va + of_nat i) \<and> user_addr (mem s) pt (va + of_nat i) \<noteq> None"
    and "A = (\<lambda>i. the (user_addr (mem s) pt (va + of_nat i))) ` {..<length bs}"
    and "inj_on (\<lambda>i. the (user_addr (mem s) pt (va + of_nat i))) {..<length bs}"
    and "pt_apart (mem s) pt A"
  shows "\<exists>m. copyout pt va bs s = Ret 0 (s\<lparr>mem := m\<rparr>) \<and> (\<forall>x. x \<notin> A \<longrightarrow> m x = mem s x)
    \<and> copyin pt va (length bs) (s\<lparr>mem := m\<rparr>) = Ret (0, bs) (s\<lparr>mem := m\<rparr>)"
proof -
  let ?f = "\<lambda>i. the (user_addr (mem s) pt (va + of_nat i))"
  let ?ps = "zip (map ?f [0..<length bs]) bs"
  let ?m = "put_at ?ps (mem s)"
  have A: "fst ` set ?ps \<subseteq> A" using assms(2) by (auto simp: set_zip)
  have agree: "\<forall>x. x \<notin> A \<longrightarrow> ?m x = mem s x" using put_at_keeps [OF A] by simp
  have out: "copyout pt va bs s = Ret 0 (s\<lparr>mem := ?m\<rparr>)"
    by (rule run_copyout [OF assms(4)]) (use assms(1,2) in \<open>auto intro!: image_eqI\<close>)
  have addr: "user_addr ?m pt v = user_addr (mem s) pt v" for v
    using pt_apartD(2) [OF assms(4) agree] by (simp add: user_addr_def)
  have "?m (?f i) = bs ! i" if "i < length bs" for i
  proof (rule put_at_same)
    show "distinct (map fst ?ps)" using assms(3) by (simp add: distinct_map lessThan_atLeast0)
    show "(?f i, bs ! i) \<in> set ?ps" using that by (force simp: set_zip)
  qed
  then have "map (\<lambda>i. user_byte ?m pt (va + of_nat i)) [0..<length bs] = bs"
    by (intro nth_equalityI) (auto simp: user_byte_def addr)
  then have "copyin pt va (length bs) (s\<lparr>mem := ?m\<rparr>) = Ret (0, bs) (s\<lparr>mem := ?m\<rparr>)"
    using run_copyin [of "length bs" "s\<lparr>mem := ?m\<rparr>" pt va] assms(1) by (simp add: addr)
  with out agree show ?thesis by blast
qed

theorem copyout_copyin_witness:
  "\<exists>m. copyout 0x1000 4 [1, 2, 3] (zero_kstate\<lparr>mem := demo_mem\<rparr>) = Ret 0 (zero_kstate\<lparr>mem := m\<rparr>)
     \<and> copyin 0x1000 4 3 (zero_kstate\<lparr>mem := m\<rparr>) = Ret (0, [1, 2, 3]) (zero_kstate\<lparr>mem := m\<rparr>)"
proof -
  let ?s = "zero_kstate\<lparr>mem := demo_mem\<rparr>" and ?bs = "[1, 2, 3] :: u8 list"
  have a: "user_addr demo_mem 0x1000 (4 + of_nat i) = Some (0x4004 + of_nat i)
      \<and> user_writable demo_mem 0x1000 (4 + of_nat i)" if "i < length ?bs" for i
    using demo_mapped [of "4 + i"] that by (simp add: add.assoc [symmetric])
  let ?A = "(\<lambda>i. the (user_addr (mem ?s) 0x1000 (4 + of_nat i))) ` {..<length ?bs}"
  note abc = a [of 0] a [of 1] a [of 2]
  have A: "?A = {0x4004, 0x4005, 0x4006}" using abc by (auto simp: lessThan_Suc)
  have "inj_on (\<lambda>i. the (user_addr (mem ?s) 0x1000 (4 + of_nat i))) {..<length ?bs}"
    using abc by (auto simp: inj_on_def lessThan_Suc)
  moreover have "pt_apart (mem ?s) 0x1000 ?A" unfolding A using demo_apart [of "{0x4004, 0x4005, 0x4006}"] by simp
  moreover have "\<forall>i < length ?bs. user_writable (mem ?s) 0x1000 (4 + of_nat i)
      \<and> user_addr (mem ?s) 0x1000 (4 + of_nat i) \<noteq> None" using a by simp
  ultimately show ?thesis using copyout_copyin [of ?bs ?s "0x1000" 4 ?A] by (force simp: numeral_3_eq_3)
qed

text \<open>
  C27. \<open>copyinstr\<close> fetches exactly the user string: when the first NUL byte lies at index \<open>k\<close>
  below the limit and the bytes up to it are mapped for the user, it succeeds with the \<open>k + 1\<close>
  bytes of the string, wherever page boundaries fall, and changes nothing.
\<close>

theorem copyinstr_finds_nul:
  assumes "k < mx" and "\<forall>i \<le> k. user_addr (mem s) pt (srcva + of_nat i) \<noteq> None"
    and "user_byte (mem s) pt (srcva + of_nat k) = 0"
    and "\<forall>i < k. user_byte (mem s) pt (srcva + of_nat i) \<noteq> 0"
  shows "copyinstr pt srcva mx s = Ret (0, map (\<lambda>i. user_byte (mem s) pt (srcva + of_nat i)) [0..<Suc k]) s"
  using assms by (rule run_copyinstr)

theorem copyinstr_finds_nul_witness:
  "copyinstr 0x1000 0 128 (zero_kstate\<lparr>mem := demo_mem\<rparr>) = Ret (0, [104, 105, 0]) (zero_kstate\<lparr>mem := demo_mem\<rparr>)"
proof -
  let ?s = "zero_kstate\<lparr>mem := demo_mem\<rparr>"
  have b: "user_byte demo_mem 0x1000 (of_nat i) = demo_byte (0x4000 + i)" if "i < 4096" for i
  proof -
    have "unat (0x4000 + of_nat i :: u64) = 0x4000 + i" using that unat_offset_u64 [of "0x4000" i] by simp
    then show ?thesis using demo_mapped(1) [OF that] by (simp add: user_byte_def demo_mem_def)
  qed
  have m: "user_addr demo_mem 0x1000 (of_nat i) \<noteq> None" if "i \<le> 2" for i
    using demo_mapped(1) [of i] that by simp
  have nz: "\<forall>i < 2. user_byte (mem ?s) 0x1000 (0 + of_nat i) \<noteq> 0"
    using b [of 0] b [of 1] by (auto simp: less_2_cases_iff demo_byte_def)
  have "copyinstr 0x1000 0 128 ?s = Ret (0, map (\<lambda>i. user_byte (mem ?s) 0x1000 (0 + of_nat i)) [0..<Suc 2]) ?s"
    by (rule copyinstr_finds_nul [OF _ _ _ nz]) (use b [of 2] m in \<open>simp_all add: demo_byte_def\<close>)
  then show ?thesis using b [of 0] b [of 1] b [of 2] by (simp add: demo_byte_def numeral_2_eq_2)
qed

end
