(* ===== verification/Fs.thy ===== *)
theory Fs
  imports Log Vm
begin

text \<open>
  The file system (\<open>fs.c\<close>): block allocation in the bitmap, on-disk and in-memory inodes, file
  contents, directories and path names.

  The inode table is indexed by entry number. Structures on disk are byte ranges of a block,
  read and written as little-endian fields. A path or a directory-entry name is the list of its
  bytes before the terminating NUL. \<open>readi\<close> returns the bytes it copied besides its result, for
  callers whose destination is a kernel buffer.
\<close>

section \<open>On-disk structures\<close>

definition T_DIR :: int where "T_DIR = 1"
definition T_FILE :: int where "T_FILE = 2"
definition T_DEVICE :: int where "T_DEVICE = 3"

record dinode =
  d_type :: int
  d_major :: int
  d_minor :: int
  d_nlink :: int
  d_size :: u32
  d_addrs :: "nat list"

record dirent =
  de_inum :: nat
  de_name :: "u8 list"

record stat =
  st_dev :: nat
  st_ino :: nat
  st_type :: int
  st_nlink :: int
  st_size :: u64

definition short_of :: "nat \<Rightarrow> int" where
  "short_of n = sint (of_nat n :: u16)"

definition of_short :: "int \<Rightarrow> nat" where
  "of_short i = unat (of_int i :: u16)"

definition get_dinode :: "u8 list \<Rightarrow> nat \<Rightarrow> dinode" where
  "get_dinode d off = \<lparr>d_type = short_of (get_field 2 d off), d_major = short_of (get_field 2 d (off + 2)),
     d_minor = short_of (get_field 2 d (off + 4)), d_nlink = short_of (get_field 2 d (off + 6)),
     d_size = of_nat (get_field 4 d (off + 8)),
     d_addrs = map (\<lambda>i. get_field 4 d (off + 12 + 4 * i)) [0..<NDIRECT + 1]\<rparr>"

definition put_addrs :: "u8 list \<Rightarrow> nat \<Rightarrow> nat list \<Rightarrow> u8 list" where
  "put_addrs d off as = fold (\<lambda>i x. put_field 4 x (off + 4 * i) (as ! i)) [0..<NDIRECT + 1] d"

definition put_dinode :: "u8 list \<Rightarrow> nat \<Rightarrow> dinode \<Rightarrow> u8 list" where
  "put_dinode d off i = put_addrs (put_field 4 (put_field 2 (put_field 2 (put_field 2 (put_field 2 d
     off (of_short (d_type i))) (off + 2) (of_short (d_major i))) (off + 4) (of_short (d_minor i)))
     (off + 6) (of_short (d_nlink i))) (off + 8) (unat (d_size i))) (off + 12) (d_addrs i)"

definition IBLOCK :: "nat \<Rightarrow> superblock \<Rightarrow> nat" where
  "IBLOCK i sb = i div IPB + sb_inodestart sb"

definition BBLOCK :: "nat \<Rightarrow> superblock \<Rightarrow> nat" where
  "BBLOCK b sb = b div BPB + sb_bmapstart sb"

definition dip_off :: "nat \<Rightarrow> nat" where
  "dip_off inum = 64 * (inum mod IPB)"

definition get_sb :: "u8 list \<Rightarrow> superblock" where
  "get_sb d = \<lparr>sb_magic = get_field 4 d 0, sb_size = get_field 4 d 4, sb_nblocks = get_field 4 d 8,
     sb_ninodes = get_field 4 d 12, sb_nlog = get_field 4 d 16, sb_logstart = get_field 4 d 20,
     sb_inodestart = get_field 4 d 24, sb_bmapstart = get_field 4 d 28\<rparr>"

definition buf_data :: "nat \<Rightarrow> u8 list kern" where
  "buf_data b = getsK (\<lambda>s. b_data (bufs s b))"

definition get_inode :: "nat \<Rightarrow> inode kern" where
  "get_inode ip = getsK (\<lambda>s. inodes s ip)"

definition upd_inode :: "nat \<Rightarrow> (inode \<Rightarrow> inode) \<Rightarrow> unit kern" where
  "upd_inode ip f = modifyK (\<lambda>s. s\<lparr>inodes := (inodes s)(ip := f (inodes s ip))\<rparr>)"

section \<open>Blocks\<close>

definition readsb :: "nat \<Rightarrow> unit kern" where
  "readsb dev = bindK (bread dev 1) (\<lambda>bp. bindK (buf_data bp) (\<lambda>d. blockK [
     modifyK (\<lambda>s. s\<lparr>superb := get_sb d\<rparr>),
     brelse bp]))"

definition bzero :: "nat \<Rightarrow> nat \<Rightarrow> unit kern" where
  "bzero dev bno = bindK (bread dev bno) (\<lambda>bp. blockK [
     put_data bp (replicate BSIZE 0),
     log_write bp,
     brelse bp])"

definition bit_set :: "u8 list \<Rightarrow> nat \<Rightarrow> bool" where
  "bit_set d bi \<longleftrightarrow> d ! (bi div 8) AND push_bit (bi mod 8) 1 \<noteq> 0"

definition set_bit_in :: "u8 list \<Rightarrow> nat \<Rightarrow> u8 list" where
  "set_bit_in d bi = d[bi div 8 := d ! (bi div 8) OR push_bit (bi mod 8) 1]"

definition clear_bit_in :: "u8 list \<Rightarrow> nat \<Rightarrow> u8 list" where
  "clear_bit_in d bi = d[bi div 8 := d ! (bi div 8) AND NOT (push_bit (bi mod 8) 1)]"

definition free_bit :: "u8 list \<Rightarrow> nat \<Rightarrow> nat option" where
  "free_bit d n = find (\<lambda>bi. \<not> bit_set d bi) [0..<n]"

primrec balloc_scan :: "nat \<Rightarrow> nat list \<Rightarrow> nat kern" where
  "balloc_scan dev [] = thenK (printf (''balloc: out of blocks'' @ nl) []) (returnK 0)"
| "balloc_scan dev (b # bs) = bindK (getsK superb) (\<lambda>sb.
     bindK (bread dev (BBLOCK b sb)) (\<lambda>bp. bindK (buf_data bp) (\<lambda>d.
       case free_bit d (min BPB (sb_size sb - b)) of
         Some bi \<Rightarrow> thenK (blockK [
             put_data bp (set_bit_in d bi),
             log_write bp,
             brelse bp,
             bzero dev (b + bi)])
           (returnK (b + bi))
       | None \<Rightarrow> thenK (brelse bp) (balloc_scan dev bs))))"

definition balloc :: "nat \<Rightarrow> nat kern" where
  "balloc dev = bindK (getsK superb) (\<lambda>sb.
     balloc_scan dev (map (\<lambda>i. i * BPB) [0..<(sb_size sb + BPB - 1) div BPB]))"

definition bfree :: "nat \<Rightarrow> nat \<Rightarrow> unit kern" where
  "bfree dev b = bindK (getsK superb) (\<lambda>sb.
     bindK (bread dev (BBLOCK b sb)) (\<lambda>bp. bindK (buf_data bp) (\<lambda>d.
       let bi = b mod BPB in
       if \<not> bit_set d bi then panicK ''freeing free block''
       else blockK [
         put_data bp (clear_bit_in d bi),
         log_write bp,
         brelse bp])))"

section \<open>Inodes\<close>

definition iinit :: "unit kern" where
  "iinit = forK [0..<NINODE] (\<lambda>i. initsleeplock (InodeLock i))"

text \<open>The scan of \<open>iget\<close>: the entry that holds the inode, or else the first empty one.\<close>

primrec iget_scan :: "(nat \<Rightarrow> inode) \<Rightarrow> nat \<Rightarrow> nat \<Rightarrow> nat list \<Rightarrow> nat option \<Rightarrow> nat option \<times> nat option" where
  "iget_scan ino dev inum [] emp = (None, emp)"
| "iget_scan ino dev inum (ip # ips) emp =
     (if i_ref (ino ip) > 0 \<and> i_dev (ino ip) = dev \<and> i_inum (ino ip) = inum then (Some ip, emp)
      else iget_scan ino dev inum ips (if emp = None \<and> i_ref (ino ip) = 0 then Some ip else emp))"

definition iget :: "nat \<Rightarrow> nat \<Rightarrow> nat kern" where
  "iget dev inum = thenK (acquire ItableLock) (bindK (getsK inodes) (\<lambda>ino.
     case iget_scan ino dev inum [0..<NINODE] None of
       (Some ip, _) \<Rightarrow> thenK (blockK [
           upd_inode ip (\<lambda>i. i\<lparr>i_ref := i_ref i + 1\<rparr>),
           release ItableLock])
         (returnK ip)
     | (None, None) \<Rightarrow> panicK ''iget: no inodes''
     | (None, Some ip) \<Rightarrow> thenK (blockK [
           upd_inode ip (\<lambda>i. i\<lparr>i_dev := dev, i_inum := inum, i_ref := 1, i_valid := False\<rparr>),
           release ItableLock])
         (returnK ip)))"

primrec ialloc_scan :: "nat \<Rightarrow> int \<Rightarrow> nat list \<Rightarrow> nat option kern" where
  "ialloc_scan dev type [] = thenK (printf (''ialloc: no inodes'' @ nl) []) (returnK None)"
| "ialloc_scan dev type (inum # rest) = bindK (getsK superb) (\<lambda>sb.
     bindK (bread dev (IBLOCK inum sb)) (\<lambda>bp. bindK (buf_data bp) (\<lambda>d.
       if short_of (get_field 2 d (dip_off inum)) = 0 then
         thenK (blockK [
             put_data bp (put_field 2 (splice d (dip_off inum) (replicate 64 0)) (dip_off inum) (of_short type)),
             log_write bp,
             brelse bp])
           (bindK (iget dev inum) (\<lambda>ip. returnK (Some ip)))
       else thenK (brelse bp) (ialloc_scan dev type rest))))"

definition ialloc :: "nat \<Rightarrow> int \<Rightarrow> nat option kern" where
  "ialloc dev type = bindK (getsK superb) (\<lambda>sb. ialloc_scan dev type [1..<sb_ninodes sb])"

definition to_dinode :: "inode \<Rightarrow> dinode" where
  "to_dinode i = \<lparr>d_type = i_type i, d_major = i_major i, d_minor = i_minor i, d_nlink = i_nlink i,
     d_size = i_size i, d_addrs = i_addrs i\<rparr>"

definition iupdate :: "nat \<Rightarrow> unit kern" where
  "iupdate ip = bindK (get_inode ip) (\<lambda>i. bindK (getsK superb) (\<lambda>sb.
     bindK (bread (i_dev i) (IBLOCK (i_inum i) sb)) (\<lambda>bp. bindK (buf_data bp) (\<lambda>d. blockK [
       put_data bp (put_dinode d (dip_off (i_inum i)) (to_dinode i)),
       log_write bp,
       brelse bp]))))"

definition idup :: "nat \<Rightarrow> nat kern" where
  "idup ip = thenK (blockK [
     acquire ItableLock,
     upd_inode ip (\<lambda>i. i\<lparr>i_ref := i_ref i + 1\<rparr>),
     release ItableLock]) (returnK ip)"

definition load_dinode :: "dinode \<Rightarrow> inode \<Rightarrow> inode" where
  "load_dinode d i = i\<lparr>i_type := d_type d, i_major := d_major d, i_minor := d_minor d,
     i_nlink := d_nlink d, i_size := d_size d, i_addrs := d_addrs d\<rparr>"

definition ilock :: "nat \<Rightarrow> unit kern" where
  "ilock ip = bindK (get_inode ip) (\<lambda>i. if i_ref i < 1 then panicK ''ilock'' else
     thenK (acquiresleep (InodeLock ip)) (bindK (get_inode ip) (\<lambda>i.
       if i_valid i then returnK ()
       else bindK (getsK superb) (\<lambda>sb.
         bindK (bread (i_dev i) (IBLOCK (i_inum i) sb)) (\<lambda>bp. bindK (buf_data bp) (\<lambda>d.
           let di = get_dinode d (dip_off (i_inum i)) in blockK [
             upd_inode ip (load_dinode di),
             brelse bp,
             upd_inode ip (\<lambda>i. i\<lparr>i_valid := True\<rparr>),
             if d_type di = 0 then panicK ''ilock: no type'' else returnK ()]))))))"

definition iunlock :: "nat \<Rightarrow> unit kern" where
  "iunlock ip = bindK (holdingsleep (InodeLock ip)) (\<lambda>h. bindK (get_inode ip) (\<lambda>i.
     if \<not> h \<or> i_ref i < 1 then panicK ''iunlock'' else releasesleep (InodeLock ip)))"

definition itrunc :: "nat \<Rightarrow> unit kern" where
  "itrunc ip = blockK [
     forK [0..<NDIRECT] (\<lambda>k. bindK (get_inode ip) (\<lambda>i.
       whenK (i_addrs i ! k \<noteq> 0) (blockK [
         bfree (i_dev i) (i_addrs i ! k),
         upd_inode ip (\<lambda>i. i\<lparr>i_addrs := (i_addrs i)[k := 0]\<rparr>)]))),
     bindK (get_inode ip) (\<lambda>i. whenK (i_addrs i ! NDIRECT \<noteq> 0)
       (bindK (bread (i_dev i) (i_addrs i ! NDIRECT)) (\<lambda>bp. blockK [
         forK [0..<NINDIRECT] (\<lambda>j. bindK (buf_data bp) (\<lambda>d.
           whenK (get_field 4 d (4 * j) \<noteq> 0) (bfree (i_dev i) (get_field 4 d (4 * j))))),
         brelse bp,
         bfree (i_dev i) (i_addrs i ! NDIRECT),
         upd_inode ip (\<lambda>i. i\<lparr>i_addrs := (i_addrs i)[NDIRECT := 0]\<rparr>)]))),
     upd_inode ip (\<lambda>i. i\<lparr>i_size := 0\<rparr>),
     iupdate ip]"

definition iput :: "nat \<Rightarrow> unit kern" where
  "iput ip = blockK [
     acquire ItableLock,
     bindK (get_inode ip) (\<lambda>i. whenK (i_ref i = 1 \<and> i_valid i \<and> i_nlink i = 0) (blockK [
       acquiresleep (InodeLock ip),
       release ItableLock,
       itrunc ip,
       upd_inode ip (\<lambda>i. i\<lparr>i_type := 0\<rparr>),
       iupdate ip,
       upd_inode ip (\<lambda>i. i\<lparr>i_valid := False\<rparr>),
       releasesleep (InodeLock ip),
       acquire ItableLock])),
     upd_inode ip (\<lambda>i. i\<lparr>i_ref := i_ref i - 1\<rparr>),
     release ItableLock]"

definition iunlockput :: "nat \<Rightarrow> unit kern" where
  "iunlockput ip = blockK [iunlock ip, iput ip]"

definition ireclaim :: "nat \<Rightarrow> unit kern" where
  "ireclaim dev = bindK (getsK superb) (\<lambda>sb. forK [1..<sb_ninodes sb] (\<lambda>inum.
     bindK (bread dev (IBLOCK inum sb)) (\<lambda>bp. bindK (buf_data bp) (\<lambda>d.
       let di = get_dinode d (dip_off inum) in
       if d_type di \<noteq> 0 \<and> d_nlink di = 0 then
         thenK (printf (''ireclaim: orphaned inode %d'' @ nl) [VInt (of_nat inum)])
           (bindK (iget dev inum) (\<lambda>ip. blockK [
              brelse bp,
              begin_op,
              ilock ip,
              iunlock ip,
              iput ip,
              end_op]))
       else brelse bp))))"

definition fsinit :: "nat \<Rightarrow> unit kern" where
  "fsinit dev = blockK [
     readsb dev,
     bindK (getsK superb) (\<lambda>sb. if sb_magic sb \<noteq> FSMAGIC then panicK ''invalid file system'' else initlog dev sb),
     ireclaim dev]"

section \<open>Inode content\<close>

definition bmap :: "nat \<Rightarrow> nat \<Rightarrow> nat kern" where
  "bmap ip bn = bindK (get_inode ip) (\<lambda>i.
     if bn < NDIRECT then
       (if i_addrs i ! bn \<noteq> 0 then returnK (i_addrs i ! bn)
        else bindK (balloc (i_dev i)) (\<lambda>addr.
          if addr = 0 then returnK 0
          else thenK (upd_inode ip (\<lambda>i. i\<lparr>i_addrs := (i_addrs i)[bn := addr]\<rparr>)) (returnK addr)))
     else let bn = bn - NDIRECT in
       if bn < NINDIRECT then
         bindK (if i_addrs i ! NDIRECT \<noteq> 0 then returnK (i_addrs i ! NDIRECT)
                else bindK (balloc (i_dev i)) (\<lambda>addr.
                  if addr = 0 then returnK 0
                  else thenK (upd_inode ip (\<lambda>i. i\<lparr>i_addrs := (i_addrs i)[NDIRECT := addr]\<rparr>)) (returnK addr)))
           (\<lambda>ind. if ind = 0 then returnK 0 else
             bindK (bread (i_dev i) ind) (\<lambda>bp. bindK (buf_data bp) (\<lambda>a.
               if get_field 4 a (4 * bn) \<noteq> 0
               then thenK (brelse bp) (returnK (get_field 4 a (4 * bn)))
               else bindK (balloc (i_dev i)) (\<lambda>addr.
                 thenK (blockK [
                     whenK (addr \<noteq> 0) (blockK [
                       bindK (buf_data bp) (\<lambda>a. put_data bp (put_field 4 a (4 * bn) addr)),
                       log_write bp]),
                     brelse bp])
                   (returnK addr)))))
       else panicK ''bmap: out of range'')"

definition stati :: "nat \<Rightarrow> stat kern" where
  "stati ip = bindK (get_inode ip) (\<lambda>i. returnK \<lparr>st_dev = i_dev i, st_ino = i_inum i,
     st_type = i_type i, st_nlink = i_nlink i, st_size = ucast (i_size i)\<rparr>)"

function readi_loop :: "nat \<Rightarrow> ubuf \<Rightarrow> nat \<Rightarrow> nat \<Rightarrow> nat \<Rightarrow> u8 list \<Rightarrow> (int \<times> u8 list) kern" where
  "readi_loop ip dst off tot n acc =
     (if n \<le> tot then returnK (int tot, acc)
      else bindK (bmap ip (off div BSIZE)) (\<lambda>addr.
        if addr = 0 then returnK (int tot, acc)
        else bindK (get_inode ip) (\<lambda>i. bindK (bread (i_dev i) addr) (\<lambda>bp. bindK (buf_data bp) (\<lambda>d.
          let m = min (n - tot) (BSIZE - off mod BSIZE); chunk = take m (drop (off mod BSIZE) d) in
          bindK (either_copyout dst tot chunk) (\<lambda>r.
            if r = -1 then thenK (brelse bp) (returnK (-1, acc))
            else thenK (brelse bp)
              (readi_loop ip dst (off + min (n - tot) (BSIZE - off mod BSIZE))
                 (tot + min (n - tot) (BSIZE - off mod BSIZE)) n (acc @ chunk))))))))"
  by pat_completeness auto
termination
  by (relation "measure (\<lambda>(_, _, _, tot, n, _). n - tot)") (auto simp: BSIZE_def)

definition readi :: "nat \<Rightarrow> ubuf \<Rightarrow> u32 \<Rightarrow> u32 \<Rightarrow> (int \<times> u8 list) kern" where
  "readi ip dst off n = bindK (get_inode ip) (\<lambda>i.
     if off > i_size i \<or> off + n < off then returnK (0, [])
     else let n = (if off + n > i_size i then i_size i - off else n)
       in readi_loop ip dst (unat off) 0 (unat n) [])"

function writei_loop :: "nat \<Rightarrow> ubuf \<Rightarrow> nat \<Rightarrow> nat \<Rightarrow> nat \<Rightarrow> nat kern" where
  "writei_loop ip src off tot n =
     (if n \<le> tot then returnK tot
      else bindK (bmap ip (off div BSIZE)) (\<lambda>addr.
        if addr = 0 then returnK tot
        else bindK (get_inode ip) (\<lambda>i. bindK (bread (i_dev i) addr) (\<lambda>bp.
          bindK (either_copyin src tot (min (n - tot) (BSIZE - off mod BSIZE))) (\<lambda>(r, bs).
            thenK (bindK (buf_data bp) (\<lambda>d. put_data bp (splice d (off mod BSIZE) bs)))
              (if r = -1 then thenK (brelse bp) (returnK tot)
               else thenK (blockK [log_write bp, brelse bp])
                 (writei_loop ip src (off + min (n - tot) (BSIZE - off mod BSIZE))
                    (tot + min (n - tot) (BSIZE - off mod BSIZE)) n)))))))"
  by pat_completeness auto
termination
  by (relation "measure (\<lambda>(_, _, _, tot, n). n - tot)") (auto simp: BSIZE_def)

declare readi_loop.simps [simp del] writei_loop.simps [simp del]

definition writei :: "nat \<Rightarrow> ubuf \<Rightarrow> u32 \<Rightarrow> u32 \<Rightarrow> int kern" where
  "writei ip src off n = bindK (get_inode ip) (\<lambda>i.
     if off > i_size i \<or> off + n < off then returnK (-1)
     else if unat (off + n) > MAXFILE * BSIZE then returnK (-1)
     else bindK (writei_loop ip src (unat off) 0 (unat n)) (\<lambda>tot.
       thenK (blockK [
           bindK (get_inode ip) (\<lambda>i. whenK (off + of_nat tot > i_size i)
             (upd_inode ip (\<lambda>i. i\<lparr>i_size := off + of_nat tot\<rparr>))),
           iupdate ip])
         (returnK (int tot))))"

section \<open>Directories\<close>

definition stream_of :: "u8 list \<Rightarrow> nat \<Rightarrow> u8" where
  "stream_of bs = (\<lambda>i. if i < length bs then bs ! i else 0)"

definition namecmp :: "u8 list \<Rightarrow> u8 list \<Rightarrow> int" where
  "namecmp p q = strncmp (stream_of p) (stream_of q) DIRSIZ"

definition get_dirent :: "u8 list \<Rightarrow> dirent" where
  "get_dirent bs = \<lparr>de_inum = get_field 2 bs 0, de_name = take DIRSIZ (drop 2 bs)\<rparr>"

definition put_dirent :: "dirent \<Rightarrow> u8 list" where
  "put_dirent de = le_bytes 2 (de_inum de) @ de_name de"

definition dirent_offs :: "u32 \<Rightarrow> nat list" where
  "dirent_offs sz = map (\<lambda>i. 16 * i) [0..<(unat sz + 15) div 16]"

primrec dirlookup_loop :: "nat \<Rightarrow> u8 list \<Rightarrow> nat list \<Rightarrow> (nat \<times> nat) option kern" where
  "dirlookup_loop dp name [] = returnK None"
| "dirlookup_loop dp name (off # offs) =
     bindK (readi dp (KBuf []) (of_nat off) 16) (\<lambda>(r, bs).
       if r \<noteq> 16 then panicK ''dirlookup read''
       else let de = get_dirent bs in
         if de_inum de = 0 then dirlookup_loop dp name offs
         else if namecmp name (de_name de) = 0 then
           bindK (get_inode dp) (\<lambda>i. bindK (iget (i_dev i) (de_inum de)) (\<lambda>ip. returnK (Some (ip, off))))
         else dirlookup_loop dp name offs)"

definition dirlookup :: "nat \<Rightarrow> u8 list \<Rightarrow> (nat \<times> nat) option kern" where
  "dirlookup dp name = bindK (get_inode dp) (\<lambda>i.
     if i_type i \<noteq> T_DIR then panicK ''dirlookup not DIR''
     else dirlookup_loop dp name (dirent_offs (i_size i)))"

text \<open>The offset at which the scan of \<open>dirlink\<close> stops: an empty entry, or past the end.\<close>

primrec dirlink_scan :: "nat \<Rightarrow> nat \<Rightarrow> nat list \<Rightarrow> nat kern" where
  "dirlink_scan dp end [] = returnK end"
| "dirlink_scan dp end (off # offs) =
     bindK (readi dp (KBuf []) (of_nat off) 16) (\<lambda>(r, bs).
       if r \<noteq> 16 then panicK ''dirlink read''
       else if de_inum (get_dirent bs) = 0 then returnK off
       else dirlink_scan dp end offs)"

definition dirlink :: "nat \<Rightarrow> u8 list \<Rightarrow> nat \<Rightarrow> int kern" where
  "dirlink dp name inum = bindK (dirlookup dp name) (\<lambda>found. case found of
      Some (ip, _) \<Rightarrow> thenK (iput ip) (returnK (-1))
    | None \<Rightarrow> bindK (get_inode dp) (\<lambda>i.
        bindK (dirlink_scan dp (16 * ((unat (i_size i) + 15) div 16)) (dirent_offs (i_size i))) (\<lambda>off.
        bindK (writei dp (KBuf (put_dirent \<lparr>de_inum = inum mod 2 ^ 16,
               de_name = strncpy (stream_of name) DIRSIZ\<rparr>)) (of_nat off) 16) (\<lambda>r.
          returnK (if r \<noteq> 16 then -1 else 0)))))"

section \<open>Paths\<close>

definition SLASH :: u8 where "SLASH = 47"

definition skipelem :: "u8 list \<Rightarrow> (u8 list \<times> u8 list) option" where
  "skipelem path =
     (let p = dropWhile (\<lambda>c. c = SLASH) path in
      if p = [] then None
      else let e = takeWhile (\<lambda>c. c \<noteq> SLASH) p; rest = dropWhile (\<lambda>c. c \<noteq> SLASH) p
        in Some (take DIRSIZ e, dropWhile (\<lambda>c. c = SLASH) rest))"

lemma skipelem_shorter: "skipelem path = Some (name, rest) \<Longrightarrow> length rest < length path"
proof -
  assume a: "skipelem path = Some (name, rest)"
  let ?p = "dropWhile (\<lambda>c. c = SLASH) path"
  have p: "?p \<noteq> []" "rest = dropWhile (\<lambda>c. c = SLASH) (dropWhile (\<lambda>c. c \<noteq> SLASH) ?p)"
    using a by (auto simp: skipelem_def Let_def split: if_splits)
  then have "hd ?p \<noteq> SLASH" using hd_dropWhile [of "\<lambda>c. c = SLASH" path] by simp
  then have "length (dropWhile (\<lambda>c. c \<noteq> SLASH) ?p) < length ?p"
    using p(1) by (cases ?p) (auto simp: less_Suc_eq_le length_dropWhile_le)
  moreover have "length rest \<le> length (dropWhile (\<lambda>c. c \<noteq> SLASH) ?p)"
    using p(2) by (simp add: length_dropWhile_le)
  moreover have "length ?p \<le> length path" by (rule length_dropWhile_le)
  ultimately show ?thesis by simp
qed

function namex_loop :: "nat \<Rightarrow> u8 list \<Rightarrow> bool \<Rightarrow> u8 list \<Rightarrow> (nat \<times> u8 list) option kern" where
  "namex_loop ip path parent name =
     (case skipelem path of
        None \<Rightarrow> if parent then thenK (iput ip) (returnK None) else returnK (Some (ip, name))
      | Some (name, path) \<Rightarrow> thenK (ilock ip) (bindK (get_inode ip) (\<lambda>i.
          if i_type i \<noteq> T_DIR then thenK (iunlockput ip) (returnK None)
          else if parent \<and> path = [] then thenK (iunlock ip) (returnK (Some (ip, name)))
          else bindK (dirlookup ip name) (\<lambda>next. case next of
              None \<Rightarrow> thenK (iunlockput ip) (returnK None)
            | Some (nx, _) \<Rightarrow> thenK (iunlockput ip) (namex_loop nx path parent name)))))"
  by pat_completeness auto
termination
  by (relation "measure (\<lambda>(_, path, _, _). length path)") (auto simp: skipelem_shorter)

declare namex_loop.simps [simp del]

definition namex :: "u8 list \<Rightarrow> bool \<Rightarrow> (nat \<times> u8 list) option kern" where
  "namex path parent =
     bindK (if path \<noteq> [] \<and> hd path = SLASH then iget ROOTDEV ROOTINO
            else bindK myproc (\<lambda>p. bindK (getsK (\<lambda>s. p_cwd (procs s p))) (\<lambda>c. case c of
                None \<Rightarrow> undefK ''namex: null cwd''
              | Some cwd \<Rightarrow> idup cwd)))
       (\<lambda>ip. namex_loop ip path parent [])"

definition namei :: "u8 list \<Rightarrow> nat option kern" where
  "namei path = bindK (namex path False) (\<lambda>r. returnK (map_option fst r))"

definition nameiparent :: "u8 list \<Rightarrow> (nat \<times> u8 list) option kern" where
  "nameiparent path = namex path True"

end
