(* ===== verification/Ring.thy ===== *)
theory Ring
  imports Prelude
begin

text \<open>
  Circular buffers. The kernel has three of them: the pipe, the console input buffer and the
  sample recorder. \<open>cyc buf sz r n\<close> is the list of the \<open>n\<close> elements from position \<open>r\<close> on.
  Positions are free-running counters; the pipe and the console keep them in 32-bit words that
  wrap around, which is harmless because the buffer size divides \<open>2 ^ 32\<close>.

  \<open>byte_queue\<close> is the contract of such a buffer as a bounded queue, and what its clients may
  conclude for any sequence of operations.
\<close>

section \<open>Rings of elements\<close>

definition cyc :: "'a list \<Rightarrow> nat \<Rightarrow> nat \<Rightarrow> nat \<Rightarrow> 'a list" where
  "cyc buf sz r n = map (\<lambda>i. buf ! ((r + i) mod sz)) [0..<n]"

lemma length_cyc [simp]: "length (cyc buf sz r n) = n"
  by (simp add: cyc_def)

lemma cyc_0 [simp]: "cyc buf sz r 0 = []"
  by (simp add: cyc_def)

lemma cyc_eq_Nil [simp]: "cyc buf sz r n = [] \<longleftrightarrow> n = 0"
  by (simp add: cyc_def)

lemma cyc_pop: "cyc buf sz r (Suc n) = buf ! (r mod sz) # cyc buf sz (Suc r) n"
  by (simp add: cyc_def map_upt_Suc del: upt_Suc)

lemma cyc_snoc: "cyc buf sz r (Suc n) = cyc buf sz r n @ [buf ! ((r + n) mod sz)]"
  by (simp add: cyc_def)

lemma cyc_mod: "cyc buf sz (r mod sz) n = cyc buf sz r n"
  by (simp add: cyc_def mod_add_left_eq)

lemma cyc_slot_fresh:
  assumes "i < n" and "n < sz"
  shows "(r + i) mod sz \<noteq> (r + n) mod (sz :: nat)"
proof
  assume "(r + i) mod sz = (r + n) mod sz"
  then have "(r + n) mod sz = (r + i) mod sz" by (rule sym)
  then have "sz dvd (r + n) - (r + i)" using assms by (subst (asm) mod_eq_dvd_iff_nat) auto
  then have "sz dvd n - i" by simp
  then have "sz \<le> n - i" using assms by (intro dvd_imp_le) auto
  with assms show False by simp
qed

lemma cyc_update_outside:
  assumes "n < sz"
  shows "cyc (buf[(r + n) mod sz := x]) sz r n = cyc buf sz r n"
  unfolding cyc_def
proof (rule map_cong [OF refl])
  fix i assume "i \<in> set [0..<n]"
  then have "(r + n) mod sz \<noteq> (r + i) mod sz" using cyc_slot_fresh [OF _ assms, of i r] by auto
  then show "buf[(r + n) mod sz := x] ! ((r + i) mod sz) = buf ! ((r + i) mod sz)" by simp
qed

lemma cyc_push:
  assumes "n < sz" and "length buf = sz"
  shows "cyc (buf[(r + n) mod sz := x]) sz r (Suc n) = cyc buf sz r n @ [x]"
  unfolding cyc_snoc cyc_update_outside [OF assms(1)] using assms by simp

lemma cyc_push_full:
  assumes "0 < sz" and "length buf = sz"
  shows "cyc (buf[r mod sz := x]) sz (Suc r) sz = tl (cyc buf sz r sz) @ [x]"
proof -
  obtain k where k: "sz = Suc k" using assms(1) by (cases sz) auto
  have "Suc r + k = r + sz" using k by simp
  then have "(Suc r + k) mod sz = r mod sz" by (metis mod_add_self2)
  then have "cyc (buf[r mod sz := x]) sz (Suc r) (Suc k) = cyc buf sz (Suc r) k @ [x]"
    using cyc_push [of k sz buf "Suc r" x] assms k by simp
  then show ?thesis using cyc_pop [of buf sz r k] k by simp
qed

section \<open>Word counters\<close>

lemma word_pos:
  assumes "sz dvd 2 ^ 32"
  shows "unat (r + of_nat i :: u32) mod sz = (unat r + i) mod sz"
proof -
  have "unat (r + of_nat i) = (unat r + i) mod 2 ^ 32"
    by (simp add: unat_word_ariths unat_of_nat mod_add_right_eq)
  then show ?thesis using assms by (simp add: mod_mod_cancel)
qed

lemma word_pos_Suc: "sz dvd 2 ^ 32 \<Longrightarrow> cyc buf sz (unat (r + 1 :: u32)) n = cyc buf sz (Suc (unat r)) n"
  using word_pos [of sz r 1] cyc_mod [of buf sz "unat (r + 1)"] cyc_mod [of buf sz "Suc (unat r)"] by simp

lemma unat_Suc_count: "unat (w - r :: u32) + 1 < 2 ^ 32 \<Longrightarrow> unat (w + 1 - r) = Suc (unat (w - r))"
proof -
  assume a: "unat (w - r) + 1 < 2 ^ 32"
  have "unat ((w - r) + 1) = Suc (unat (w - r))" using a by (simp add: unat_word_ariths)
  moreover have "w + 1 - r = (w - r) + 1" by simp
  ultimately show ?thesis by (simp only:)
qed

lemma unat_pred_count: "w \<noteq> r \<Longrightarrow> unat (w - (r + 1) :: u32) = unat (w - r) - 1"
proof -
  assume "w \<noteq> r"
  then have "w - r \<noteq> 0" by simp
  then have "unat ((w - r) - 1) = unat (w - r) - 1" by (rule unat_minus_one)
  moreover have "w - (r + 1) = (w - r) - 1" by simp
  ultimately show ?thesis by (simp only:)
qed

section \<open>Bounded queues of bytes\<close>

datatype queue_op = Put u8 | Get

locale byte_queue =
  fixes inv :: "'q \<Rightarrow> bool" and contents :: "'q \<Rightarrow> u8 list" and cap :: nat
    and put :: "u8 \<Rightarrow> 'q \<Rightarrow> 'q" and front :: "'q \<Rightarrow> u8" and advance :: "'q \<Rightarrow> 'q"
  assumes put_law: "inv q \<Longrightarrow> length (contents q) < cap \<Longrightarrow> inv (put c q) \<and> contents (put c q) = contents q @ [c]"
    and get_law: "inv q \<Longrightarrow> contents q \<noteq> [] \<Longrightarrow> inv (advance q) \<and> contents q = front q # contents (advance q)"
    and bounded: "inv q \<Longrightarrow> length (contents q) \<le> cap"
begin

text \<open>
  Running operations with the guards of the code: a put into a full queue and a get from an
  empty one do not happen (the thread sleeps instead). The result is the list of bytes read.
\<close>

fun run_ops :: "queue_op list \<Rightarrow> 'q \<Rightarrow> u8 list \<times> 'q" where
  "run_ops [] q = ([], q)"
| "run_ops (Put c # ops) q = (if length (contents q) < cap then run_ops ops (put c q) else run_ops ops q)"
| "run_ops (Get # ops) q = (if contents q = [] then run_ops ops q
     else let (out, q') = run_ops ops (advance q) in (front q # out, q'))"

fun accepted :: "queue_op list \<Rightarrow> 'q \<Rightarrow> u8 list" where
  "accepted [] q = []"
| "accepted (Put c # ops) q = (if length (contents q) < cap then c # accepted ops (put c q) else accepted ops q)"
| "accepted (Get # ops) q = (if contents q = [] then accepted ops q else accepted ops (advance q))"

lemma fifo:
  "inv q \<Longrightarrow> run_ops ops q = (out, q') \<Longrightarrow>
     inv q' \<and> contents q @ accepted ops q = out @ contents q' \<and> length (contents q') \<le> cap"
proof (induction ops arbitrary: q out)
  case Nil
  then show ?case using bounded by auto
next
  case (Cons opr ops)
  show ?case
  proof (cases opr)
    case (Put c)
    show ?thesis
    proof (cases "length (contents q) < cap")
      case True
      with put_law [OF Cons.prems(1) True, of c] Cons.IH [of "put c q" out] Cons.prems Put
      show ?thesis by simp
    qed (use Cons.IH [OF Cons.prems(1)] Cons.prems Put in simp)
  next
    case Get
    show ?thesis
    proof (cases "contents q = []")
      case False
      obtain out' where r: "run_ops ops (advance q) = (out', q')" "out = front q # out'"
        using Cons.prems(2) Get False by (auto split: prod.splits)
      with get_law [OF Cons.prems(1) False] Cons.IH [of "advance q" out'] Get False show ?thesis by simp
    qed (use Cons.IH [OF Cons.prems(1)] Cons.prems Get in simp)
  qed
qed

end

end
