(* ===== verification/Pipe.thy ===== *)
theory Pipe
  imports Vm Ring
begin

text \<open>
  Pipes (\<open>pipe.c\<close>, except \<open>pipealloc\<close>, which is in \<open>File\<close> with the file table it uses): a ring of
  512 bytes with 32-bit read and write counters. The loops follow the number of bytes still to
  be moved; a thread that sleeps continues with the definition named \<open>_resume\<close>.
\<close>

section \<open>Definitions\<close>

definition PIPESIZE :: nat where "PIPESIZE = 512"

definition upd_pipe :: "u64 \<Rightarrow> (pipe \<Rightarrow> pipe) \<Rightarrow> unit kern" where
  "upd_pipe pi f = modifyK (\<lambda>s. s\<lparr>pipes := (pipes s)(pi := f (pipes s pi))\<rparr>)"

definition pipeclose :: "u64 \<Rightarrow> bool \<Rightarrow> unit kern" where
  "pipeclose pi writable = blockK [
     acquire (PipeLock pi),
     (if writable
      then blockK [upd_pipe pi (\<lambda>p. p\<lparr>pi_writeopen := False\<rparr>), wakeup (ChanPipeRead pi)]
      else blockK [upd_pipe pi (\<lambda>p. p\<lparr>pi_readopen := False\<rparr>), wakeup (ChanPipeWrite pi)]),
     bindK (getsK (\<lambda>s. pipes s pi)) (\<lambda>p.
       if \<not> pi_readopen p \<and> \<not> pi_writeopen p
       then blockK [release (PipeLock pi), kfree pi]
       else release (PipeLock pi))]"

definition pipe_put :: "u8 \<Rightarrow> pipe \<Rightarrow> pipe" where
  "pipe_put ch p = p\<lparr>pi_data := (pi_data p)[unat (pi_nwrite p) mod PIPESIZE := ch], pi_nwrite := pi_nwrite p + 1\<rparr>"

definition pipe_peek :: "pipe \<Rightarrow> u8" where
  "pipe_peek p = pi_data p ! (unat (pi_nread p) mod PIPESIZE)"

definition pipe_advance :: "pipe \<Rightarrow> pipe" where
  "pipe_advance p = p\<lparr>pi_nread := pi_nread p + 1\<rparr>"

definition pipe_full :: "pipe \<Rightarrow> bool" where
  "pipe_full p \<longleftrightarrow> pi_nwrite p = pi_nread p + of_nat PIPESIZE"

definition pipewrite_done :: "u64 \<Rightarrow> nat \<Rightarrow> int kern" where
  "pipewrite_done pi i = thenK (blockK [wakeup (ChanPipeRead pi), release (PipeLock pi)]) (returnK (int i))"

primrec pipewrite_loop :: "u64 \<Rightarrow> u64 \<Rightarrow> nat \<Rightarrow> nat \<Rightarrow> int kern" where
  "pipewrite_loop pi addr i 0 = pipewrite_done pi i"
| "pipewrite_loop pi addr i (Suc m) =
     bindK myproc (\<lambda>pr. bindK (getsK (\<lambda>s. pipes s pi)) (\<lambda>p.
       bindK (if \<not> pi_readopen p then returnK True else killed pr) (\<lambda>stop.
       if stop then thenK (release (PipeLock pi)) (returnK (-1))
       else if pipe_full p then thenK (wakeup (ChanPipeRead pi)) (sleep (ChanPipeWrite pi) (PipeLock pi))
       else bindK cur_pagetable (\<lambda>pt. bindK (copyin pt (addr + of_nat i) 1) (\<lambda>(r, bs).
         if r = -1 then pipewrite_done pi i
         else thenK (upd_pipe pi (pipe_put (hd bs))) (pipewrite_loop pi addr (Suc i) m))))))"

definition pipewrite :: "u64 \<Rightarrow> u64 \<Rightarrow> int \<Rightarrow> int kern" where
  "pipewrite pi addr n = thenK (acquire (PipeLock pi)) (pipewrite_loop pi addr 0 (nat n))"

definition pipewrite_resume :: "u64 \<Rightarrow> u64 \<Rightarrow> nat \<Rightarrow> nat \<Rightarrow> int kern" where
  "pipewrite_resume pi addr i m = thenK (sleep_resume (PipeLock pi)) (pipewrite_loop pi addr i m)"

definition piperead_done :: "u64 \<Rightarrow> int \<Rightarrow> int kern" where
  "piperead_done pi i = thenK (blockK [wakeup (ChanPipeWrite pi), release (PipeLock pi)]) (returnK i)"

primrec piperead_copy :: "u64 \<Rightarrow> u64 \<Rightarrow> nat \<Rightarrow> nat \<Rightarrow> int kern" where
  "piperead_copy pi addr i 0 = piperead_done pi (int i)"
| "piperead_copy pi addr i (Suc m) = bindK (getsK (\<lambda>s. pipes s pi)) (\<lambda>p.
     if pi_nread p = pi_nwrite p then piperead_done pi (int i)
     else bindK cur_pagetable (\<lambda>pt. bindK (copyout pt (addr + of_nat i) [pipe_peek p]) (\<lambda>r.
       if r = -1 then piperead_done pi (if i = 0 then -1 else int i)
       else thenK (upd_pipe pi pipe_advance) (piperead_copy pi addr (Suc i) m))))"

definition piperead_loop :: "u64 \<Rightarrow> u64 \<Rightarrow> int \<Rightarrow> int kern" where
  "piperead_loop pi addr n = bindK (getsK (\<lambda>s. pipes s pi)) (\<lambda>p.
     if pi_nread p = pi_nwrite p \<and> pi_writeopen p then
       bindK myproc (\<lambda>pr. bindK (killed pr) (\<lambda>k.
         if k then thenK (release (PipeLock pi)) (returnK (-1))
         else sleep (ChanPipeRead pi) (PipeLock pi)))
     else piperead_copy pi addr 0 (nat n))"

definition piperead :: "u64 \<Rightarrow> u64 \<Rightarrow> int \<Rightarrow> int kern" where
  "piperead pi addr n = thenK (acquire (PipeLock pi)) (piperead_loop pi addr n)"

definition piperead_resume :: "u64 \<Rightarrow> u64 \<Rightarrow> int \<Rightarrow> int kern" where
  "piperead_resume pi addr n = thenK (sleep_resume (PipeLock pi)) (piperead_loop pi addr n)"

section \<open>The ring of a pipe\<close>

definition pipe_count :: "pipe \<Rightarrow> nat" where
  "pipe_count p = unat (pi_nwrite p - pi_nread p)"

definition pipe_inv :: "pipe \<Rightarrow> bool" where
  "pipe_inv p \<longleftrightarrow> length (pi_data p) = PIPESIZE \<and> pipe_count p \<le> PIPESIZE"

definition pipe_contents :: "pipe \<Rightarrow> u8 list" where
  "pipe_contents p = cyc (pi_data p) PIPESIZE (unat (pi_nread p)) (pipe_count p)"

lemma length_pipe_contents [simp]: "length (pipe_contents p) = pipe_count p"
  by (simp add: pipe_contents_def)

lemma PIPESIZE_dvd: "PIPESIZE dvd 2 ^ 32"
  by (simp add: PIPESIZE_def)

lemma pipe_slot: "unat (pi_nwrite p) mod PIPESIZE = (unat (pi_nread p) + pipe_count p) mod PIPESIZE"
  using word_pos [OF PIPESIZE_dvd, of "pi_nread p" "pipe_count p"] by (simp add: pipe_count_def)

lemma pipe_count_put: "pipe_count p < PIPESIZE \<Longrightarrow> pipe_count (pipe_put c p) = Suc (pipe_count p)"
  using unat_Suc_count [of "pi_nwrite p" "pi_nread p"] by (simp add: pipe_count_def pipe_put_def PIPESIZE_def)

lemma pipe_put_open [simp]: "pi_readopen (pipe_put c p) = pi_readopen p"
  by (simp add: pipe_put_def)

lemma pipe_put_law:
  assumes "pipe_inv p" and "length (pipe_contents p) < PIPESIZE"
  shows "pipe_inv (pipe_put c p) \<and> pipe_contents (pipe_put c p) = pipe_contents p @ [c]"
proof -
  have "pipe_count (pipe_put c p) = Suc (pipe_count p)" using assms(2) by (simp add: pipe_count_put)
  with assms cyc_push [of "pipe_count p" PIPESIZE "pi_data p" "unat (pi_nread p)" c] show ?thesis
    by (simp add: pipe_inv_def pipe_contents_def pipe_put_def pipe_slot)
qed

lemma pipe_get_law:
  assumes "pipe_inv p" and "pipe_contents p \<noteq> []"
  shows "pipe_inv (pipe_advance p) \<and> pipe_contents p = pipe_peek p # pipe_contents (pipe_advance p)"
proof -
  have "pi_nwrite p \<noteq> pi_nread p" using assms(2) by (auto simp: pipe_contents_def pipe_count_def)
  then have c: "pipe_count (pipe_advance p) = pipe_count p - 1" and pos: "0 < pipe_count p"
    by (simp_all add: pipe_count_def pipe_advance_def unat_pred_count unat_gt_0)
  then obtain k where "pipe_count p = Suc k" "pipe_count (pipe_advance p) = k" by (cases "pipe_count p") auto
  with assms(1) show ?thesis
    by (simp add: pipe_inv_def pipe_contents_def pipe_advance_def pipe_peek_def cyc_pop
        word_pos_Suc [OF PIPESIZE_dvd])
qed

interpretation pq: byte_queue pipe_inv pipe_contents PIPESIZE pipe_put pipe_peek pipe_advance
proof
  show "length (pipe_contents p) \<le> PIPESIZE" if "pipe_inv p" for p using that by (simp add: pipe_inv_def)
qed (rule pipe_put_law pipe_get_law; assumption)+

lemma pipe_full_iff: "pipe_inv p \<Longrightarrow> pipe_full p \<longleftrightarrow> length (pipe_contents p) = PIPESIZE"
proof -
  have "pi_nwrite p = pi_nread p + of_nat PIPESIZE \<longleftrightarrow> pi_nwrite p - pi_nread p = of_nat PIPESIZE"
    by (auto simp: algebra_simps)
  also have "\<dots> \<longleftrightarrow> pipe_count p = PIPESIZE"
    by (simp add: word_unat_eq_iff pipe_count_def PIPESIZE_def)
  finally show ?thesis by (simp add: pipe_full_def)
qed

lemma pipe_empty_iff: "pi_nread p = pi_nwrite p \<longleftrightarrow> pipe_contents p = []"
  by (auto simp: pipe_contents_def pipe_count_def unat_eq_zero)

lemma pipe_puts:
  "pipe_inv p \<Longrightarrow> pipe_count p + length bs \<le> PIPESIZE \<Longrightarrow>
   pipe_inv (fold pipe_put bs p) \<and> pipe_contents (fold pipe_put bs p) = pipe_contents p @ bs"
proof (induction bs arbitrary: p)
  case (Cons b bs)
  then have i: "pipe_inv (pipe_put b p)" "pipe_contents (pipe_put b p) = pipe_contents p @ [b]"
    using pipe_put_law [of p b] by auto
  moreover have "pipe_count (pipe_put b p) = Suc (pipe_count p)" using Cons.prems by (simp add: pipe_count_put)
  ultimately show ?case using Cons by simp
qed simp

section \<open>Writing\<close>

definition signalled :: "chan \<Rightarrow> u64 \<Rightarrow> kstate \<Rightarrow> kstate" where
  "signalled c pi s = s\<lparr>procs := woken c {0..<NPROC} s, held := remove1 (PipeLock pi) (held s)\<rparr>"

lemma no_proc_locks_pipes [simp]:
  "no_proc_locks (s\<lparr>pipes := ps\<rparr>) = no_proc_locks s" "no_proc_locks (s\<lparr>mem := m\<rparr>) = no_proc_locks s"
  by (simp_all add: no_proc_locks_def)

lemma woken_frame [simp]:
  "woken c ps (s\<lparr>held := h\<rparr>) = woken c ps s" "woken c ps (s\<lparr>pipes := q\<rparr>) = woken c ps s"
  "woken c ps (s\<lparr>mem := m\<rparr>) = woken c ps s"
  by (simp_all add: woken_def fun_eq_iff)

lemma wp_pipewrite_done:
  "no_proc_locks s \<Longrightarrow> PipeLock pi \<in> set (held s) \<Longrightarrow>
   wp (pipewrite_done pi i) Q s = Q (int i) (signalled (ChanPipeRead pi) pi s)"
  by (simp add: pipewrite_done_def wp_wakeup signalled_def)

lemma wp_pipewrite_loop:
  assumes "cur s = Some pr" and "\<not> p_killed (procs s pr)" and "pt = p_pagetable (procs s pr)"
    and "no_proc_locks s" and "PipeLock pi \<in> set (held s)" and "pi_readopen (pipes s pi)"
    and "pipe_inv (pipes s pi)" and "pipe_count (pipes s pi) + m \<le> PIPESIZE"
    and "\<forall>j < m. user_addr (mem s) pt (addr + of_nat (i + j)) \<noteq> None"
    and "Q (int (i + m)) (signalled (ChanPipeRead pi) pi (s\<lparr>pipes := (pipes s)(pi := fold pipe_put
       (map (\<lambda>j. user_byte (mem s) pt (addr + of_nat (i + j))) [0..<m]) (pipes s pi))\<rparr>))"
  shows "wp (pipewrite_loop pi addr i m) Q s"
  using assms
proof (induction m arbitrary: i s)
  case 0
  then show ?case by (simp add: wp_pipewrite_done)
next
  case (Suc m)
  let ?p = "pipes s pi" and ?b = "user_byte (mem s) pt (addr + of_nat i)"
  let ?s = "s\<lparr>pipes := (pipes s)(pi := pipe_put ?b ?p)\<rparr>"
  have room: "length (pipe_contents ?p) < PIPESIZE" using Suc.prems(8) by simp
  then have "\<not> pipe_full ?p" using pipe_full_iff [OF Suc.prems(7)] by simp
  have byte: "copyin pt (addr + of_nat i) 1 s = Ret (0, [?b]) s"
    using run_copyin [of 1 s pt "addr + of_nat i"] Suc.prems(9) [rule_format, of 0] by simp
  have bytes: "map (\<lambda>j. user_byte (mem s) pt (addr + of_nat (i + j))) [0..<Suc m]
      = ?b # map (\<lambda>j. user_byte (mem s) pt (addr + of_nat (Suc i + j))) [0..<m]"
    by (simp add: map_upt_Suc del: upt_Suc of_nat_add)
  have upd: "?s\<lparr>pipes := (pipes ?s)(pi := x)\<rparr> = s\<lparr>pipes := (pipes s)(pi := x)\<rparr>" for x by simp
  have sel: "mem ?s = mem s" "pipes ?s pi = pipe_put ?b ?p" "Suc i + m = i + Suc m" by simp_all
  have "wp (pipewrite_loop pi addr (Suc i) m) Q ?s"
  proof (rule Suc.IH)
    show "pipe_inv (pipes ?s pi)" using pipe_put_law [OF Suc.prems(7) room, of ?b] by simp
    show "pipe_count (pipes ?s pi) + m \<le> PIPESIZE" using Suc.prems(8) by (simp add: pipe_count_put)
    show "\<forall>j < m. user_addr (mem ?s) pt (addr + of_nat (Suc i + j)) \<noteq> None"
      using Suc.prems(9) unfolding sel by (metis Suc_mono add_Suc add_Suc_right)
    show "Q (int (Suc i + m)) (signalled (ChanPipeRead pi) pi (?s\<lparr>pipes := (pipes ?s)(pi := fold pipe_put
       (map (\<lambda>j. user_byte (mem ?s) pt (addr + of_nat (Suc i + j))) [0..<m]) (pipes ?s pi))\<rparr>))"
      using Suc.prems(10) unfolding bytes upd sel by (simp only: fold_simps)
  qed (use Suc.prems(1-6) in simp_all)
  then show ?case
    using Suc.prems(1-6) \<open>\<not> pipe_full ?p\<close> byte
    by (simp add: wp_myproc wp_killed no_proc_locks_def cur_pagetable_def wp_Ret upd_pipe_def)
qed

section \<open>Reading\<close>

definition delivered :: "memory \<Rightarrow> u64 \<Rightarrow> u64 \<Rightarrow> nat \<Rightarrow> u8 list \<Rightarrow> memory \<Rightarrow> memory" where
  "delivered m pt addr i bs = put_at (zip (map (\<lambda>j. the (user_addr m pt (addr + of_nat (i + j)))) [0..<length bs]) bs)"

lemma delivered_Cons:
  "delivered m pt addr i (b # bs) m0 = delivered m pt addr (Suc i) bs (delivered m pt addr i [b] m0)"
  by (simp add: delivered_def put_at_def map_upt_Suc del: upt_Suc of_nat_add)

lemma delivered_read_back:
  assumes "\<forall>j < n. user_addr (mem s) pt (addr + of_nat j) \<noteq> None"
    and "A = (\<lambda>j. the (user_addr (mem s) pt (addr + of_nat j))) ` {..<n}"
    and "inj_on (\<lambda>j. the (user_addr (mem s) pt (addr + of_nat j))) {..<n}" and "pt_apart (mem s) pt A"
    and "length bs \<le> n" and "mem t = delivered (mem s) pt addr 0 bs (mem s)"
  shows "copyin pt addr (length bs) t = Ret (0, bs) t \<and> (\<forall>x. x \<notin> A \<longrightarrow> mem t x = mem s x)"
proof -
  let ?f = "\<lambda>j. the (user_addr (mem s) pt (addr + of_nat j))" and ?k = "length bs"
  let ?m = "put_at (zip (map ?f [0..<?k]) bs) (mem s)"
  have m: "mem t = ?m" using assms(6) by (simp add: delivered_def)
  have A: "fst ` set (zip (map ?f [0..<?k]) bs) \<subseteq> A" using assms(2,5) by (auto simp: set_zip)
  have agree: "\<forall>x. x \<notin> A \<longrightarrow> ?m x = mem s x" using put_at_keeps [OF A] by simp
  have addr: "user_addr ?m pt v = user_addr (mem s) pt v" for v
    using pt_apartD(2) [OF assms(4) agree] by (simp add: user_addr_def)
  have "?m (?f i) = bs ! i" if "i < ?k" for i
  proof (rule put_at_same)
    have "inj_on ?f (set [0..<?k])" by (rule inj_on_subset [OF assms(3)]) (use assms(5) in auto)
    then show "distinct (map fst (zip (map ?f [0..<?k]) bs))" by (simp add: distinct_map)
    show "(?f i, bs ! i) \<in> set (zip (map ?f [0..<?k]) bs)" using that by (force simp: set_zip)
  qed
  then have "map (\<lambda>i. user_byte ?m pt (addr + of_nat i)) [0..<?k] = bs"
    by (intro nth_equalityI) (auto simp: user_byte_def addr)
  then have "copyin pt addr ?k t = Ret (0, bs) t"
    using run_copyin [of ?k t pt addr] assms(1,5) by (simp add: addr m)
  with agree show ?thesis unfolding m by blast
qed

lemma deliver_byte:
  assumes "pt_apart m pt A" and "\<forall>x. x \<notin> A \<longrightarrow> mem s x = m x" and "user_writable m pt (addr + of_nat i)"
    and "\<exists>a\<in>A. user_addr m pt (addr + of_nat i) = Some a"
  shows "copyout pt (addr + of_nat i) [b] s = Ret 0 (s\<lparr>mem := delivered m pt addr i [b] (mem s)\<rparr>)"
    and "x \<notin> A \<Longrightarrow> delivered m pt addr i [b] (mem s) x = m x"
proof -
  show "copyout pt (addr + of_nat i) [b] s = Ret 0 (s\<lparr>mem := delivered m pt addr i [b] (mem s)\<rparr>)"
    using run_copyout [OF assms(1,2), of "[b]" "addr + of_nat i"] assms(3,4) by (auto simp: delivered_def)
  assume x: "x \<notin> A"
  with assms(4) have "delivered m pt addr i [b] (mem s) x = mem s x" by (auto simp: delivered_def put_at_def)
  with assms(2) [rule_format, OF x] show "delivered m pt addr i [b] (mem s) x = m x" by simp
qed

lemma wp_piperead_done:
  "no_proc_locks s \<Longrightarrow> PipeLock pi \<in> set (held s) \<Longrightarrow>
   wp (piperead_done pi i) Q s = Q i (signalled (ChanPipeWrite pi) pi s)"
  by (simp add: piperead_done_def wp_wakeup signalled_def)

lemma wp_piperead_copy:
  assumes "cur s = Some pr" and "pt = p_pagetable (procs s pr)" and "no_proc_locks s"
    and "PipeLock pi \<in> set (held s)" and "pipe_inv (pipes s pi)" and apart: "pt_apart m pt A"
    and "\<forall>x. x \<notin> A \<longrightarrow> mem s x = m x"
    and "\<forall>j < n. user_writable m pt (addr + of_nat (i + j)) \<and> (\<exists>a\<in>A. user_addr m pt (addr + of_nat (i + j)) = Some a)"
    and "k = min n (pipe_count (pipes s pi))"
    and "Q (int (i + k)) (signalled (ChanPipeWrite pi) pi (s\<lparr>
       mem := delivered m pt addr i (take k (pipe_contents (pipes s pi))) (mem s),
       pipes := (pipes s)(pi := (pipe_advance ^^ k) (pipes s pi))\<rparr>))"
  shows "wp (piperead_copy pi addr i n) Q s"
  using assms(1-5,7-10)
proof (induction n arbitrary: i s k)
  case 0
  then show ?case by (simp add: wp_piperead_done delivered_def put_at_def)
next
  case (Suc n)
  let ?p = "pipes s pi"
  show ?case
  proof (cases "pipe_contents ?p = []")
    case True
    then have "pipe_count ?p = 0" using length_pipe_contents [of ?p] by simp
    with True Suc.prems show ?thesis
      by (simp add: pipe_empty_iff wp_piperead_done delivered_def put_at_def)
  next
    case False
    let ?b = "pipe_peek ?p" and ?q = "pipe_advance ?p"
    define m1 where "m1 = delivered m pt addr i [?b] (mem s)"
    let ?s = "s\<lparr>mem := m1, pipes := (pipes s)(pi := ?q)\<rparr>"
    have get: "pipe_inv ?q" "pipe_contents ?p = ?b # pipe_contents ?q" using pipe_get_law Suc.prems(5) False by auto
    then have cnt: "pipe_count ?p = Suc (pipe_count ?q)" using length_pipe_contents by (metis length_Cons)
    then obtain k' where k: "k = Suc k'" "k' = min n (pipe_count ?q)" using Suc.prems(8) by auto
    have here: "user_writable m pt (addr + of_nat i)" "\<exists>a\<in>A. user_addr m pt (addr + of_nat i) = Some a"
      using Suc.prems(7) [rule_format, of 0] by auto
    note out = deliver_byte(1) [OF apart Suc.prems(6) here, where b = ?b, folded m1_def]
    have upd: "?s\<lparr>mem := x, pipes := (pipes ?s)(pi := y)\<rparr> = s\<lparr>mem := x, pipes := (pipes s)(pi := y)\<rparr>" for x y
      by simp
    have sel: "mem ?s = m1" "pipes ?s pi = ?q" "Suc i + k' = i + Suc k'" by simp_all
    have bytes: "delivered m pt addr i (take k (pipe_contents ?p)) (mem s)
        = delivered m pt addr (Suc i) (take k' (pipe_contents ?q)) m1"
      unfolding k(1) get(2) take_Suc_Cons m1_def by (rule delivered_Cons)
    have "wp (piperead_copy pi addr (Suc i) n) Q ?s"
    proof (rule Suc.IH)
      show "pipe_inv (pipes ?s pi)" using get(1) by simp
      show "k' = min n (pipe_count (pipes ?s pi))" using k(2) by simp
      show "\<forall>x. x \<notin> A \<longrightarrow> mem ?s x = m x" using deliver_byte(2) [OF apart Suc.prems(6) here, where b = ?b, folded m1_def] by simp
      show "\<forall>j < n. user_writable m pt (addr + of_nat (Suc i + j))
          \<and> (\<exists>a\<in>A. user_addr m pt (addr + of_nat (Suc i + j)) = Some a)"
        using Suc.prems(7) by (metis Suc_mono add_Suc add_Suc_right)
      show "Q (int (Suc i + k')) (signalled (ChanPipeWrite pi) pi (?s\<lparr>
         mem := delivered m pt addr (Suc i) (take k' (pipe_contents (pipes ?s pi))) (mem ?s),
         pipes := (pipes ?s)(pi := (pipe_advance ^^ k') (pipes ?s pi))\<rparr>))"
        using Suc.prems(9) unfolding upd sel k(1) bytes [unfolded k(1)] by (simp only: funpow_Suc_right comp_apply)
      show "cur ?s = Some pr" "PipeLock pi \<in> set (held ?s)" using Suc.prems(1,4) by simp_all
      show "pt = p_pagetable (procs ?s pr)" using Suc.prems(2) by simp
      show "no_proc_locks ?s" using Suc.prems(3) by simp
    qed
    then show ?thesis
      using Suc.prems(1-4) False out
      by (simp add: pipe_empty_iff wp_myproc cur_pagetable_def wp_Ret upd_pipe_def)
  qed
qed

lemma pipe_advances:
  "pipe_inv p \<Longrightarrow> k \<le> pipe_count p \<Longrightarrow>
   pipe_inv ((pipe_advance ^^ k) p) \<and> pipe_contents ((pipe_advance ^^ k) p) = drop k (pipe_contents p)"
proof (induction k arbitrary: p)
  case (Suc k)
  then have "pipe_contents p \<noteq> []" by (simp add: pipe_contents_def)
  then have g: "pipe_inv (pipe_advance p)" "pipe_contents p = pipe_peek p # pipe_contents (pipe_advance p)"
    using pipe_get_law Suc.prems(1) by auto
  then have "k \<le> pipe_count (pipe_advance p)" using Suc.prems(2) length_pipe_contents
    by (metis Suc_le_mono length_Cons)
  from Suc.IH [OF g(1) this] show ?case by (simp add: g(2) funpow_Suc_right del: funpow.simps)
qed simp

section \<open>Properties\<close>

text \<open>
  C6. A pipe is a first-in first-out queue of at most 512 bytes, for any interleaving of the
  writer's and the reader's steps and across wrap-around of its 32-bit counters: what was in the
  pipe followed by what the writer stored is what the reader took followed by what is left; and
  the code's tests for a full and an empty pipe are exact.
\<close>

theorem pipe_fifo:
  assumes "pipe_inv p" and "pq.run_ops ops p = (out, p')"
  shows "pipe_inv p' \<and> pipe_contents p @ pq.accepted ops p = out @ pipe_contents p'
    \<and> length (pipe_contents p') \<le> PIPESIZE
    \<and> (pipe_full p' \<longleftrightarrow> length (pipe_contents p') = PIPESIZE)
    \<and> (pi_nread p' = pi_nwrite p' \<longleftrightarrow> pipe_contents p' = [])"
  using pq.fifo [OF assms] pipe_full_iff [of p'] pipe_empty_iff [of p'] by blast

theorem pipe_fifo_witness:
  "\<exists>p'. pq.run_ops [Put 7, Put 8, Get] (zero_pipe\<lparr>pi_nread := - 1, pi_nwrite := - 1\<rparr>) = ([7], p')
     \<and> pipe_contents p' = [8]"
proof -
  let ?p = "zero_pipe\<lparr>pi_nread := - 1, pi_nwrite := - 1\<rparr>"
  have i: "pipe_inv ?p" and e: "pipe_contents ?p = []"
    by (simp_all add: pipe_inv_def zero_pipe_def pipe_count_def pipe_contents_def PIPESIZE_def)
  have a: "pipe_inv (pipe_put 7 ?p)" "pipe_contents (pipe_put 7 ?p) = [7]"
    using pipe_put_law [OF i, of 7] e by (simp_all add: PIPESIZE_def)
  have b: "pipe_contents (pipe_put 8 (pipe_put 7 ?p)) = [7, 8]"
    using pipe_put_law [OF a(1), of 8] a(2) length_pipe_contents [of "pipe_put 7 ?p"] by (simp add: PIPESIZE_def)
  have c: "pipe_count ?p < PIPESIZE" "pipe_count (pipe_put 7 ?p) < PIPESIZE"
    using e a(2) length_pipe_contents [of ?p] length_pipe_contents [of "pipe_put 7 ?p"] by (simp_all add: PIPESIZE_def)
  then have acc: "pq.accepted [Put 7, Put 8, Get] ?p = [7, 8]" using b by simp
  obtain out p' where r: "pq.run_ops [Put 7, Put 8, Get] ?p = (out, p')" by fastforce
  then have "length out = 1" using b c by auto
  moreover have "[7, 8] = out @ pipe_contents p'" using pipe_fifo [OF i r] unfolding acc e by simp
  ultimately show ?thesis using r by (auto simp: length_Suc_conv)
qed

text \<open>
  C17. A write that fits: when the reader's end is open, the caller is not killed, the bytes are
  mapped and the pipe has room for them, \<open>pipewrite\<close> returns the number of bytes, appends exactly
  the caller's bytes in order, leaves memory alone, releases its lock and makes exactly the
  threads that sleep for data runnable.
\<close>

theorem pipewrite_appends:
  assumes "cur s = Some pr" and "\<not> p_killed (procs s pr)" and "held s = []" and "pi_readopen (pipes s pi)"
    and "pipe_inv (pipes s pi)" and "pipe_count (pipes s pi) + n \<le> PIPESIZE"
    and "pt = p_pagetable (procs s pr)" and "\<forall>j < n. user_addr (mem s) pt (addr + of_nat j) \<noteq> None"
  shows "\<exists>t. pipewrite pi addr (int n) s = Ret (int n) t
    \<and> pipe_contents (pipes t pi) = pipe_contents (pipes s pi) @ map (\<lambda>j. user_byte (mem s) pt (addr + of_nat j)) [0..<n]
    \<and> mem t = mem s \<and> held t = [] \<and> procs t = woken (ChanPipeRead pi) {0..<NPROC} s"
proof -
  let ?bs = "map (\<lambda>j. user_byte (mem s) pt (addr + of_nat j)) [0..<n]"
  let ?Q = "\<lambda>r t. r = int n \<and> pipe_contents (pipes t pi) = pipe_contents (pipes s pi) @ ?bs
    \<and> mem t = mem s \<and> held t = [] \<and> procs t = woken (ChanPipeRead pi) {0..<NPROC} s"
  let ?s = "s\<lparr>held := PipeLock pi # held s\<rparr>"
  have "pipe_contents (fold pipe_put ?bs (pipes s pi)) = pipe_contents (pipes s pi) @ ?bs"
    using pipe_puts [OF assms(5), of ?bs] assms(6) by simp
  then have "wp (pipewrite_loop pi addr 0 n) ?Q ?s"
    using assms by (intro wp_pipewrite_loop [where pr = pr and pt = pt])
      (simp_all add: no_proc_locks_def signalled_def)
  then have "wp (pipewrite pi addr (int n)) ?Q s" using assms(3) by (simp add: pipewrite_def)
  then show ?thesis by (elim wpE) blast
qed

definition demo_pipe_state :: "u8 list \<Rightarrow> kstate" where
  "demo_pipe_state bs = zero_kstate\<lparr>mem := demo_mem, cur := Some 0,
     procs := (\<lambda>_. zero_proc\<lparr>p_state := RUNNING, p_pagetable := 0x1000\<rparr>),
     pipes := (\<lambda>_. fold pipe_put bs (zero_pipe\<lparr>pi_readopen := True\<rparr>))\<rparr>"

lemma demo_pipe:
  assumes "length bs \<le> PIPESIZE"
  shows "pipe_inv (fold pipe_put bs (zero_pipe\<lparr>pi_readopen := True\<rparr>))
    \<and> pipe_contents (fold pipe_put bs (zero_pipe\<lparr>pi_readopen := True\<rparr>)) = bs"
  using pipe_puts [of "zero_pipe\<lparr>pi_readopen := True\<rparr>" bs] assms
  by (simp add: pipe_inv_def zero_pipe_def pipe_count_def pipe_contents_def PIPESIZE_def)

theorem pipewrite_appends_witness:
  "\<exists>t. pipewrite 0x5000 0 2 (demo_pipe_state []) = Ret 2 t \<and> pipe_contents (pipes t 0x5000) = [104, 105]"
proof -
  let ?s = "demo_pipe_state []"
  have i: "pipe_inv (pipes ?s 0x5000)" "pipe_contents (pipes ?s 0x5000) = []" "pi_readopen (pipes ?s 0x5000)"
    using demo_pipe [of "[]"] by (simp_all add: demo_pipe_state_def PIPESIZE_def)
  then have c: "pipe_count (pipes ?s 0x5000) = 0" using length_pipe_contents [of "pipes ?s 0x5000"] by simp
  have m: "user_addr (mem ?s) 0x1000 (0 + of_nat j) = Some (0x4000 + of_nat j)" if "j < 2" for j
    using demo_mapped(1) [of j] that by (simp add: demo_pipe_state_def)
  have "\<exists>t. pipewrite 0x5000 0 (int 2) ?s = Ret (int 2) t
      \<and> pipe_contents (pipes t 0x5000) = pipe_contents (pipes ?s 0x5000)
        @ map (\<lambda>j. user_byte (mem ?s) 0x1000 (0 + of_nat j)) [0..<2]
      \<and> mem t = mem ?s \<and> held t = [] \<and> procs t = woken (ChanPipeRead 0x5000) {0..<NPROC} ?s"
    by (rule pipewrite_appends [where pr = 0]) (use i c m in \<open>simp_all add: demo_pipe_state_def zero_kstate_def
        zero_proc_def PIPESIZE_def\<close>)
  moreover have "map (\<lambda>j. user_byte (mem ?s) 0x1000 (0 + of_nat j)) [0..<2] = [104, 105]"
    using m [of 0] m [of 1]
    by (simp add: upt_rec user_byte_def demo_pipe_state_def demo_mem_def demo_byte_def)
  ultimately show ?thesis using i(2) by auto
qed

text \<open>
  C18. A read from a pipe with data: \<open>piperead\<close> returns the smaller of the number asked for and
  the number available, removes that many bytes from the front of the pipe, and the caller finds
  exactly those bytes, in order, at its buffer; threads that sleep for room become runnable.
\<close>

theorem piperead_delivers:
  assumes "cur s = Some pr" and "held s = []" and "pipe_inv (pipes s pi)" and "pipe_contents (pipes s pi) \<noteq> []"
    and "pt = p_pagetable (procs s pr)" and "k = min n (pipe_count (pipes s pi))"
    and "\<forall>j < n. user_writable (mem s) pt (addr + of_nat j) \<and> user_addr (mem s) pt (addr + of_nat j) \<noteq> None"
    and "A = (\<lambda>j. the (user_addr (mem s) pt (addr + of_nat j))) ` {..<n}"
    and "inj_on (\<lambda>j. the (user_addr (mem s) pt (addr + of_nat j))) {..<n}" and "pt_apart (mem s) pt A"
  shows "\<exists>t. piperead pi addr (int n) s = Ret (int k) t
    \<and> pipe_contents (pipes t pi) = drop k (pipe_contents (pipes s pi))
    \<and> copyin pt addr k t = Ret (0, take k (pipe_contents (pipes s pi))) t
    \<and> (\<forall>x. x \<notin> A \<longrightarrow> mem t x = mem s x)
    \<and> held t = [] \<and> procs t = woken (ChanPipeWrite pi) {0..<NPROC} s"
proof -
  let ?p = "pipes s pi" and ?bs = "take k (pipe_contents (pipes s pi))"
  let ?f = "\<lambda>j. the (user_addr (mem s) pt (addr + of_nat j))"
  let ?m = "put_at (zip (map ?f [0..<k]) ?bs) (mem s)"
  let ?s = "s\<lparr>held := PipeLock pi # held s\<rparr>"
  define t where "t = s\<lparr>mem := ?m, pipes := (pipes s)(pi := (pipe_advance ^^ k) ?p),
    procs := woken (ChanPipeWrite pi) {0..<NPROC} s\<rparr>"
  have k: "k \<le> n" "k \<le> pipe_count ?p" "length ?bs = k" using assms(6) by auto
  have d: "delivered (mem s) pt addr 0 ?bs (mem s) = ?m" unfolding delivered_def k(3) by simp
  have "wp (piperead_copy pi addr 0 n) (\<lambda>r u. r = int k \<and> u = t) ?s"
  proof (rule wp_piperead_copy [OF _ _ _ _ _ assms(10)])
    show "\<forall>j < n. user_writable (mem s) pt (addr + of_nat (0 + j))
        \<and> (\<exists>a\<in>A. user_addr (mem s) pt (addr + of_nat (0 + j)) = Some a)"
      using assms(7,8) by fastforce
    show "k = min n (pipe_count (pipes ?s pi))" using assms(6) by simp
    show "int (0 + k) = int k \<and> signalled (ChanPipeWrite pi) pi (?s\<lparr>mem := delivered (mem s) pt addr 0
        (take k (pipe_contents (pipes ?s pi))) (mem ?s), pipes := (pipes ?s)(pi := (pipe_advance ^^ k) (pipes ?s pi))\<rparr>) = t"
      using d assms(2) by (simp add: signalled_def t_def)
  qed (use assms(1-3,5) in \<open>simp_all add: no_proc_locks_def\<close>)
  then have "wp (piperead pi addr (int n)) (\<lambda>r u. r = int k \<and> u = t) s"
    using assms(2,4) by (simp add: piperead_def piperead_loop_def pipe_empty_iff)
  then have run: "piperead pi addr (int n) s = Ret (int k) t" by (elim wpE) simp
  have m: "mem t = delivered (mem s) pt addr 0 ?bs (mem s)" unfolding d by (simp add: t_def)
  have "length ?bs \<le> n" and ua: "\<forall>j < n. user_addr (mem s) pt (addr + of_nat j) \<noteq> None" using k assms(7) by auto
  from delivered_read_back [OF ua assms(8-10) this(1) m] have "copyin pt addr k t = Ret (0, ?bs) t"
    and "\<forall>x. x \<notin> A \<longrightarrow> mem t x = mem s x" unfolding k(3) by auto
  moreover have "pipes t pi = (pipe_advance ^^ k) ?p" "held t = []" "procs t = woken (ChanPipeWrite pi) {0..<NPROC} s"
    using assms(2) by (simp_all add: t_def)
  ultimately show ?thesis using run pipe_advances [OF assms(3) k(2)] by auto
qed

theorem piperead_delivers_witness:
  "\<exists>t. piperead 0x5000 8 2 (demo_pipe_state [1, 2, 3]) = Ret 2 t \<and> pipe_contents (pipes t 0x5000) = [3]
     \<and> copyin 0x1000 8 2 t = Ret (0, [1, 2]) t"
proof -
  let ?s = "demo_pipe_state [1, 2, 3]"
  let ?f = "\<lambda>j. the (user_addr demo_mem 0x1000 (8 + of_nat j))"
  have i: "pipe_inv (pipes ?s 0x5000)" "pipe_contents (pipes ?s 0x5000) = [1, 2, 3]"
    using demo_pipe [of "[1, 2, 3]"] by (simp_all add: demo_pipe_state_def PIPESIZE_def)
  then have c: "pipe_count (pipes ?s 0x5000) = 3" using length_pipe_contents [of "pipes ?s 0x5000"] by simp
  have m: "mem ?s = demo_mem" by (simp add: demo_pipe_state_def)
  have "\<exists>t. piperead 0x5000 8 (int 2) ?s = Ret (int 2) t
      \<and> pipe_contents (pipes t 0x5000) = drop 2 (pipe_contents (pipes ?s 0x5000))
      \<and> copyin 0x1000 8 2 t = Ret (0, take 2 (pipe_contents (pipes ?s 0x5000))) t
      \<and> (\<forall>x. x \<notin> ?f ` {..<2} \<longrightarrow> mem t x = mem ?s x) \<and> held t = []
      \<and> procs t = woken (ChanPipeWrite 0x5000) {0..<NPROC} ?s"
    by (rule piperead_delivers [where pr = 0 and n = 2]) (use i c demo_buffer [of 2 ?f] in
        \<open>simp_all add: m, simp_all add: demo_pipe_state_def zero_kstate_def\<close>)
  then show ?thesis using i(2) by auto
qed

end
