(* ===== verification/Console.thy ===== *)
theory Console
  imports Vm
begin

text \<open>
  The UART driver (\<open>uart.c\<close>), the console (\<open>console.c\<close>) and \<open>procdump\<close> of \<open>proc.c\<close>.

  The device is seen through its receive FIFO, the transmitter-idle bit and the bytes written to
  it. A wait in \<open>uartwrite\<close> or \<open>consoleread\<close> ends the run of the thread in \<open>sleep\<close>; the woken
  thread continues with the definition named \<open>_resume\<close>. The receive loop of \<open>uartintr\<close> runs
  once per byte of the FIFO and once to see it empty.
\<close>

section \<open>Definitions\<close>

definition upd_uart :: "(uart \<Rightarrow> uart) \<Rightarrow> unit kern" where
  "upd_uart f = modifyK (\<lambda>s. s\<lparr>uart := f (uart s)\<rparr>)"

definition upd_cons :: "(cons \<Rightarrow> cons) \<Rightarrow> unit kern" where
  "upd_cons f = modifyK (\<lambda>s. s\<lparr>cons := f (cons s)\<rparr>)"

primrec uartwrite_loop :: "u8 list \<Rightarrow> unit kern" where
  "uartwrite_loop [] = release TxLock"
| "uartwrite_loop (b # bs) = bindK (getsK (\<lambda>s. tx_busy (uart s))) (\<lambda>busy.
     if busy then sleep ChanTx TxLock
     else thenK (upd_uart (\<lambda>u. u\<lparr>uart_out := uart_out u @ [b], tx_busy := True\<rparr>)) (uartwrite_loop bs))"

definition uartwrite :: "u8 list \<Rightarrow> unit kern" where
  "uartwrite buf = blockK [acquire TxLock, uartwrite_loop buf]"

definition uartwrite_resume :: "u8 list \<Rightarrow> unit kern" where
  "uartwrite_resume rest = blockK [sleep_resume TxLock, uartwrite_loop rest]"

definition uartgetc :: "int kern" where
  "uartgetc = bindK (getsK (\<lambda>s. rx_fifo (uart s))) (\<lambda>q. case q of
      [] \<Rightarrow> returnK (-1)
    | c # q' \<Rightarrow> thenK (upd_uart (\<lambda>u. u\<lparr>rx_fifo := q'\<rparr>)) (returnK (uint c)))"

definition state_name :: "procstate \<Rightarrow> string" where
  "state_name st = (case st of UNUSED \<Rightarrow> ''unused'' | USED \<Rightarrow> ''used'' | SLEEPING \<Rightarrow> ''sleep ''
     | RUNNABLE \<Rightarrow> ''runble'' | RUNNING \<Rightarrow> ''run   '' | ZOMBIE \<Rightarrow> ''zombie'')"

definition cstring :: "u8 list \<Rightarrow> string" where
  "cstring bs = map (\<lambda>b. char_of (unat b)) (takeWhile (\<lambda>b. b \<noteq> 0) bs)"

definition procdump :: "unit kern" where
  "procdump = blockK [
     printf nl [],
     forK [0..<NPROC] (\<lambda>p. bindK (getsK (\<lambda>s. procs s p)) (\<lambda>q.
       if p_state q = UNUSED then returnK ()
       else blockK [
         printf ''%d %s %s'' [VInt (of_int (p_pid q)), VStr (Some (state_name (p_state q))),
           VStr (Some (cstring (p_name q)))],
         printf nl []]))]"

definition INPUT_BUF_SIZE :: nat where "INPUT_BUF_SIZE = 128"

primrec consolewrite_loop :: "nat \<Rightarrow> ubuf \<Rightarrow> nat \<Rightarrow> nat \<Rightarrow> int kern" where
  "consolewrite_loop 0 src i n = no_fuelK"
| "consolewrite_loop (Suc k) src i n =
     (if n \<le> i then returnK (int i)
      else let nn = min 32 (n - i) in
        bindK (either_copyin src i nn) (\<lambda>(r, buf).
          if r = -1 then returnK (int i)
          else thenK (uartwrite buf) (consolewrite_loop k src (i + nn) n)))"

definition consolewrite :: "ubuf \<Rightarrow> int \<Rightarrow> int kern" where
  "consolewrite src n = consolewrite_loop (Suc (nat n)) src 0 (nat n)"

definition cons_byte :: "cons \<Rightarrow> u32 \<Rightarrow> u8" where
  "cons_byte c i = cons_buf c ! (unat i mod INPUT_BUF_SIZE)"

primrec consoleread_loop :: "ubuf \<Rightarrow> nat \<Rightarrow> nat \<Rightarrow> nat \<Rightarrow> int kern" where
  "consoleread_loop dst off 0 target = thenK (release ConsLock) (returnK (int target))"
| "consoleread_loop dst off (Suc n) target = bindK (getsK cons) (\<lambda>c.
     let stop = (\<lambda>left :: nat. thenK (release ConsLock) (returnK (int target - int left))) in
     if cons_r c = cons_w c then
       bindK myproc (\<lambda>p. bindK (killed p) (\<lambda>k.
         if k then thenK (release ConsLock) (returnK (-1)) else sleep ChanCons ConsLock))
     else let ch = cons_byte c (cons_r c) in
       thenK (upd_cons (\<lambda>c. c\<lparr>cons_r := cons_r c + 1\<rparr>))
       (if ch = 4 then
          thenK (whenK (Suc n < target) (upd_cons (\<lambda>c. c\<lparr>cons_r := cons_r c - 1\<rparr>))) (stop (Suc n))
        else bindK (either_copyout dst off [ch]) (\<lambda>r.
          if r = -1 then stop (Suc n)
          else if ch = 10 then stop n
          else consoleread_loop dst (Suc off) n target)))"

definition consoleread :: "ubuf \<Rightarrow> int \<Rightarrow> int kern" where
  "consoleread dst n = thenK (acquire ConsLock)
     (if n > 0 then consoleread_loop dst 0 (nat n) (nat n)
      else thenK (release ConsLock) (returnK 0))"

definition consoleread_resume :: "ubuf \<Rightarrow> nat \<Rightarrow> nat \<Rightarrow> nat \<Rightarrow> int kern" where
  "consoleread_resume dst off n target = thenK (sleep_resume ConsLock) (consoleread_loop dst off n target)"

primrec kill_line :: "nat \<Rightarrow> unit kern" where
  "kill_line 0 = returnK ()"
| "kill_line (Suc k) = bindK (getsK cons) (\<lambda>c.
     if cons_e c \<noteq> cons_w c \<and> cons_byte c (cons_e c - 1) \<noteq> 10
     then blockK [upd_cons (\<lambda>c. c\<lparr>cons_e := cons_e c - 1\<rparr>), consputc BACKSPACE, kill_line k]
     else returnK ())"

definition put_cons :: "u8 \<Rightarrow> cons \<Rightarrow> cons" where
  "put_cons ch c = c\<lparr>cons_buf := (cons_buf c)[unat (cons_e c) mod INPUT_BUF_SIZE := ch], cons_e := cons_e c + 1\<rparr>"

definition consoleintr :: "int \<Rightarrow> unit kern" where
  "consoleintr c = blockK [
     acquire ConsLock,
     (if c = 16 then procdump
      else if c = 21 then bindK (getsK cons) (\<lambda>k. kill_line (unat (cons_e k - cons_w k)))
      else if c = 8 \<or> c = 127 then bindK (getsK cons) (\<lambda>k.
        whenK (cons_e k \<noteq> cons_w k) (blockK [
          upd_cons (\<lambda>k. k\<lparr>cons_e := cons_e k - 1\<rparr>), consputc BACKSPACE]))
      else bindK (getsK cons) (\<lambda>k.
        whenK (c \<noteq> 0 \<and> cons_e k - cons_r k < of_nat INPUT_BUF_SIZE)
          (let c = (if c = 13 then 10 else c) in blockK [
             consputc c,
             upd_cons (put_cons (word_of_int c)),
             bindK (getsK cons) (\<lambda>k.
               whenK (c = 10 \<or> c = 4 \<or> cons_e k - cons_r k = of_nat INPUT_BUF_SIZE) (blockK [
                 upd_cons (\<lambda>k. k\<lparr>cons_w := cons_e k\<rparr>),
                 wakeup ChanCons]))]))),
     release ConsLock]"

primrec uartintr_loop :: "nat \<Rightarrow> unit kern" where
  "uartintr_loop 0 = no_fuelK"
| "uartintr_loop (Suc k) = bindK uartgetc (\<lambda>c.
     if c = -1 then returnK () else blockK [consoleintr c, uartintr_loop k])"

definition uartintr :: "unit kern" where
  "uartintr = blockK [
     acquire TxLock,
     bindK (getsK (\<lambda>s. tx_idle (uart s))) (\<lambda>idle. whenK idle (blockK [
       upd_uart (\<lambda>u. u\<lparr>tx_busy := False\<rparr>),
       wakeup ChanTx])),
     release TxLock,
     bindK (getsK (\<lambda>s. length (rx_fifo (uart s)))) (\<lambda>n. uartintr_loop (Suc n))]"

definition CONSOLE :: nat where "CONSOLE = 1"

definition consoleinit :: "unit kern" where
  "consoleinit = blockK [
     upd_uart (\<lambda>u. u\<lparr>rx_fifo := []\<rparr>),
     modifyK (\<lambda>s. s\<lparr>devsw := (devsw s)(CONSOLE := Some ConsoleDriver)\<rparr>)]"

end
