(* ===== verification/Fb.thy ===== *)
theory Fb
  imports Printf
begin

text \<open>
  The software framebuffer (\<open>fb.c\<close>): 128 by 128 pixels of 32 bits, drawing primitives, the
  run-length decoder and the ASCII preview.

  Coordinates are integers; the drawing calls receive values for which the C \<open>int\<close> arithmetic
  does not overflow. Pixel \<open>(x, y)\<close> is entry \<open>y * FB_WIDTH + x\<close> of the buffer; an access outside
  the buffer is undefined. The decoder works on the list of source bytes; reading past its end
  is undefined and is the result \<open>None\<close>.
\<close>

section \<open>Definitions\<close>

definition FB_WIDTH :: int where "FB_WIDTH = 128"
definition FB_HEIGHT :: int where "FB_HEIGHT = 128"
definition fb_size_bytes :: int where "fb_size_bytes = FB_WIDTH * FB_HEIGHT * 4"

definition fb_store :: "int \<Rightarrow> u32 \<Rightarrow> unit kern" where
  "fb_store i color = (if 0 \<le> i \<and> i < FB_WIDTH * FB_HEIGHT
     then modifyK (\<lambda>s. s\<lparr>gfx := (gfx s)\<lparr>fb_mem := (fb_mem (gfx s))(nat i := color)\<rparr>\<rparr>)
     else undefK ''fb_mem'')"

definition fb_clear :: "u32 \<Rightarrow> unit kern" where
  "fb_clear color = (let size = FB_WIDTH * FB_HEIGHT in blockK [
     forK (map (\<lambda>k. 4 * k) [0..(size - 1) div 4]) (\<lambda>i. blockK [
       fb_store i color,
       fb_store (i + 1) color,
       fb_store (i + 2) color,
       fb_store (i + 3) color]),
     forK [size div 4 * 4..size - 1] (\<lambda>i. fb_store i color)])"

definition fb_init :: "unit kern" where
  "fb_init = fb_clear 0"

definition in_bounds :: "int \<Rightarrow> int \<Rightarrow> bool" where
  "in_bounds x y \<longleftrightarrow> \<not> (x < 0 \<or> x \<ge> FB_WIDTH \<or> y < 0 \<or> y \<ge> FB_HEIGHT)"

definition fb_draw_pixel :: "int \<Rightarrow> int \<Rightarrow> u32 \<Rightarrow> unit kern" where
  "fb_draw_pixel x y color =
     (if \<not> in_bounds x y then returnK () else fb_store (y * FB_WIDTH + x) color)"

definition fb_draw_rect :: "int \<Rightarrow> int \<Rightarrow> int \<Rightarrow> int \<Rightarrow> u32 \<Rightarrow> unit kern" where
  "fb_draw_rect x y w h color =
     forK [y..y + h - 1] (\<lambda>yy. forK [x..x + w - 1] (\<lambda>xx. fb_draw_pixel xx yy color))"

definition fb_flush_region :: "int \<Rightarrow> int \<Rightarrow> int \<Rightarrow> int \<Rightarrow> unit kern" where
  "fb_flush_region x y w h = returnK ()"

definition fb_width :: int where "fb_width = FB_WIDTH"
definition fb_height :: int where "fb_height = FB_HEIGHT"

definition fb_test_pattern :: "unit kern" where
  "fb_test_pattern = forK [0..FB_HEIGHT - 1] (\<lambda>y. forK [0..FB_WIDTH - 1] (\<lambda>x.
     fb_store (y * FB_WIDTH + x) (word_of_int ((x * 5) XOR (y * 7)))))"

primrec line_x :: "nat \<Rightarrow> int \<Rightarrow> int \<Rightarrow> int \<Rightarrow> int \<Rightarrow> int \<Rightarrow> int \<Rightarrow> int \<Rightarrow> u32 \<Rightarrow> unit kern" where
  "line_x 0 x y err sx sy dx dy color = returnK ()"
| "line_x (Suc n) x y err sx sy dx dy color =
     thenK (fb_draw_pixel x y color)
       (let err = err - dy in
        if err < 0 then line_x n (x + sx) (y + sy) (err + dx) sx sy dx dy color
        else line_x n (x + sx) y err sx sy dx dy color)"

primrec line_y :: "nat \<Rightarrow> int \<Rightarrow> int \<Rightarrow> int \<Rightarrow> int \<Rightarrow> int \<Rightarrow> int \<Rightarrow> int \<Rightarrow> u32 \<Rightarrow> unit kern" where
  "line_y 0 x y err sx sy dx dy color = returnK ()"
| "line_y (Suc n) x y err sx sy dx dy color =
     thenK (fb_draw_pixel x y color)
       (let err = err - dx in
        if err < 0 then line_y n (x + sx) (y + sy) (err + dy) sx sy dx dy color
        else line_y n x (y + sy) err sx sy dx dy color)"

definition fb_draw_line :: "int \<Rightarrow> int \<Rightarrow> int \<Rightarrow> int \<Rightarrow> u32 \<Rightarrow> unit kern" where
  "fb_draw_line x0 y0 x1 y1 color =
     (let sx = (if x1 - x0 \<ge> 0 then 1 else -1); sy = (if y1 - y0 \<ge> 0 then 1 else -1);
          dx = \<bar>x1 - x0\<bar>; dy = \<bar>y1 - y0\<bar>
      in if dx > dy
         then blockK [line_x (nat dx) x0 y0 (dx div 2) sx sy dx dy color, fb_draw_pixel x1 y1 color]
         else blockK [line_y (nat dy) x0 y0 (dy div 2) sx sy dx dy color, fb_draw_pixel x1 y1 color])"

definition fb_draw_box :: "int \<Rightarrow> int \<Rightarrow> int \<Rightarrow> int \<Rightarrow> u32 \<Rightarrow> unit kern" where
  "fb_draw_box x y w h color = blockK [
     fb_draw_line x y (x + w - 1) y color,
     fb_draw_line x y x (y + h - 1) color,
     fb_draw_line (x + w - 1) y (x + w - 1) (y + h - 1) color,
     fb_draw_line x (y + h - 1) (x + w - 1) (y + h - 1) color]"

definition fb_draw_box_filled :: "int \<Rightarrow> int \<Rightarrow> int \<Rightarrow> int \<Rightarrow> u32 \<Rightarrow> unit kern" where
  "fb_draw_box_filled x y w h color =
     forK [y..y + h - 1] (\<lambda>yy. forK [x..x + w - 1] (\<lambda>xx. fb_draw_pixel xx yy color))"

function circle_loop :: "int \<Rightarrow> int \<Rightarrow> int \<Rightarrow> int \<Rightarrow> int \<Rightarrow> u32 \<Rightarrow> unit kern" where
  "circle_loop cx cy x y err color =
     (if x < y then returnK () else
      let y' = y + 1;
          err1 = (if err \<le> 0 then err + 2 * y' + 1 else err);
          x' = (if err1 > 0 then x - 1 else x);
          err2 = (if err1 > 0 then err1 - (2 * x' + 1) else err1)
      in thenK (blockK [
           fb_draw_pixel (cx + x) (cy + y) color,
           fb_draw_pixel (cx + y) (cy + x) color,
           fb_draw_pixel (cx - y) (cy + x) color,
           fb_draw_pixel (cx - x) (cy + y) color,
           fb_draw_pixel (cx - x) (cy - y) color,
           fb_draw_pixel (cx - y) (cy - x) color,
           fb_draw_pixel (cx + y) (cy - x) color,
           fb_draw_pixel (cx + x) (cy - y) color])
         (circle_loop cx cy x' y' err2 color))"
  by pat_completeness auto
termination
  by (relation "measure (\<lambda>(_, _, x, y, _, _). nat (x - y + 1))") (auto simp: Let_def split: if_splits)

declare circle_loop.simps [simp del]

definition fb_draw_circle :: "int \<Rightarrow> int \<Rightarrow> int \<Rightarrow> u32 \<Rightarrow> unit kern" where
  "fb_draw_circle cx cy r color = circle_loop cx cy r 0 0 color"

definition le_word :: "u8 list \<Rightarrow> u32 option" where
  "le_word src = (if length src < 4 then None else Some (of_nat (le_nat (take 4 src))))"

primrec take_words :: "nat \<Rightarrow> u8 list \<Rightarrow> (u32 list \<times> u8 list) option" where
  "take_words 0 src = Some ([], src)"
| "take_words (Suc n) src = (case le_word src of None \<Rightarrow> None
    | Some w \<Rightarrow> (case take_words n (drop 4 src) of None \<Rightarrow> None
        | Some (ws, rest) \<Rightarrow> Some (w # ws, rest)))"

text \<open>The loop of \<open>fb_rle_decompress\<close>: \<open>left\<close> pixels may still be stored.\<close>

function rle_loop :: "nat \<Rightarrow> u8 list \<Rightarrow> (u32 list) option" where
  "rle_loop left src =
     (if left = 0 then Some []
      else case src of
        [] \<Rightarrow> None
      | byte # src' \<Rightarrow>
          if byte = 0xFF then Some []
          else let n = min (unat (byte AND 0x7F) + 1) left in
            if byte AND 0x80 \<noteq> 0 then
              (case le_word src' of None \<Rightarrow> None
               | Some color \<Rightarrow> map_option (\<lambda>ps. replicate n color @ ps) (rle_loop (left - n) (drop 4 src')))
            else (case take_words n src' of None \<Rightarrow> None
               | Some (ws, rest) \<Rightarrow> map_option (\<lambda>ps. ws @ ps) (rle_loop (left - n) rest)))"
  by pat_completeness auto
termination by (relation "measure fst") auto

declare rle_loop.simps [simp del]

definition fb_rle_decompress :: "u8 list option \<Rightarrow> int \<Rightarrow> (int \<times> u32 list) option" where
  "fb_rle_decompress src max_pixels = (case src of None \<Rightarrow> Some (0, [])
     | Some bs \<Rightarrow> map_option (\<lambda>ps. (int (length ps), ps)) (rle_loop (nat max_pixels) bs))"

definition ascii_map :: string where
  "ascii_map = '' .:-=+*#%@''"

definition luminance :: "u32 \<Rightarrow> int" where
  "luminance c = (let r = uint (drop_bit 16 c AND 0xff); g = uint (drop_bit 8 c AND 0xff); b = uint (c AND 0xff)
     in (30 * r + 59 * g + 11 * b) div 100)"

definition ascii_index :: "u32 \<Rightarrow> int" where
  "ascii_index c = luminance c * (int (length ascii_map) - 1) div 255"

definition fb_print_ascii_now :: "unit kern" where
  "fb_print_ascii_now = (let sw = 64; sh = 16; sx = FB_WIDTH div sw; sy = FB_HEIGHT div sh in blockK [
     printf (nl @ ''[fb] ASCII preview (coarse %dx%d)'' @ nl) [VInt (of_int sw), VInt (of_int sh)],
     forK [0..sh - 1] (\<lambda>ry. blockK [
       forK [0..sw - 1] (\<lambda>rx.
         bindK (getsK (\<lambda>s. fb_mem (gfx s) (nat (ry * sy * FB_WIDTH + rx * sx)))) (\<lambda>c.
           if 0 \<le> ascii_index c \<and> ascii_index c < int (length ascii_map)
           then printf ''%c'' [VInt (of_char (ascii_map ! nat (ascii_index c)))]
           else undefK ''ascii_map'')),
       printf nl []]),
     printf (''[fb] frame'' @ nl) []])"

definition fb_print_ascii_preview :: "unit kern" where
  "fb_print_ascii_preview = fb_print_ascii_now"

definition fb_print_ascii_if_needed :: "unit kern" where
  "fb_print_ascii_if_needed = returnK ()"


section \<open>Painting\<close>

text \<open>
  Every drawing routine colours a set of points and does nothing else: the part of the set that
  lies outside the screen is clipped. \<open>paints m A c\<close> states this for a statement \<open>m\<close>; the
  calculus below composes it along the control structure.
\<close>

definition coords :: "nat \<Rightarrow> int \<times> int" where
  "coords i = (int (i mod 128), int (i div 128))"

definition paint_mem :: "(int \<times> int) set \<Rightarrow> u32 \<Rightarrow> (nat \<Rightarrow> u32) \<Rightarrow> nat \<Rightarrow> u32" where
  "paint_mem A c m = (\<lambda>i. if i < 16384 \<and> coords i \<in> A then c else m i)"

definition paint :: "(int \<times> int) set \<Rightarrow> u32 \<Rightarrow> kstate \<Rightarrow> kstate" where
  "paint A c s = s\<lparr>gfx := (gfx s)\<lparr>fb_mem := paint_mem A c (fb_mem (gfx s))\<rparr>\<rparr>"

definition paints :: "unit kern \<Rightarrow> (int \<times> int) set \<Rightarrow> u32 \<Rightarrow> bool" where
  "paints m A c \<longleftrightarrow> (\<forall>s. m s = Ret () (paint A c s))"

lemma paint_empty: "paint {} c s = s"
  by (simp add: paint_def paint_mem_def)

lemma paint_mem_Un: "paint_mem B c (paint_mem A c m) = paint_mem (A \<union> B) c m"
  by (auto simp: paint_mem_def)

lemma paint_paint: "paint B c (paint A c s) = paint (A \<union> B) c s"
  by (simp add: paint_def paint_mem_Un)

lemma wp_paints: "paints m A c \<Longrightarrow> wp m Q s = Q () (paint A c s)"
  by (simp add: paints_def wp_def)

lemma paints_return: "paints (returnK ()) {} c"
  by (simp add: paints_def paint_empty run_simps)

lemma paints_bind: "paints m A c \<Longrightarrow> paints k B c \<Longrightarrow> paints (bindK m (\<lambda>_. k)) (A \<union> B) c"
  by (simp add: paints_def bindK_def paint_paint)

lemma paints_then: "paints m A c \<Longrightarrow> paints k B c \<Longrightarrow> paints (thenK m k) (A \<union> B) c"
  by (simp add: thenK_def paints_bind)

lemma paints_block_Nil: "paints (blockK []) {} c"
  by (simp add: paints_return)

lemma paints_block_Cons: "paints m A c \<Longrightarrow> paints (blockK ms) B c \<Longrightarrow> paints (blockK (m # ms)) (A \<union> B) c"
  by (simp add: paints_bind)

lemma paints_forK: "(\<And>x. x \<in> set xs \<Longrightarrow> paints (f x) (A x) c) \<Longrightarrow> paints (forK xs f) (\<Union>x\<in>set xs. A x) c"
proof (induction xs)
  case Nil
  show ?case by (simp add: paints_return)
next
  case (Cons x xs)
  then have "paints (f x) (A x) c" and "paints (forK xs f) (\<Union>x\<in>set xs. A x) c" by auto
  then show ?case using paints_bind by fastforce
qed

lemma paints_cong: "paints m A c \<Longrightarrow> (\<And>x y. in_bounds x y \<Longrightarrow> (x, y) \<in> A \<longleftrightarrow> (x, y) \<in> B) \<Longrightarrow> paints m B c"
proof -
  assume m: "paints m A c" and e: "\<And>x y. in_bounds x y \<Longrightarrow> (x, y) \<in> A \<longleftrightarrow> (x, y) \<in> B"
  have "coords i \<in> A \<longleftrightarrow> coords i \<in> B" if "i < 16384" for i
  proof -
    have "i div 128 < 128" using that by (simp add: less_mult_imp_div_less)
    then have "in_bounds (fst (coords i)) (snd (coords i))"
      by (simp add: coords_def in_bounds_def FB_WIDTH_def FB_HEIGHT_def)
    then show ?thesis using e by (cases "coords i") auto
  qed
  then have "paint_mem A c f = paint_mem B c f" for f by (auto simp: paint_mem_def fun_eq_iff)
  then have "paint A c s = paint B c s" for s by (simp add: paint_def)
  with m show ?thesis by (simp add: paints_def)
qed

lemma coords_pixel:
  assumes "in_bounds x y"
  shows "nat (y * FB_WIDTH + x) < 16384" and "coords i = (x, y) \<longleftrightarrow> i = nat (y * FB_WIDTH + x)"
proof -
  obtain a b where ab: "x = int a" "y = int b" "a < 128" "b < 128"
    using assms by (auto simp: in_bounds_def FB_WIDTH_def FB_HEIGHT_def intro: that [of "nat x" "nat y"])
  have n: "nat (y * FB_WIDTH + x) = b * 128 + a"
    by (simp add: ab FB_WIDTH_def nat_add_distrib nat_mult_distrib)
  then show "nat (y * FB_WIDTH + x) < 16384" using ab by simp
  have "i mod 128 = a \<and> i div 128 = b \<longleftrightarrow> i = b * 128 + a" using ab by auto
  moreover have "coords i = (x, y) \<longleftrightarrow> i mod 128 = a \<and> i div 128 = b" by (auto simp: coords_def ab(1,2))
  ultimately show "coords i = (x, y) \<longleftrightarrow> i = nat (y * FB_WIDTH + x)" unfolding n by simp
qed

lemma paints_store: "in_bounds x y \<Longrightarrow> paints (fb_store (y * FB_WIDTH + x) c) {(x, y)} c"
proof -
  assume b: "in_bounds x y"
  have r: "0 \<le> y * FB_WIDTH + x \<and> y * FB_WIDTH + x < FB_WIDTH * FB_HEIGHT"
    using b by (simp add: in_bounds_def FB_WIDTH_def FB_HEIGHT_def)
  have "m(nat (y * FB_WIDTH + x) := c) = paint_mem {(x, y)} c m" for m
    using coords_pixel [OF b] by (auto simp: fun_eq_iff paint_mem_def)
  with r show ?thesis by (simp add: paints_def paint_def fb_store_def run_simps)
qed

lemma paints_pixel: "paints (fb_draw_pixel x y c) {(x, y)} c"
proof (cases "in_bounds x y")
  case True
  then show ?thesis by (simp add: fb_draw_pixel_def paints_store)
next
  case False
  have "paints (returnK ()) {(x, y)} c"
    using paints_return by (rule paints_cong) (use False in auto)
  with False show ?thesis by (simp add: fb_draw_pixel_def)
qed

lemmas paints_intros = paints_pixel paints_bind paints_then paints_block_Nil paints_block_Cons paints_forK

definition rect :: "int \<Rightarrow> int \<Rightarrow> int \<Rightarrow> int \<Rightarrow> (int \<times> int) set" where
  "rect x y w h = {(i, j). x \<le> i \<and> i < x + w \<and> y \<le> j \<and> j < y + h}"

lemma paints_rect: "paints (fb_draw_rect x y w h c) (rect x y w h) c"
proof -
  have "paints (fb_draw_rect x y w h c) (\<Union>yy\<in>set [y..y + h - 1]. \<Union>xx\<in>set [x..x + w - 1]. {(xx, yy)}) c"
    unfolding fb_draw_rect_def by (intro paints_intros)
  then show ?thesis by (rule paints_cong) (auto simp: rect_def)
qed

text \<open>The unrolled clearing loop.\<close>

lemma paints_store_index:
  assumes "0 \<le> i" and "i < 16384"
  shows "paints (fb_store i c) {coords (nat i)} c"
proof -
  have "i div 128 < 128" and "0 \<le> i div 128" using assms by auto
  then have b: "in_bounds (i mod 128) (i div 128)"
    using pos_mod_bound [of 128 i] pos_mod_sign [of 128 i]
    by (simp add: in_bounds_def FB_WIDTH_def FB_HEIGHT_def not_less)
  have c: "coords (nat i) = (i mod 128, i div 128)"
    using assms(1) by (simp add: coords_def zmod_int zdiv_int)
  show ?thesis using paints_store [OF b, of c] by (simp add: c FB_WIDTH_def)
qed

lemma paints_clear: "paints (fb_clear c) UNIV c"
proof -
  let ?quad = "\<lambda>i. {coords (nat i)} \<union> ({coords (nat (i + 1))} \<union> ({coords (nat (i + 2))} \<union> ({coords (nat (i + 3))} \<union> {})))"
  have first: "paints (blockK [fb_store i c, fb_store (i + 1) c, fb_store (i + 2) c, fb_store (i + 3) c]) (?quad i) c"
    if "i \<in> set (map (\<lambda>k. 4 * k) [0..4095])" for i
  proof -
    have "0 \<le> i \<and> i + 3 < 16384" using that by auto
    then show ?thesis by (intro paints_block_Cons paints_block_Nil paints_store_index) simp_all
  qed
  have "paints (forK (map (\<lambda>k. 4 * k) [0..4095]) (\<lambda>i. blockK [fb_store i c, fb_store (i + 1) c,
      fb_store (i + 2) c, fb_store (i + 3) c])) (\<Union>i\<in>set (map (\<lambda>k. 4 * k) [0..4095]). ?quad i) c"
    by (rule paints_forK) (rule first)
  moreover have "paints (blockK [forK [] (\<lambda>i. fb_store i c)]) {} c"
    by (simp add: paints_def paint_empty run_simps)
  ultimately have "paints (blockK [forK (map (\<lambda>k. 4 * k) [0..4095]) (\<lambda>i. blockK [fb_store i c, fb_store (i + 1) c,
      fb_store (i + 2) c, fb_store (i + 3) c]), forK [] (\<lambda>i. fb_store i c)])
      ((\<Union>i\<in>set (map (\<lambda>k. 4 * k) [0..4095]). ?quad i) \<union> {}) c"
    by (rule paints_block_Cons)
  moreover have "blockK [forK (map (\<lambda>k. 4 * k) [0..4095]) (\<lambda>i. blockK [fb_store i c, fb_store (i + 1) c,
        fb_store (i + 2) c, fb_store (i + 3) c]), forK [] (\<lambda>i. fb_store i c)] = fb_clear c"
    by (simp add: fb_clear_def Let_def FB_WIDTH_def FB_HEIGHT_def del: blockK.simps)
  ultimately have p: "paints (fb_clear c) (\<Union>i\<in>set (map (\<lambda>k. 4 * k) [0..4095]). ?quad i) c" by simp
  show ?thesis
  proof (rule paints_cong [OF p])
    fix x y assume b: "in_bounds x y"
    define i where "i = y * 128 + x"
    have i: "0 \<le> i" "i < 16384" using b by (auto simp: i_def in_bounds_def FB_WIDTH_def FB_HEIGHT_def)
    have xy: "coords (nat i) = (x, y)" using coords_pixel(2) [OF b] by (simp add: i_def FB_WIDTH_def)
    have "i = 4 * (i div 4) \<or> i = 4 * (i div 4) + 1 \<or> i = 4 * (i div 4) + 2 \<or> i = 4 * (i div 4) + 3" by presburger
    moreover have "i div 4 \<in> set [0..4095]" using i by auto
    ultimately show "(x, y) \<in> (\<Union>i\<in>set (map (\<lambda>k. 4 * k) [0..4095]). ?quad i) \<longleftrightarrow> (x, y) \<in> UNIV"
      unfolding xy [symmetric] by (auto intro!: bexI [of _ "i div 4"])
  qed
qed

section \<open>Lines\<close>

text \<open>
  The points of a line: along the longer axis one point per step, the other coordinate rounded
  to the nearest point of the ideal line. \<open>fb_draw_line\<close> computes it with additions only.
\<close>

definition nearest :: "int \<Rightarrow> int \<Rightarrow> int" where
  "nearest a d = (a + (d - 1) div 2) div d"

definition line_points :: "int \<Rightarrow> int \<Rightarrow> int \<Rightarrow> int \<Rightarrow> (int \<times> int) set" where
  "line_points x0 y0 x1 y1 =
     (let sx = (if x1 \<ge> x0 then 1 else -1); sy = (if y1 \<ge> y0 then 1 else -1); dx = \<bar>x1 - x0\<bar>; dy = \<bar>y1 - y0\<bar>
      in if dx > dy then {(x0 + sx * k, y0 + sy * nearest (k * dy) dx) | k. 0 \<le> k \<and> k \<le> dx}
         else {(x0 + sx * nearest (k * dx) dy, y0 + sy * k) | k. 0 \<le> k \<and> k \<le> dy})"

lemma bres_step:
  assumes "(0::int) < d"
  shows "((k + 1) * b + d - 1 - err) div d = (if err - b < 0 then 1 + (k * b + d - 1 - (err - b + d)) div d
    else (k * b + d - 1 - (err - b)) div d)"
proof -
  have a: "(k + 1) * b + d - 1 - err = (k * b + d - 1 - (err - b + d)) + 1 * d" by (simp add: algebra_simps)
  have e: "((k + 1) * b + d - 1 - err) div d = 1 + (k * b + d - 1 - (err - b + d)) div d"
    unfolding a using assms by (simp only: div_mult_self1)
  have f: "((k + 1) * b + d - 1 - err) div d = (k * b + d - 1 - (err - b)) div d"
    by (rule arg_cong [where f = "\<lambda>x. x div d"]) (simp add: algebra_simps)
  show ?thesis
  proof (cases "err - b < 0")
    case True
    show ?thesis by (subst if_P [OF True]) (rule e)
  next
    case False
    show ?thesis by (subst if_not_P [OF False]) (rule f)
  qed
qed

lemma bres_start: "0 \<le> err \<Longrightarrow> err < d \<Longrightarrow> (d - 1 - err) div (d::int) = 0"
  by (simp add: div_pos_pos_trivial)

lemma Suc_points: "{f k | k. k < Suc n} = {f 0} \<union> {f (Suc k) | k. k < n}"
  by (auto simp: less_Suc_eq_0_disj)

text \<open>Both loops are one loop over the longer axis \<open>u\<close>, with the two coordinates in either order.\<close>

primrec line_uv :: "(int \<Rightarrow> int \<Rightarrow> unit kern) \<Rightarrow> nat \<Rightarrow> int \<Rightarrow> int \<Rightarrow> int \<Rightarrow> int \<Rightarrow> int \<Rightarrow> int \<Rightarrow> int \<Rightarrow> unit kern" where
  "line_uv plot 0 u v err su sv du dv = returnK ()"
| "line_uv plot (Suc n) u v err su sv du dv =
     thenK (plot u v)
       (let err = err - dv in
        if err < 0 then line_uv plot n (u + su) (v + sv) (err + du) su sv du dv
        else line_uv plot n (u + su) v err su sv du dv)"

lemma line_x_uv: "line_x n x y err sx sy dx dy c = line_uv (\<lambda>u v. fb_draw_pixel u v c) n x y err sx sy dx dy"
  by (induction n arbitrary: x y err) (simp_all add: Let_def)

lemma line_y_uv: "line_y n x y err sx sy dx dy c = line_uv (\<lambda>u v. fb_draw_pixel v u c) n y x err sy sx dy dx"
  by (induction n arbitrary: x y err) (simp_all add: Let_def)

lemma paints_line_uv:
  assumes "\<And>u v. paints (plot u v) {P u v} c" and "0 \<le> dv" and "dv \<le> du"
  shows "0 \<le> err \<Longrightarrow> err < du \<Longrightarrow> paints (line_uv plot n u v err su sv du dv)
    {P (u + su * int k) (v + sv * ((int k * dv + du - 1 - err) div du)) | k. k < n} c"
proof (induction n arbitrary: u v err)
  case 0
  show ?case by (simp add: paints_return)
next
  case (Suc n)
  let ?pt = "\<lambda>u v err k. P (u + su * int k) (v + sv * ((int k * dv + du - 1 - err) div du))"
  define e where "e = (if err - dv < 0 then err - dv + du else err - dv)"
  define v' where "v' = (if err - dv < 0 then v + sv else v)"
  have d: "0 < du" using Suc.prems by simp
  have "(int (Suc k) * dv + du - 1 - err) div du
      = (if err - dv < 0 then 1 else 0) + (int k * dv + du - 1 - e) div du" for k
    using bres_step [OF d, of "int k" dv err] by (simp add: e_def add.commute)
  then have step: "?pt u v err (Suc k) = ?pt (u + su) v' e k" for k
    by (simp add: v'_def algebra_simps)
  have start: "?pt u v err 0 = P u v" using bres_start Suc.prems by simp
  have "0 \<le> e" "e < du" using Suc.prems assms(2,3) by (auto simp: e_def)
  then have "paints (line_uv plot n (u + su) v' e su sv du dv) {?pt (u + su) v' e k | k. k < n} c"
    by (rule Suc.IH)
  then have "paints (thenK (plot u v) (line_uv plot n (u + su) v' e su sv du dv))
      ({P u v} \<union> {?pt (u + su) v' e k | k. k < n}) c"
    by (rule paints_then [OF assms(1)])
  moreover have "line_uv plot (Suc n) u v err su sv du dv
      = thenK (plot u v) (line_uv plot n (u + su) v' e su sv du dv)"
    by (simp add: e_def v'_def)
  ultimately show ?case unfolding Suc_points step start by simp
qed

lemma nearest_alt: "nearest a d = (a + d - 1 - d div 2) div d"
proof -
  have "a + (d - 1) div 2 = a + d - 1 - d div 2" by presburger
  then show ?thesis by (simp only: nearest_def)
qed

lemma nearest_end: "0 < d \<Longrightarrow> nearest (d * b) d = b"
proof -
  assume d: "0 < d"
  then have "(d - 1) div 2 < d" "0 \<le> (d - 1) div 2" by auto
  then show ?thesis using d by (simp add: nearest_def div_pos_pos_trivial)
qed

text \<open>The line with its last point, along the longer axis.\<close>

lemma paints_line_uv_end:
  assumes plot: "\<And>u v. paints (plot u v) {P u v} c" and dv: "0 \<le> dv" "dv \<le> du"
    and n: "0 \<le> du"
  shows "paints (blockK [line_uv plot (nat du) u v (du div 2) su sv du dv, plot (u + su * du) (v + sv * dv)])
    {P (u + su * k) (v + sv * nearest (k * dv) du) | k. 0 \<le> k \<and> k \<le> du} c"
proof (cases "du = 0")
  case True
  have "{P (u + su * k) (v + sv * nearest (k * dv) du) | k. 0 \<le> k \<and> k \<le> du} = {} \<union> ({P u v} \<union> {})"
    using True by (auto simp: nearest_def intro: exI [of _ 0])
  then show ?thesis
    using True dv paints_block_Cons [OF paints_return paints_block_Cons [OF plot paints_block_Nil]]
    by (simp del: blockK.simps)
next
  case False
  with n have d: "0 < du" by simp
  let ?P = "\<lambda>k. P (u + su * k) (v + sv * nearest (k * dv) du)"
  have last: "P (u + su * du) (v + sv * dv) = ?P du" using nearest_end [OF d] by simp
  have "paints (line_uv plot (nat du) u v (du div 2) su sv du dv) {?P (int k) | k. k < nat du} c"
    unfolding nearest_alt by (rule paints_line_uv [OF plot dv]) (use d in auto)
  then have p: "paints (blockK [line_uv plot (nat du) u v (du div 2) su sv du dv, plot (u + su * du) (v + sv * dv)])
      ({?P (int k) | k. k < nat du} \<union> ({P (u + su * du) (v + sv * dv)} \<union> {})) c"
    by (intro paints_block_Cons paints_block_Nil plot)
  have "{?P (int k) | k. k < nat du} = {?P k | k. 0 \<le> k \<and> k < du}"
  proof (intro set_eqI iffI)
    fix x assume "x \<in> {?P (int k) | k. k < nat du}"
    then obtain k where "x = ?P (int k)" "k < nat du" by blast
    then show "x \<in> {?P k | k. 0 \<le> k \<and> k < du}" by (intro CollectI exI [of _ "int k"]) simp
  next
    fix x assume "x \<in> {?P k | k. 0 \<le> k \<and> k < du}"
    then obtain k where "x = ?P k" "0 \<le> k" "k < du" by blast
    then show "x \<in> {?P (int k) | k. k < nat du}" by (intro CollectI exI [of _ "nat k"]) simp
  qed
  moreover have "{?P k | k. 0 \<le> k \<and> k < du} \<union> {?P du} = {?P k | k. 0 \<le> k \<and> k \<le> du}"
    using d by (auto simp: order.order_iff_strict)
  ultimately show ?thesis using p unfolding last by simp
qed

lemma paints_line: "paints (fb_draw_line x0 y0 x1 y1 c) (line_points x0 y0 x1 y1) c"
proof -
  define sx where "sx = (if x1 \<ge> x0 then 1 else -1 :: int)"
  define sy where "sy = (if y1 \<ge> y0 then 1 else -1 :: int)"
  define dx where "dx = \<bar>x1 - x0\<bar>"
  define dy where "dy = \<bar>y1 - y0\<bar>"
  have e: "x0 + sx * dx = x1" "y0 + sy * dy = y1" "0 \<le> dx" "0 \<le> dy"
    by (auto simp: sx_def sy_def dx_def dy_def)
  have code: "fb_draw_line x0 y0 x1 y1 c = (if dx > dy
      then blockK [line_x (nat dx) x0 y0 (dx div 2) sx sy dx dy c, fb_draw_pixel x1 y1 c]
      else blockK [line_y (nat dy) x0 y0 (dy div 2) sx sy dx dy c, fb_draw_pixel x1 y1 c])"
    by (simp add: fb_draw_line_def Let_def sx_def sy_def dx_def dy_def del: blockK.simps)
  have pts: "line_points x0 y0 x1 y1 = (if dx > dy
      then {(x0 + sx * k, y0 + sy * nearest (k * dy) dx) | k. 0 \<le> k \<and> k \<le> dx}
      else {(x0 + sx * nearest (k * dx) dy, y0 + sy * k) | k. 0 \<le> k \<and> k \<le> dy})"
    by (simp add: line_points_def Let_def sx_def sy_def dx_def dy_def)
  show ?thesis
  proof (cases "dx > dy")
    case True
    then show ?thesis
      using paints_line_uv_end [of "\<lambda>u v. fb_draw_pixel u v c" Pair c dy dx x0 y0 sx sy] e
      by (simp add: code pts line_x_uv paints_pixel del: blockK.simps)
  next
    case False
    then show ?thesis
      using paints_line_uv_end [of "\<lambda>u v. fb_draw_pixel v u c" "\<lambda>u v. (v, u)" c dx dy y0 x0 sy sx] e
      by (simp add: code pts line_y_uv paints_pixel del: blockK.simps)
  qed
qed

lemma line_points_ends: "(x0, y0) \<in> line_points x0 y0 x1 y1 \<and> (x1, y1) \<in> line_points x0 y0 x1 y1"
proof (cases "\<bar>x1 - x0\<bar> > \<bar>y1 - y0\<bar>")
  case True
  then have "0 < \<bar>x1 - x0\<bar>" by simp
  then have "nearest (\<bar>x1 - x0\<bar> * \<bar>y1 - y0\<bar>) \<bar>x1 - x0\<bar> = \<bar>y1 - y0\<bar>" "nearest 0 \<bar>x1 - x0\<bar> = 0"
    using nearest_end [of _ 0] by (simp_all add: nearest_end)
  with True show ?thesis
    by (auto simp: line_points_def Let_def intro: exI [of _ 0] exI [of _ "\<bar>x1 - x0\<bar>"])
next
  case False
  have "nearest (\<bar>y1 - y0\<bar> * \<bar>x1 - x0\<bar>) \<bar>y1 - y0\<bar> = \<bar>x1 - x0\<bar> \<and> nearest 0 \<bar>y1 - y0\<bar> = 0"
    using False nearest_end [of "\<bar>y1 - y0\<bar>"] nearest_end [of "\<bar>y1 - y0\<bar>" 0]
    by (cases "y1 = y0") (auto simp: nearest_def)
  with False show ?thesis
    by (auto simp: line_points_def Let_def intro: exI [of _ 0] exI [of _ "\<bar>y1 - y0\<bar>"])
qed

section \<open>The run-length decoder\<close>

text \<open>
  The format that \<open>fb_rle_decompress\<close> reads: runs of 1 to 127 equal pixels and literal sequences
  of 1 to 128 pixels (the control byte of a run of 128 would be the end marker).
\<close>

datatype rle_seg = Run nat u32 | Lit "u32 list"

fun seg_ok :: "rle_seg \<Rightarrow> bool" where
  "seg_ok (Run n c) \<longleftrightarrow> 1 \<le> n \<and> n \<le> 127"
| "seg_ok (Lit ws) \<longleftrightarrow> 1 \<le> length ws \<and> length ws \<le> 128"

definition word_bytes :: "u32 \<Rightarrow> u8 list" where
  "word_bytes w = le_bytes 4 (unat w)"

fun seg_bytes :: "rle_seg \<Rightarrow> u8 list" where
  "seg_bytes (Run n c) = of_nat (127 + n) # word_bytes c"
| "seg_bytes (Lit ws) = of_nat (length ws - 1) # concat (map word_bytes ws)"

fun seg_pixels :: "rle_seg \<Rightarrow> u32 list" where
  "seg_pixels (Run n c) = replicate n c"
| "seg_pixels (Lit ws) = ws"

lemma length_word_bytes [simp]: "length (word_bytes w) = 4"
  by (simp add: word_bytes_def)

lemma le_word_bytes [simp]: "le_word (word_bytes w @ bs) = Some w"
  using unat_u32_lt [of w] by (simp add: le_word_def word_bytes_def le_nat_le_bytes)

lemma take_words_bytes: "n \<le> length ws \<Longrightarrow>
  take_words n (concat (map word_bytes ws) @ bs) = Some (take n ws, concat (map word_bytes (drop n ws)) @ bs)"
proof (induction n arbitrary: ws)
  case (Suc n)
  then obtain w ws' where "ws = w # ws'" by (cases ws) auto
  with Suc show ?case by simp
qed simp

lemma ctrl_byte:
  assumes "k < 256"
  shows "unat ((of_nat k :: u8) AND 0x7F) = k mod 128" and "(of_nat k :: u8) AND 0x80 \<noteq> 0 \<longleftrightarrow> 128 \<le> k"
    and "(of_nat k :: u8) = 0xFF \<longleftrightarrow> k = 255"
proof -
  have u: "unat (of_nat k :: u8) = k" using assms by (simp add: unat_of_nat)
  have "(of_nat k :: u8) AND 0x7F = take_bit 7 (of_nat k)" by (simp add: take_bit_eq_mask mask_eq_exp_minus_1)
  then show "unat ((of_nat k :: u8) AND 0x7F) = k mod 128"
    using u by (simp add: take_bit_eq_mod unat_mod)
  have "(of_nat k :: u8) AND 0x80 = 0 \<longleftrightarrow> \<not> bit (of_nat k :: u8) 7"
    using and_exp_eq_0_iff_not_bit [of "of_nat k :: u8" 7] by simp
  moreover have "bit (of_nat k :: u8) 7 \<longleftrightarrow> 128 \<le> k"
  proof -
    have "bit (of_nat k :: u8) 7 \<longleftrightarrow> bit (unat (of_nat k :: u8)) 7" by (simp add: bit_unsigned_iff)
    also have "\<dots> \<longleftrightarrow> odd (k div 128)" unfolding u by (simp add: bit_iff_odd)
    also have "\<dots> \<longleftrightarrow> 128 \<le> k"
    proof (cases "128 \<le> k")
      case True
      with assms have "k div 128 = 1" by (subst le_div_geq) simp_all
      with True show ?thesis by simp
    qed simp
    finally show ?thesis .
  qed
  ultimately show "(of_nat k :: u8) AND 0x80 \<noteq> 0 \<longleftrightarrow> 128 \<le> k" by simp
  show "(of_nat k :: u8) = 0xFF \<longleftrightarrow> k = 255" unfolding word_unat_eq_iff u by simp
qed

lemma rle_run:
  assumes "1 \<le> n" and "n \<le> 127" and "left \<noteq> 0"
  shows "rle_loop left (of_nat (127 + n) # word_bytes c @ bs)
    = map_option (\<lambda>ps. replicate (min n left) c @ ps) (rle_loop (left - min n left) bs)"
proof -
  have "127 + n = 128 + (n - 1)" using assms by simp
  then have "(127 + n) mod 128 = (n - 1) mod 128" by (metis mod_add_self1)
  then have m: "(127 + n) mod 128 + 1 = n" using assms by simp
  have "(of_nat (127 + n) :: u8) \<noteq> 0xFF" "(of_nat (127 + n) :: u8) AND 0x80 \<noteq> 0"
    and "unat ((of_nat (127 + n) :: u8) AND 0x7F) + 1 = n"
    using assms m ctrl_byte [of "127 + n"] by simp_all
  with assms(3) show ?thesis
    by (subst rle_loop.simps) (simp add: Let_def del: of_nat_add)
qed

lemma rle_lit:
  assumes "1 \<le> length ws" and "length ws \<le> 128" and "left \<noteq> 0"
  shows "rle_loop left (of_nat (length ws - 1) # concat (map word_bytes ws) @ bs)
    = map_option (\<lambda>ps. take left ws @ ps) (rle_loop (left - min (length ws) left)
        (concat (map word_bytes (drop left ws)) @ bs))"
proof -
  have "length ws - 1 < 128" using assms by simp
  then have "(of_nat (length ws - 1) :: u8) \<noteq> 0xFF" "\<not> (of_nat (length ws - 1) :: u8) AND 0x80 \<noteq> 0"
    and "unat ((of_nat (length ws - 1) :: u8) AND 0x7F) + 1 = length ws"
    using assms ctrl_byte [of "length ws - 1"] by simp_all
  moreover have "take_words (min (length ws) left) (concat (map word_bytes ws) @ bs)
      = Some (take left ws, concat (map word_bytes (drop left ws)) @ bs)"
    using take_words_bytes [of "min (length ws) left" ws bs] by (cases "length ws \<le> left") (simp_all add: min_def)
  ultimately show ?thesis
    using assms(3) by (subst rle_loop.simps) (simp add: Let_def del: of_nat_diff)
qed

lemma rle_loop_segs:
  "list_all seg_ok segs \<Longrightarrow>
   rle_loop left (concat (map seg_bytes segs) @ 0xFF # bs) = Some (take left (concat (map seg_pixels segs)))"
proof (induction segs arbitrary: left)
  case Nil
  show ?case by (subst rle_loop.simps) simp
next
  case (Cons seg segs)
  show ?case
  proof (cases "left = 0")
    case True
    then show ?thesis by (subst rle_loop.simps) simp
  next
    case False
    show ?thesis
    proof (cases seg)
      case (Run n c)
      then have "1 \<le> n" "n \<le> 127" using Cons.prems by auto
      moreover have "left - min n left = left - n" by simp
      ultimately show ?thesis
        using rle_run [OF _ _ False, of n c] Cons by (simp add: Run min.commute del: of_nat_add)
    next
      case (Lit ws)
      then have "1 \<le> length ws" "length ws \<le> 128" using Cons.prems by auto
      from rle_lit [OF this False, of "concat (map seg_bytes segs) @ 0xFF # bs"] Cons
      show ?thesis by (cases "length ws \<le> left") (simp_all add: Lit min_def rle_loop.simps [of 0])
    qed
  qed
qed

lemma length_rle_loop: "rle_loop left src = Some ps \<Longrightarrow> length ps \<le> left"
proof (induction left src arbitrary: ps rule: rle_loop.induct)
  case (1 left src)
  have len: "take_words n bs = Some (ws, rest) \<Longrightarrow> length ws = n" for n bs ws rest
    by (induction n arbitrary: bs ws) (auto split: option.splits)
  show ?case
  proof (cases src)
    case Nil
    with 1(3) show ?thesis by (subst (asm) rle_loop.simps) (simp split: if_splits)
  next
    case (Cons byte src')
    with 1 show ?thesis
      by (subst (asm) (3) rle_loop.simps)
        (force simp: Let_def Cons dest: len split: if_splits option.splits)
  qed
qed

section \<open>The ASCII preview\<close>

lemma byte_le_255: "uint (c AND 0xff :: u32) \<le> 255"
proof -
  have "(c AND 0xff :: u32) = take_bit 8 c" by (simp add: take_bit_eq_mask mask_eq_exp_minus_1)
  then have "uint (c AND 0xff) = uint c mod 256" by (simp add: take_bit_eq_mod uint_mod)
  then show ?thesis using pos_mod_bound [of 256 "uint c"] by simp
qed

lemma ascii_index_range: "0 \<le> ascii_index c \<and> ascii_index c < int (length ascii_map)"
proof -
  have "0 \<le> luminance c \<and> luminance c \<le> 255"
    using byte_le_255 [of "drop_bit 16 c"] byte_le_255 [of "drop_bit 8 c"] byte_le_255 [of c]
    unfolding luminance_def Let_def by (auto simp: pos_imp_zdiv_nonneg_iff)
  then show ?thesis by (auto simp: ascii_index_def ascii_map_def pos_imp_zdiv_nonneg_iff)
qed

definition pixel_char :: "(nat \<Rightarrow> u32) \<Rightarrow> int \<Rightarrow> int \<Rightarrow> char" where
  "pixel_char m ry rx = ascii_map ! nat (ascii_index (m (nat (ry * 8 * 128 + rx * 2))))"

definition preview_text :: "(nat \<Rightarrow> u32) \<Rightarrow> u8 list" where
  "preview_text m = str_bytes (nl @ ''[fb] ASCII preview (coarse 64x16)'' @ nl)
     @ concat (map (\<lambda>ry. str_bytes (map (pixel_char m ry) [0..63] @ nl)) [0..15]) @ str_bytes (''[fb] frame'' @ nl)"

lemma run_block2: "m s = Ret () t \<Longrightarrow> k t = Ret () u \<Longrightarrow> blockK [m, k] s = Ret () u"
  by (simp add: run_simps)

lemma run_block3: "m s = Ret () t \<Longrightarrow> k t = Ret () u \<Longrightarrow> l u = Ret () v \<Longrightarrow> blockK [m, k, l] s = Ret () v"
  by (simp add: run_simps)

lemma emits_forK:
  assumes "\<And>x t. x \<in> set xs \<Longrightarrow> P t \<Longrightarrow> f x t = Ret () (emit (out x) t) \<and> P (emit (out x) t)" and "P s"
  shows "forK xs f s = Ret () (emit (concat (map out xs)) s) \<and> P (emit (concat (map out xs)) s)"
  using assms
proof (induction xs arbitrary: s)
  case Nil
  then show ?case by (simp add: run_simps)
next
  case (Cons x xs)
  then have "f x s = Ret () (emit (out x) s)" "P (emit (out x) s)" by auto
  moreover have "forK xs f t = Ret () (emit (concat (map out xs)) t) \<and> P (emit (concat (map out xs)) t)" if "P t" for t
    using that Cons.prems(1) by (intro Cons.IH) auto
  ultimately show ?case by (fastforce simp: bindK_def)
qed

lemma fmt_pixel: "ch \<in> set ascii_map \<Longrightarrow> fmt_out ''%c'' [VInt (of_char ch)] = Some [of_char ch]"
  by (auto simp: ascii_map_def fmt_out.simps conversions_def conv_out_def con_bytes_def BACKSPACE_def)

lemma run_printf: "PrLock \<notin> set (held s) \<Longrightarrow> CHR 0x00 \<notin> set f \<Longrightarrow> fmt_out f ap = Some out
  \<Longrightarrow> printf f ap s = Ret () (emit out s)"
  using wp_printf [of s f ap out "\<lambda>_ t. t = emit out s"] by (auto elim: wpE)

lemma gfx_emit [simp]: "gfx (emit bs s) = gfx s"
  by (simp add: emit_def)

lemma run_pixel:
  assumes "PrLock \<notin> set (held t)" and "gfx t = g"
  shows "bindK (getsK (\<lambda>s. fb_mem (gfx s) (nat (ry * 8 * 128 + rx * 2)))) (\<lambda>c.
           if 0 \<le> ascii_index c \<and> ascii_index c < int (length ascii_map)
           then printf ''%c'' [VInt (of_char (ascii_map ! nat (ascii_index c)))]
           else undefK ''ascii_map'') t = Ret () (emit [of_char (pixel_char (fb_mem g) ry rx)] t)"
proof -
  let ?c = "fb_mem g (nat (ry * 8 * 128 + rx * 2))"
  have "nat (ascii_index ?c) < length ascii_map" using ascii_index_range [of ?c] by linarith
  then have "ascii_map ! nat (ascii_index ?c) \<in> set ascii_map" by simp
  from fmt_pixel [OF this] have "printf ''%c'' [VInt (of_char (ascii_map ! nat (ascii_index ?c)))] t
      = Ret () (emit [of_char (ascii_map ! nat (ascii_index ?c))] t)"
    using assms(1) by (intro run_printf) auto
  then show ?thesis using assms(2) ascii_index_range [of ?c] by (simp add: run_simps pixel_char_def)
qed

lemma run_preview:
  assumes "PrLock \<notin> set (held s)"
  shows "fb_print_ascii_now s = Ret () (emit (preview_text (fb_mem (gfx s))) s)"
proof -
  let ?P = "\<lambda>t. PrLock \<notin> set (held t) \<and> gfx t = gfx s"
  let ?m = "fb_mem (gfx s)"
  let ?px = "\<lambda>ry rx. bindK (getsK (\<lambda>s. fb_mem (gfx s) (nat (ry * 8 * 128 + rx * 2)))) (\<lambda>c.
           if 0 \<le> ascii_index c \<and> ascii_index c < int (length ascii_map)
           then printf ''%c'' [VInt (of_char (ascii_map ! nat (ascii_index c)))]
           else undefK ''ascii_map'')"
  have row: "blockK [forK [0..63] (?px ry), printf nl []] t
      = Ret () (emit (str_bytes (map (pixel_char ?m ry) [0..63] @ nl)) t)" if P: "?P t" for ry t
  proof -
    have "forK [0..63] (?px ry) t = Ret () (emit (concat (map (\<lambda>rx. [of_char (pixel_char ?m ry rx)]) [0..63])) t)"
    proof (rule emits_forK [of _ ?P, THEN conjunct1])
      show "?px ry rx u = Ret () (emit [of_char (pixel_char ?m ry rx)] u) \<and> ?P (emit [of_char (pixel_char ?m ry rx)] u)"
        if "?P u" for rx u
        using that run_pixel [of u "gfx s" ry rx] by (simp only: held_emit gfx_emit simp_thms)
    qed (rule P)
    moreover have "concat (map (\<lambda>rx. [of_char (pixel_char ?m ry rx)]) [0..63])
        = str_bytes (map (pixel_char ?m ry) [0..63])" by (induction "[0..63 :: int]") auto
    ultimately have loop: "forK [0..63] (?px ry) t = Ret () (emit (str_bytes (map (pixel_char ?m ry) [0..63])) t)"
      by (simp only:)
    have line: "printf nl [] u = Ret () (emit (str_bytes nl) u)" if "?P u" for u
      using that by (intro run_printf) (auto simp: fmt_out.simps)
    have "blockK [forK [0..63] (?px ry), printf nl []] t
        = Ret () (emit (str_bytes nl) (emit (str_bytes (map (pixel_char ?m ry) [0..63])) t))"
      by (rule run_block2, rule loop, rule line) (use P in simp)
    then show ?thesis by (simp only: emit_emit map_append)
  qed
  have rows: "forK [0..15] (\<lambda>ry. blockK [forK [0..63] (?px ry), printf nl []]) t
      = Ret () (emit (concat (map (\<lambda>ry. str_bytes (map (pixel_char ?m ry) [0..63] @ nl)) [0..15])) t)" if "?P t" for t
    by (rule emits_forK [of _ ?P, THEN conjunct1]) (use row that in auto)
  have hdr: "printf (nl @ ''[fb] ASCII preview (coarse %dx%d)'' @ nl) [VInt 64, VInt 16] s
      = Ret () (emit (str_bytes (nl @ ''[fb] ASCII preview (coarse 64x16)'' @ nl)) s)"
    using assms by (intro run_printf) (auto simp: fmt_out.simps conversions_def conv_out_def int_str_def
        num_str_def digs.simps digits_def as_int_def)
  have foot: "printf (''[fb] frame'' @ nl) [] t = Ret () (emit (str_bytes (''[fb] frame'' @ nl)) t)" if "?P t" for t
    using that by (intro run_printf) (auto simp: fmt_out.simps conversions_def)
  have code: "fb_print_ascii_now = blockK [
      printf (nl @ ''[fb] ASCII preview (coarse %dx%d)'' @ nl) [VInt 64, VInt 16],
      forK [0..15] (\<lambda>ry. blockK [forK [0..63] (?px ry), printf nl []]),
      printf (''[fb] frame'' @ nl) []]"
    by (simp add: fb_print_ascii_now_def Let_def FB_WIDTH_def FB_HEIGHT_def del: upto_rec_numeral blockK.simps)
  have "fb_print_ascii_now s = Ret () (emit (str_bytes (''[fb] frame'' @ nl))
      (emit (concat (map (\<lambda>ry. str_bytes (map (pixel_char ?m ry) [0..63] @ nl)) [0..15]))
      (emit (str_bytes (nl @ ''[fb] ASCII preview (coarse 64x16)'' @ nl)) s)))"
    unfolding code by (rule run_block3, rule hdr, rule rows, use assms in simp, rule foot) (use assms in simp)
  then show ?thesis by (simp only: preview_text_def emit_emit append_assoc)
qed

section \<open>Properties\<close>



text \<open>
  C30. The run-length decoder inverts the format it documents: for every sequence of runs and
  literals that the format can express, followed by the end marker, the pixels of the sequence
  come out, cut to the size of the destination; and no input makes it store more than
  \<open>max_pixels\<close> pixels.
\<close>

theorem rle_roundtrip:
  "(list_all seg_ok segs \<longrightarrow>
      fb_rle_decompress (Some (concat (map seg_bytes segs) @ 0xFF # rest)) max_pixels
        = Some (int (length (take (nat max_pixels) (concat (map seg_pixels segs)))),
                take (nat max_pixels) (concat (map seg_pixels segs))))
   \<and> (fb_rle_decompress (Some bs) max_pixels = Some (n, ps) \<longrightarrow> n = int (length ps) \<and> length ps \<le> nat max_pixels)"
proof (intro conjI impI)
  show "fb_rle_decompress (Some (concat (map seg_bytes segs) @ 0xFF # rest)) max_pixels
      = Some (int (length (take (nat max_pixels) (concat (map seg_pixels segs)))),
              take (nat max_pixels) (concat (map seg_pixels segs)))" if "list_all seg_ok segs"
    using rle_loop_segs [OF that] by (simp add: fb_rle_decompress_def)
  assume "fb_rle_decompress (Some bs) max_pixels = Some (n, ps)"
  then have "rle_loop (nat max_pixels) bs = Some ps \<and> n = int (length ps)"
    by (auto simp: fb_rle_decompress_def)
  then show "n = int (length ps)" "length ps \<le> nat max_pixels" using length_rle_loop by blast+
qed

theorem rle_roundtrip_witness:
  "fb_rle_decompress (Some [0x82, 1, 0, 0, 0, 0x00, 7, 0, 0, 0, 0xFF]) 10 = Some (4, [1, 1, 1, 7])"
proof -
  have e: "concat (map seg_bytes [Run 3 1, Lit [7]]) @ 0xFF # [] = [0x82, 1, 0, 0, 0, 0x00, 7, 0, 0, 0, 0xFF]"
    by code_simp
  have p: "take (nat 10) (concat (map seg_pixels [Run 3 1, Lit [7]])) = [1, 1, 1, 7]" by code_simp
  have ok: "list_all seg_ok [Run 3 1, Lit [7]]" by simp
  show ?thesis using rle_roundtrip [of "[Run 3 1, Lit [7]]" "[]" 10, THEN conjunct1, rule_format, OF ok]
    unfolding e p by simp
qed

text \<open>
  C35. The preview never indexes outside the table of characters, whatever the pixels are: it
  returns, prints a header, sixteen rows with one character of the table per sampled pixel and
  a footer, and changes nothing else.
\<close>

theorem fb_preview_total:
  assumes "PrLock \<notin> set (held s)"
  shows "fb_print_ascii_preview s = Ret () (emit (preview_text (fb_mem (gfx s))) s)
     \<and> (\<forall>c. 0 \<le> ascii_index c \<and> ascii_index c < int (length ascii_map))"
  unfolding fb_print_ascii_preview_def by (intro conjI allI run_preview assms ascii_index_range [THEN conjunct1]
      ascii_index_range [THEN conjunct2])

theorem fb_preview_total_witness:
  "fb_print_ascii_preview zero_kstate = Ret () (emit (preview_text (\<lambda>_. 0)) zero_kstate)"
proof -
  have p: "PrLock \<notin> set (held zero_kstate)" by (simp add: zero_kstate_def)
  have m: "fb_mem (gfx zero_kstate) = (\<lambda>_. 0)" by (simp add: zero_kstate_def zero_gfx_def)
  from fb_preview_total [OF p] show ?thesis unfolding m by (rule conjunct1)
qed

end
