(* ===== verification/Devfb.thy ===== *)
theory Devfb
  imports Fb Vm
begin

text \<open>
  The framebuffer device (\<open>devfb.c\<close>). The framebuffer is addressed by bytes; \<open>fb_put_bytes\<close>
  stores bytes into its 32-bit pixels. The bounds check of the rectangle write adds C \<open>int\<close>s, here
  with wrap-around at 32 bits; a copy that leaves the framebuffer is undefined.
\<close>

section \<open>Definitions\<close>

definition FB_DEVICE :: nat where "FB_DEVICE = 2"

definition word_byte :: "u32 \<Rightarrow> nat \<Rightarrow> u8" where
  "word_byte w j = ucast (drop_bit (8 * j) w)"

definition fb_get_bytes :: "(nat \<Rightarrow> u32) \<Rightarrow> nat \<Rightarrow> u8 list" where
  "fb_get_bytes m n = map (\<lambda>k. word_byte (m (k div 4)) (k mod 4)) [0..<n]"

definition fb_put_bytes :: "(nat \<Rightarrow> u32) \<Rightarrow> nat \<Rightarrow> u8 list \<Rightarrow> nat \<Rightarrow> u32" where
  "fb_put_bytes m off bs = (\<lambda>k. of_nat (le_nat (map (\<lambda>j.
     if off \<le> 4 * k + j \<and> 4 * k + j < off + length bs then bs ! (4 * k + j - off) else word_byte (m k) j) [0..<4])))"

definition add32 :: "int \<Rightarrow> int \<Rightarrow> int" where
  "add32 a b = sint (word_of_int (a + b) :: u32)"

definition fb_write_bytes :: "int \<Rightarrow> u8 list \<Rightarrow> unit kern" where
  "fb_write_bytes off bs = (if bs = [] then returnK ()
     else if off < 0 \<or> fb_size_bytes < off + int (length bs) then undefK ''framebuffer overrun''
     else modifyK (\<lambda>s. s\<lparr>gfx := (gfx s)\<lparr>fb_mem := fb_put_bytes (fb_mem (gfx s)) (nat off) bs\<rparr>\<rparr>))"

definition fbdev_init :: "unit kern" where
  "fbdev_init = blockK [
     fb_init,
     printf (''[fbdev] /dev/fb initialized (%d bytes)'' @ nl) [VInt (of_int fb_size_bytes)]]"

definition fbdev_read :: "ubuf \<Rightarrow> int \<Rightarrow> int kern" where
  "fbdev_read dst n = (if n \<le> 0 then returnK 0 else
     let n = (if n > fb_size_bytes then fb_size_bytes else n) in
     thenK (acquire FbLock)
       (bindK (getsK (\<lambda>s. fb_get_bytes (fb_mem (gfx s)) (nat n))) (\<lambda>bs.
        bindK (either_copyout dst 0 bs) (\<lambda>copied.
          thenK (release FbLock) (returnK (if copied < 0 then -1 else n))))))"

definition hdr_int :: "u8 list \<Rightarrow> nat \<Rightarrow> int" where
  "hdr_int hdr k = sint (of_nat (get_field 4 hdr (4 * k)) :: u32)"

primrec fb_rows :: "ubuf \<Rightarrow> int \<Rightarrow> int \<Rightarrow> int \<Rightarrow> nat list \<Rightarrow> bool kern" where
  "fb_rows src x y w [] = returnK True"
| "fb_rows src x y w (row # rows) =
     bindK (either_copyin src (16 + row * nat w * 4) (nat w * 4)) (\<lambda>(r, bs).
       thenK (fb_write_bytes (4 * ((y + int row) * FB_WIDTH + x)) bs)
         (if r < 0 then returnK False else fb_rows src x y w rows))"

definition fbdev_write :: "ubuf \<Rightarrow> int \<Rightarrow> int kern" where
  "fbdev_write src n = (if n \<le> 0 then returnK 0 else
     thenK (acquire FbLock)
     (if n = fb_size_bytes then
        bindK (either_copyin src 0 (nat n)) (\<lambda>(copied, bs). thenK (blockK [
          fb_write_bytes 0 bs,
          fb_print_ascii_if_needed,
          release FbLock]) (returnK (if copied < 0 then -1 else n)))
      else if n \<ge> 16 then
        bindK (either_copyin src 0 16) (\<lambda>(r, hdr).
          if r < 0 then thenK (release FbLock) (returnK (-1))
          else let x = hdr_int hdr 0; y = hdr_int hdr 1; w = hdr_int hdr 2; h = hdr_int hdr 3 in
            if w \<le> 0 \<or> h \<le> 0 \<or> x < 0 \<or> y < 0 \<or> add32 x w > FB_WIDTH \<or> add32 y h > FB_HEIGHT
            then thenK (release FbLock) (returnK (-1))
            else let expected = 16 + word_of_int w * word_of_int h * 4 :: u64 in
              if word_of_int n < expected then thenK (release FbLock) (returnK (-1))
              else bindK (fb_rows src x y w [0..<nat h]) (\<lambda>ok.
                if \<not> ok then thenK (release FbLock) (returnK (-1))
                else thenK (blockK [fb_print_ascii_if_needed, release FbLock])
                  (returnK (sint (ucast expected :: u32)))))
      else bindK (either_copyin src 0 (nat (if n > fb_size_bytes then fb_size_bytes else n))) (\<lambda>(copied, bs).
        thenK (blockK [
          fb_write_bytes 0 bs,
          fb_print_ascii_if_needed,
          release FbLock])
        (returnK (if copied < 0 then -1 else if n > fb_size_bytes then fb_size_bytes else n)))))"

definition fbdev_register :: "unit kern" where
  "fbdev_register = blockK [
     modifyK (\<lambda>s. s\<lparr>devsw := (devsw s)(FB_DEVICE := Some FbDriver)\<rparr>),
     fbdev_init]"

end
