(* ===== verification/File.thy ===== *)
theory File
  imports Fs Pipe Console Devfb
begin

text \<open>
  The file table (\<open>file.c\<close>) and \<open>pipealloc\<close> (\<open>pipe.c\<close>). A file pointer is an index into the
  table. The device switch dispatches to the two drivers of the system. \<open>filewrite\<close> splits a
  write into transactions; its loop runs at most once per byte. The four bytes of padding that
  the compiler puts before \<open>size\<close> in \<open>struct stat\<close>, which the source leaves unset, are zeros here.
\<close>

section \<open>Definitions\<close>

definition get_file :: "nat \<Rightarrow> kfile kern" where
  "get_file f = getsK (\<lambda>s. files s f)"

definition upd_file :: "nat \<Rightarrow> (kfile \<Rightarrow> kfile) \<Rightarrow> unit kern" where
  "upd_file f g = modifyK (\<lambda>s. s\<lparr>files := (files s)(f := g (files s f))\<rparr>)"

definition filealloc :: "nat option kern" where
  "filealloc = thenK (acquire FtableLock) (bindK (getsK files) (\<lambda>fs.
     case find (\<lambda>f. f_ref (fs f) = 0) [0..<NFILE] of
       Some f \<Rightarrow> thenK (blockK [upd_file f (\<lambda>x. x\<lparr>f_ref := 1\<rparr>), release FtableLock]) (returnK (Some f))
     | None \<Rightarrow> thenK (release FtableLock) (returnK None)))"

definition filedup :: "nat \<Rightarrow> nat kern" where
  "filedup f = thenK (acquire FtableLock) (bindK (get_file f) (\<lambda>x.
     if f_ref x < 1 then panicK ''filedup''
     else thenK (blockK [upd_file f (\<lambda>x. x\<lparr>f_ref := f_ref x + 1\<rparr>), release FtableLock]) (returnK f)))"

definition fileclose :: "nat \<Rightarrow> unit kern" where
  "fileclose f = thenK (acquire FtableLock) (bindK (get_file f) (\<lambda>x.
     if f_ref x < 1 then panicK ''fileclose''
     else thenK (upd_file f (\<lambda>x. x\<lparr>f_ref := f_ref x - 1\<rparr>))
       (if f_ref x - 1 > 0 then release FtableLock
        else bindK (get_file f) (\<lambda>ff. blockK [
          upd_file f (\<lambda>x. x\<lparr>f_ref := 0\<rparr>),
          upd_file f (\<lambda>x. x\<lparr>f_type := FD_NONE\<rparr>),
          release FtableLock,
          (if f_type ff = FD_PIPE then pipeclose (f_pipe ff) (f_writable ff)
           else if f_type ff = FD_INODE \<or> f_type ff = FD_DEVICE then blockK [begin_op, iput (f_ip ff), end_op]
           else returnK ())]))))"

definition pipealloc :: "(nat \<times> nat) option kern" where
  "pipealloc = bindK filealloc (\<lambda>r0. case r0 of
      None \<Rightarrow> returnK None
    | Some f0 \<Rightarrow> bindK filealloc (\<lambda>r1. case r1 of
        None \<Rightarrow> thenK (fileclose f0) (returnK None)
      | Some f1 \<Rightarrow> bindK kalloc (\<lambda>pi.
          if pi = 0 then thenK (blockK [fileclose f0, fileclose f1]) (returnK None)
          else thenK (blockK [
              upd_pipe pi (\<lambda>p. p\<lparr>pi_readopen := True\<rparr>),
              upd_pipe pi (\<lambda>p. p\<lparr>pi_writeopen := True\<rparr>),
              upd_pipe pi (\<lambda>p. p\<lparr>pi_nwrite := 0\<rparr>),
              upd_pipe pi (\<lambda>p. p\<lparr>pi_nread := 0\<rparr>),
              upd_file f0 (\<lambda>x. x\<lparr>f_type := FD_PIPE, f_readable := True, f_writable := False, f_pipe := pi\<rparr>),
              upd_file f1 (\<lambda>x. x\<lparr>f_type := FD_PIPE, f_readable := False, f_writable := True, f_pipe := pi\<rparr>)])
            (returnK (Some (f0, f1))))))"

definition stat_bytes :: "stat \<Rightarrow> u8 list" where
  "stat_bytes st = le_bytes 4 (st_dev st) @ le_bytes 4 (st_ino st) @ le_bytes 2 (of_short (st_type st))
     @ le_bytes 2 (of_short (st_nlink st)) @ replicate 4 0 @ le_bytes 8 (unat (st_size st))"

definition filestat :: "nat \<Rightarrow> u64 \<Rightarrow> int kern" where
  "filestat f addr = bindK (get_file f) (\<lambda>x.
     if f_type x = FD_INODE \<or> f_type x = FD_DEVICE then
       thenK (ilock (f_ip x)) (bindK (stati (f_ip x)) (\<lambda>st.
         thenK (iunlock (f_ip x)) (bindK cur_pagetable (\<lambda>pt. bindK (copyout pt addr (stat_bytes st)) (\<lambda>r.
           returnK (if r < 0 then -1 else 0))))))
     else returnK (-1))"

definition dev_read :: "driver \<Rightarrow> ubuf \<Rightarrow> int \<Rightarrow> int kern" where
  "dev_read d dst n = (case d of ConsoleDriver \<Rightarrow> consoleread dst n | FbDriver \<Rightarrow> fbdev_read dst n)"

definition dev_write :: "driver \<Rightarrow> ubuf \<Rightarrow> int \<Rightarrow> int kern" where
  "dev_write d src n = (case d of ConsoleDriver \<Rightarrow> consolewrite src n | FbDriver \<Rightarrow> fbdev_write src n)"

definition find_dev :: "int \<Rightarrow> driver option kern" where
  "find_dev major = (if major < 0 \<or> major \<ge> int NDEV then returnK None else getsK (\<lambda>s. devsw s (nat major)))"

definition fileread :: "nat \<Rightarrow> u64 \<Rightarrow> int \<Rightarrow> int kern" where
  "fileread f addr n = bindK (get_file f) (\<lambda>x.
     if \<not> f_readable x then returnK (-1)
     else case f_type x of
       FD_PIPE \<Rightarrow> piperead (f_pipe x) addr n
     | FD_DEVICE \<Rightarrow> bindK (find_dev (f_major x)) (\<lambda>d. case d of
           None \<Rightarrow> returnK (-1)
         | Some drv \<Rightarrow> dev_read drv (UBuf addr) n)
     | FD_INODE \<Rightarrow> thenK (ilock (f_ip x))
         (bindK (readi (f_ip x) (UBuf addr) (f_off x) (word_of_int n)) (\<lambda>(r, _).
           thenK (blockK [
               whenK (r > 0) (upd_file f (\<lambda>x. x\<lparr>f_off := f_off x + word_of_int r\<rparr>)),
               iunlock (f_ip x)])
             (returnK r)))
     | FD_NONE \<Rightarrow> panicK ''fileread'')"

definition MAXWRITE :: nat where
  "MAXWRITE = (MAXOPBLOCKS - 1 - 1 - 2) div 2 * BSIZE"

primrec filewrite_loop :: "nat \<Rightarrow> nat \<Rightarrow> u64 \<Rightarrow> nat \<Rightarrow> nat \<Rightarrow> nat kern" where
  "filewrite_loop 0 f addr i n = no_fuelK"
| "filewrite_loop (Suc k) f addr i n =
     (if n \<le> i then returnK i
      else let n1 = min (n - i) MAXWRITE in
        bindK (get_file f) (\<lambda>x. thenK (blockK [begin_op, ilock (f_ip x)])
          (bindK (writei (f_ip x) (UBuf (addr + of_nat i)) (f_off x) (of_nat n1)) (\<lambda>r.
            thenK (blockK [
                whenK (r > 0) (upd_file f (\<lambda>x. x\<lparr>f_off := f_off x + word_of_int r\<rparr>)),
                iunlock (f_ip x),
                end_op])
              (if r \<noteq> int n1 then returnK i else filewrite_loop k f addr (i + nat r) n)))))"

definition filewrite :: "nat \<Rightarrow> u64 \<Rightarrow> int \<Rightarrow> int kern" where
  "filewrite f addr n = bindK (get_file f) (\<lambda>x.
     if \<not> f_writable x then returnK (-1)
     else case f_type x of
       FD_PIPE \<Rightarrow> pipewrite (f_pipe x) addr n
     | FD_DEVICE \<Rightarrow> bindK (find_dev (f_major x)) (\<lambda>d. case d of
           None \<Rightarrow> returnK (-1)
         | Some drv \<Rightarrow> dev_write drv (UBuf addr) n)
     | FD_INODE \<Rightarrow> bindK (filewrite_loop (Suc (nat n)) f addr 0 (nat n)) (\<lambda>i.
         returnK (if int i = n then n else -1))
     | FD_NONE \<Rightarrow> panicK ''filewrite'')"

end
