(* ===== verification/Proc.thy ===== *)
theory Proc
  imports File
begin

text \<open>
  Process management (\<open>proc.c\<close>): allocation and release of process slots and their page
  tables, \<open>growproc\<close>, \<open>kfork\<close>, \<open>kexit\<close>, \<open>kwait\<close>. Scheduling and sleeping are in \<open>Sched\<close>.
\<close>

section \<open>Definitions\<close>

definition get_proc :: "nat \<Rightarrow> proc kern" where
  "get_proc p = getsK (\<lambda>s. procs s p)"

definition get_tf :: "nat \<Rightarrow> trapframe kern" where
  "get_tf p = getsK (\<lambda>s. tframes s (p_trapframe (procs s p)))"

definition upd_tf :: "nat \<Rightarrow> (trapframe \<Rightarrow> trapframe) \<Rightarrow> unit kern" where
  "upd_tf p f = modifyK (\<lambda>s. let a = p_trapframe (procs s p) in s\<lparr>tframes := (tframes s)(a := f (tframes s a))\<rparr>)"

definition cpuid :: "nat kern" where
  "cpuid = getsK (\<lambda>s. unat (r_tp (regs s)))"

definition proc_pagetable :: "nat \<Rightarrow> u64 kern" where
  "proc_pagetable p = bindK uvmcreate (\<lambda>pagetable.
     if pagetable = 0 then returnK 0
     else bindK (getsK trampoline) (\<lambda>tr.
       bindK (mappages pagetable TRAMPOLINE (of_nat PGSIZE) tr (PTE_R OR PTE_X)) (\<lambda>r.
         if r < 0 then thenK (uvmfree pagetable 0) (returnK 0)
         else bindK (get_proc p) (\<lambda>q.
           bindK (mappages pagetable TRAPFRAME (of_nat PGSIZE) (p_trapframe q) (PTE_R OR PTE_W)) (\<lambda>r.
             if r < 0 then
               thenK (blockK [uvmunmap pagetable TRAMPOLINE 1 False, uvmfree pagetable 0]) (returnK 0)
             else returnK pagetable)))))"

definition proc_freepagetable :: "u64 \<Rightarrow> u64 \<Rightarrow> unit kern" where
  "proc_freepagetable pagetable sz = blockK [
     uvmunmap pagetable TRAMPOLINE 1 False,
     uvmunmap pagetable TRAPFRAME 1 False,
     uvmfree pagetable sz]"

definition freeproc :: "nat \<Rightarrow> unit kern" where
  "freeproc p = blockK [
     bindK (get_proc p) (\<lambda>q. whenK (p_trapframe q \<noteq> 0) (kfree (p_trapframe q))),
     upd_proc p (\<lambda>q. q\<lparr>p_trapframe := 0\<rparr>),
     bindK (get_proc p) (\<lambda>q. whenK (p_pagetable q \<noteq> 0) (proc_freepagetable (p_pagetable q) (p_sz q))),
     upd_proc p (\<lambda>q. q\<lparr>p_pagetable := 0\<rparr>),
     upd_proc p (\<lambda>q. q\<lparr>p_sz := 0\<rparr>),
     upd_proc p (\<lambda>q. q\<lparr>p_pid := 0\<rparr>),
     upd_proc p (\<lambda>q. q\<lparr>p_parent := None\<rparr>),
     upd_proc p (\<lambda>q. q\<lparr>p_name := (p_name q)[0 := 0]\<rparr>),
     upd_proc p (\<lambda>q. q\<lparr>p_chan := ChanNull\<rparr>),
     upd_proc p (\<lambda>q. q\<lparr>p_killed := False\<rparr>),
     upd_proc p (\<lambda>q. q\<lparr>p_xstate := 0\<rparr>),
     upd_proc p (\<lambda>q. q\<lparr>p_state := UNUSED\<rparr>)]"

text \<open>The search for a free slot returns with the lock of the slot held.\<close>

primrec allocproc_scan :: "nat list \<Rightarrow> nat option kern" where
  "allocproc_scan [] = returnK None"
| "allocproc_scan (p # ps) = thenK (acquire (ProcLock p)) (bindK (get_proc p) (\<lambda>q.
     if p_state q = UNUSED then returnK (Some p)
     else thenK (release (ProcLock p)) (allocproc_scan ps)))"

definition allocproc :: "nat option kern" where
  "allocproc = bindK (allocproc_scan [0..<NPROC]) (\<lambda>found. case found of
      None \<Rightarrow> returnK None
    | Some p \<Rightarrow> bindK allocpid (\<lambda>pid.
        thenK (blockK [
          upd_proc p (\<lambda>q. q\<lparr>p_pid := pid\<rparr>),
          upd_proc p (\<lambda>q. q\<lparr>p_state := USED\<rparr>)])
        (bindK kalloc (\<lambda>tf. thenK (upd_proc p (\<lambda>q. q\<lparr>p_trapframe := tf\<rparr>))
          (if tf = 0 then thenK (blockK [freeproc p, release (ProcLock p)]) (returnK None)
           else bindK (proc_pagetable p) (\<lambda>pt. thenK (upd_proc p (\<lambda>q. q\<lparr>p_pagetable := pt\<rparr>))
             (if pt = 0 then thenK (blockK [freeproc p, release (ProcLock p)]) (returnK None)
              else bindK (getsK (\<lambda>s. sym_forkret (syms s))) (\<lambda>fr.
                thenK (blockK [
                  upd_proc p (\<lambda>q. q\<lparr>p_context := \<lparr>c_ra = 0, c_sp = 0, c_s = (\<lambda>_. 0)\<rparr>\<rparr>),
                  upd_proc p (\<lambda>q. q\<lparr>p_context := (p_context q)\<lparr>c_ra := fr\<rparr>\<rparr>),
                  upd_proc p (\<lambda>q. q\<lparr>p_context := (p_context q)\<lparr>c_sp := p_kstack q + of_nat PGSIZE\<rparr>\<rparr>)])
                (returnK (Some p))))))))))"

definition userinit :: "unit kern" where
  "userinit = bindK allocproc (\<lambda>r. thenK (modifyK (\<lambda>s. s\<lparr>initproc := r\<rparr>)) (case r of
      None \<Rightarrow> undefK ''userinit: null process''
    | Some p \<Rightarrow> bindK (namei [SLASH]) (\<lambda>ip. blockK [
        upd_proc p (\<lambda>q. q\<lparr>p_cwd := ip\<rparr>),
        upd_proc p (\<lambda>q. q\<lparr>p_state := RUNNABLE\<rparr>),
        release (ProcLock p)])))"

definition growproc :: "int \<Rightarrow> int kern" where
  "growproc n = bindK myproc (\<lambda>p. bindK (get_proc p) (\<lambda>q.
     let sz = p_sz q; d = word_of_int n in
     if n > 0 then
       if sz + d > TRAPFRAME then returnK (-1)
       else bindK (uvmalloc (p_pagetable q) sz (sz + d) PTE_W) (\<lambda>sz1.
         if sz1 = 0 then returnK (-1)
         else thenK (upd_proc p (\<lambda>q. q\<lparr>p_sz := sz1\<rparr>)) (returnK 0))
     else if n < 0 then
       bindK (uvmdealloc (p_pagetable q) sz (sz + d)) (\<lambda>sz1.
         thenK (upd_proc p (\<lambda>q. q\<lparr>p_sz := sz1\<rparr>)) (returnK 0))
     else thenK (upd_proc p (\<lambda>q. q\<lparr>p_sz := sz\<rparr>)) (returnK 0)))"

definition dup_ofile :: "nat \<Rightarrow> nat \<Rightarrow> nat \<Rightarrow> unit kern" where
  "dup_ofile p np i = bindK (get_proc p) (\<lambda>q. case p_ofile q i of
      None \<Rightarrow> returnK ()
    | Some f \<Rightarrow> bindK (filedup f) (\<lambda>f.
        upd_proc np (\<lambda>q. q\<lparr>p_ofile := (p_ofile q)(i := Some f)\<rparr>)))"

definition dup_cwd :: "nat \<Rightarrow> nat \<Rightarrow> unit kern" where
  "dup_cwd p np = bindK (get_proc p) (\<lambda>q. case p_cwd q of
      None \<Rightarrow> undefK ''kfork: null cwd''
    | Some ip \<Rightarrow> bindK (idup ip) (\<lambda>ip. upd_proc np (\<lambda>q. q\<lparr>p_cwd := Some ip\<rparr>)))"

definition copy_name :: "u8 list \<Rightarrow> u8 list \<Rightarrow> u8 list" where
  "copy_name dst src = splice dst 0 (safestrcpy (stream_of src) 16)"

definition kfork :: "int kern" where
  "kfork = bindK myproc (\<lambda>p. bindK allocproc (\<lambda>r. case r of
      None \<Rightarrow> returnK (-1)
    | Some np \<Rightarrow> bindK (get_proc p) (\<lambda>q. bindK (get_proc np) (\<lambda>nq.
        bindK (uvmcopy (p_pagetable q) (p_pagetable nq) (p_sz q)) (\<lambda>r.
          if r < 0 then thenK (blockK [freeproc np, release (ProcLock np)]) (returnK (-1))
          else thenK (blockK [
              upd_proc np (\<lambda>x. x\<lparr>p_sz := p_sz q\<rparr>),
              bindK (get_tf p) (\<lambda>tf. upd_tf np (\<lambda>_. tf)),
              upd_tf np (\<lambda>tf. tf\<lparr>tf_a := (tf_a tf)(0 := 0)\<rparr>),
              forK [0..<NOFILE] (dup_ofile p np),
              dup_cwd p np,
              upd_proc np (\<lambda>x. x\<lparr>p_name := copy_name (p_name x) (p_name q)\<rparr>)])
            (bindK (get_proc np) (\<lambda>nq. thenK (blockK [
                release (ProcLock np),
                acquire WaitLock,
                upd_proc np (\<lambda>x. x\<lparr>p_parent := Some p\<rparr>),
                release WaitLock,
                acquire (ProcLock np),
                upd_proc np (\<lambda>x. x\<lparr>p_state := RUNNABLE\<rparr>),
                release (ProcLock np)])
              (returnK (p_pid nq)))))))))"

definition proc_chan :: "nat option \<Rightarrow> chan" where
  "proc_chan p = (case p of None \<Rightarrow> ChanNull | Some p \<Rightarrow> ChanProc p)"

definition reparent :: "nat \<Rightarrow> unit kern" where
  "reparent p = forK [0..<NPROC] (\<lambda>pp. bindK (get_proc pp) (\<lambda>q.
     whenK (p_parent q = Some p) (bindK (getsK initproc) (\<lambda>ip. blockK [
       upd_proc pp (\<lambda>q. q\<lparr>p_parent := ip\<rparr>),
       wakeup (proc_chan ip)]))))"

definition close_ofile :: "nat \<Rightarrow> nat \<Rightarrow> unit kern" where
  "close_ofile p fd = bindK (get_proc p) (\<lambda>q. case p_ofile q fd of
      None \<Rightarrow> returnK ()
    | Some f \<Rightarrow> blockK [fileclose f, upd_proc p (\<lambda>q. q\<lparr>p_ofile := (p_ofile q)(fd := None)\<rparr>)])"

definition put_cwd :: "nat \<Rightarrow> unit kern" where
  "put_cwd p = bindK (get_proc p) (\<lambda>q. case p_cwd q of
      None \<Rightarrow> undefK ''iput: null inode''
    | Some ip \<Rightarrow> iput ip)"

definition kexit :: "int \<Rightarrow> 'a kern" where
  "kexit status = bindK myproc (\<lambda>p. bindK (getsK initproc) (\<lambda>ip.
     if ip = Some p then panicK ''init exiting''
     else thenK (blockK [
         forK [0..<NOFILE] (close_ofile p),
         begin_op,
         put_cwd p,
         end_op,
         upd_proc p (\<lambda>q. q\<lparr>p_cwd := None\<rparr>),
         acquire WaitLock,
         reparent p,
         bindK (get_proc p) (\<lambda>q. wakeup (proc_chan (p_parent q))),
         acquire (ProcLock p),
         upd_proc p (\<lambda>q. q\<lparr>p_xstate := status\<rparr>),
         upd_proc p (\<lambda>q. q\<lparr>p_state := ZOMBIE\<rparr>),
         release WaitLock,
         sched])
       (panicK ''zombie exit'')))"

text \<open>
  One pass of \<open>kwait\<close> over the table: \<open>Inr pid\<close> when it returns (the pid of a reaped child or
  \<open>-1\<close>), \<open>Inl havekids\<close> when the scan reaches the end.
\<close>

primrec kwait_scan :: "nat list \<Rightarrow> nat \<Rightarrow> u64 \<Rightarrow> bool \<Rightarrow> (bool + int) kern" where
  "kwait_scan [] p addr havekids = returnK (Inl havekids)"
| "kwait_scan (pp # pps) p addr havekids = bindK (get_proc pp) (\<lambda>q.
     if p_parent q = Some p then
       thenK (acquire (ProcLock pp)) (bindK (get_proc pp) (\<lambda>q.
         if p_state q = ZOMBIE then
           bindK (get_proc p) (\<lambda>me.
           bindK (if addr \<noteq> 0
                  then copyout (p_pagetable me) addr (le_bytes 4 (unat (word_of_int (p_xstate q) :: u32)))
                  else returnK 0) (\<lambda>r.
             if r < 0 then
               thenK (blockK [release (ProcLock pp), release WaitLock]) (returnK (Inr (-1)))
             else thenK (blockK [freeproc pp, release (ProcLock pp), release WaitLock])
               (returnK (Inr (p_pid q)))))
         else thenK (release (ProcLock pp)) (kwait_scan pps p addr True)))
     else kwait_scan pps p addr havekids)"

definition kwait_loop :: "u64 \<Rightarrow> int kern" where
  "kwait_loop addr = bindK myproc (\<lambda>p. bindK (kwait_scan [0..<NPROC] p addr False) (\<lambda>r. case r of
      Inr pid \<Rightarrow> returnK pid
    | Inl havekids \<Rightarrow> bindK (if \<not> havekids then returnK True else killed p) (\<lambda>stop.
        if stop then thenK (release WaitLock) (returnK (-1))
        else sleep (ChanProc p) WaitLock)))"

definition kwait :: "u64 \<Rightarrow> int kern" where
  "kwait addr = thenK (acquire WaitLock) (kwait_loop addr)"

definition kwait_resume :: "u64 \<Rightarrow> int kern" where
  "kwait_resume addr = thenK (sleep_resume WaitLock) (kwait_loop addr)"

end
