(* ===== verification/Exec.thy ===== *)
theory Exec
  imports Proc
begin

text \<open>
  Program loading (\<open>exec.c\<close>, \<open>elf.h\<close>). Headers are decoded from the bytes \<open>readi\<close> returns; an
  argument vector is the list of its strings without their terminators.
\<close>

section \<open>Definitions\<close>

definition ELF_MAGIC :: nat where "ELF_MAGIC = 0x464C457F"
definition ELF_PROG_LOAD :: nat where "ELF_PROG_LOAD = 1"
definition USERSTACK :: nat where "USERSTACK = 1"

record elfhdr =
  elf_magic :: nat
  elf_entry :: u64
  elf_phoff :: u64
  elf_phnum :: nat

record proghdr =
  ph_type :: nat
  ph_flags :: nat
  ph_off :: u64
  ph_vaddr :: u64
  ph_filesz :: u64
  ph_memsz :: u64

definition get_elfhdr :: "u8 list \<Rightarrow> elfhdr" where
  "get_elfhdr d = \<lparr>elf_magic = get_field 4 d 0, elf_entry = of_nat (get_field 8 d 24),
     elf_phoff = of_nat (get_field 8 d 32), elf_phnum = get_field 2 d 56\<rparr>"

definition get_proghdr :: "u8 list \<Rightarrow> proghdr" where
  "get_proghdr d = \<lparr>ph_type = get_field 4 d 0, ph_flags = get_field 4 d 4, ph_off = of_nat (get_field 8 d 8),
     ph_vaddr = of_nat (get_field 8 d 16), ph_filesz = of_nat (get_field 8 d 32),
     ph_memsz = of_nat (get_field 8 d 40)\<rparr>"

definition flags2perm :: "nat \<Rightarrow> u64" where
  "flags2perm flags = (if bit flags 0 then PTE_X else 0) OR (if bit flags 1 then PTE_W else 0)"

primrec loadseg_loop :: "u64 \<Rightarrow> u64 \<Rightarrow> nat \<Rightarrow> u32 \<Rightarrow> nat \<Rightarrow> nat list \<Rightarrow> int kern" where
  "loadseg_loop pagetable va ip offset sz [] = returnK 0"
| "loadseg_loop pagetable va ip offset sz (i # is) =
     bindK (walkaddr pagetable (va + of_nat i)) (\<lambda>pa.
       if pa = 0 then panicK ''loadseg: address should exist''
       else let n = (if sz - i < PGSIZE then sz - i else PGSIZE) in
         bindK (readi ip (KBuf []) (offset + of_nat i) (of_nat n)) (\<lambda>(r, bs).
           thenK (put_mem pa bs)
             (if r \<noteq> int n then returnK (-1) else loadseg_loop pagetable va ip offset sz is)))"

definition loadseg :: "u64 \<Rightarrow> u64 \<Rightarrow> nat \<Rightarrow> u32 \<Rightarrow> u32 \<Rightarrow> int kern" where
  "loadseg pagetable va ip offset sz =
     loadseg_loop pagetable va ip offset (unat sz) (map (\<lambda>k. k * PGSIZE) [0..<(unat sz + (PGSIZE - 1)) div PGSIZE])"

text \<open>
  The loading loop: \<open>(True, sz)\<close> when all headers are done, \<open>(False, sz)\<close> on \<open>goto bad\<close>, with
  the size reached so far.
\<close>

primrec load_segments :: "nat \<Rightarrow> u64 \<Rightarrow> nat \<Rightarrow> u32 \<Rightarrow> u64 \<Rightarrow> (bool \<times> u64) kern" where
  "load_segments 0 pagetable ip off sz = returnK (True, sz)"
| "load_segments (Suc n) pagetable ip off sz =
     bindK (readi ip (KBuf []) off 56) (\<lambda>(r, bs).
       if r \<noteq> 56 then returnK (False, sz)
       else let ph = get_proghdr bs in
         if ph_type ph \<noteq> ELF_PROG_LOAD then load_segments n pagetable ip (off + 56) sz
         else if ph_memsz ph < ph_filesz ph then returnK (False, sz)
         else if ph_vaddr ph + ph_memsz ph < ph_vaddr ph then returnK (False, sz)
         else if unat (ph_vaddr ph) mod PGSIZE \<noteq> 0 then returnK (False, sz)
         else bindK (uvmalloc pagetable sz (ph_vaddr ph + ph_memsz ph) (flags2perm (ph_flags ph))) (\<lambda>sz1.
           if sz1 = 0 then returnK (False, sz)
           else bindK (loadseg pagetable (ph_vaddr ph) ip (ucast (ph_off ph)) (ucast (ph_filesz ph))) (\<lambda>r.
             if r < 0 then returnK (False, sz1)
             else load_segments n pagetable ip (off + 56) sz1)))"

definition align16 :: "u64 \<Rightarrow> u64" where
  "align16 sp = sp - sp mod 16"

text \<open>Copying the argument strings: the stack pointer and the addresses stored in \<open>ustack\<close>.\<close>

primrec push_args :: "u8 list list \<Rightarrow> u64 \<Rightarrow> u64 \<Rightarrow> u64 \<Rightarrow> u64 list \<Rightarrow> (u64 \<times> u64 list) option kern" where
  "push_args [] pagetable stackbase sp ustack = returnK (Some (sp, ustack))"
| "push_args (arg # args) pagetable stackbase sp ustack =
     (if length ustack \<ge> MAXARG then returnK None
      else let sp = align16 (sp - of_nat (length arg + 1)) in
        if sp < stackbase then returnK None
        else bindK (copyout pagetable sp (arg @ [0])) (\<lambda>r.
          if r < 0 then returnK None
          else push_args args pagetable stackbase sp (ustack @ [sp])))"

definition path_last :: "u8 list \<Rightarrow> u8 list" where
  "path_last path = rev (takeWhile (\<lambda>c. c \<noteq> SLASH) (rev path))"

definition exec_commit :: "nat \<Rightarrow> u8 list \<Rightarrow> elfhdr \<Rightarrow> u64 \<Rightarrow> u64 \<Rightarrow> u64 \<Rightarrow> unit kern" where
  "exec_commit p path elf pagetable sz sp = bindK (get_proc p) (\<lambda>old. blockK [
     upd_tf p (\<lambda>tf. tf\<lparr>tf_a := (tf_a tf)(1 := sp)\<rparr>),
     upd_proc p (\<lambda>q. q\<lparr>p_name := copy_name (p_name q) (path_last path)\<rparr>),
     upd_proc p (\<lambda>q. q\<lparr>p_pagetable := pagetable\<rparr>),
     upd_proc p (\<lambda>q. q\<lparr>p_sz := sz\<rparr>),
     upd_tf p (\<lambda>tf. tf\<lparr>tf_epc := elf_entry elf\<rparr>),
     upd_tf p (\<lambda>tf. tf\<lparr>tf_sp := sp\<rparr>),
     proc_freepagetable (p_pagetable old) (p_sz old)])"

text \<open>From the stack on: the inode has been put, so \<open>bad\<close> only frees the new page table.\<close>

definition exec_stack :: "u8 list \<Rightarrow> u8 list list \<Rightarrow> elfhdr \<Rightarrow> u64 \<Rightarrow> u64 \<Rightarrow> int kern" where
  "exec_stack path argv elf pagetable sz0 = bindK myproc (\<lambda>p.
     let sz = PGROUNDUP sz0; guard = of_nat ((USERSTACK + 1) * PGSIZE);
         bad = (\<lambda>sz. thenK (proc_freepagetable pagetable sz) (returnK (-1))) in
     bindK (uvmalloc pagetable sz (sz + guard) PTE_W) (\<lambda>sz1.
       if sz1 = 0 then bad sz
       else thenK (uvmclear pagetable (sz1 - guard))
         (let stackbase = sz1 - of_nat (USERSTACK * PGSIZE) in
          bindK (push_args argv pagetable stackbase sz1 []) (\<lambda>r. case r of
            None \<Rightarrow> bad sz1
          | Some (sp, ustack) \<Rightarrow>
              if length ustack \<ge> MAXARG then undefK ''kexec: ustack index out of bounds''
              else let argc = length ustack; sp = align16 (sp - of_nat ((argc + 1) * 8)) in
                if sp < stackbase then bad sz1
                else bindK (copyout pagetable sp (concat (map (\<lambda>w. le_bytes 8 (unat w)) (ustack @ [0])))) (\<lambda>r.
                  if r < 0 then bad sz1
                  else thenK (exec_commit p path elf pagetable sz1 sp) (returnK (int argc)))))))"

definition kexec :: "u8 list \<Rightarrow> u8 list list \<Rightarrow> int kern" where
  "kexec path argv = bindK myproc (\<lambda>p. thenK begin_op (bindK (namei path) (\<lambda>r. case r of
      None \<Rightarrow> thenK end_op (returnK (-1))
    | Some ip \<Rightarrow> thenK (ilock ip) (bindK (readi ip (KBuf []) 0 64) (\<lambda>(r, bs).
        let elf = get_elfhdr bs; put = blockK [iunlockput ip, end_op] in
        if r \<noteq> 64 then thenK put (returnK (-1))
        else if elf_magic elf \<noteq> ELF_MAGIC then thenK put (returnK (-1))
        else bindK (proc_pagetable p) (\<lambda>pagetable.
          if pagetable = 0 then thenK put (returnK (-1))
          else bindK (load_segments (elf_phnum elf) pagetable ip (ucast (elf_phoff elf)) 0) (\<lambda>(ok, sz).
            if ok then thenK put (exec_stack path argv elf pagetable sz)
            else thenK (blockK [proc_freepagetable pagetable sz, put]) (returnK (-1)))))))))"

end
