(* ===== verification/Sysargs.thy ===== *)
theory Sysargs
  imports Exec
begin

text \<open>
  Fetching system-call arguments (\<open>syscall.c\<close>). A fetched string is its bytes up to the
  terminator, beside the value the C function returns.
\<close>

section \<open>Definitions\<close>

definition fetchaddr :: "u64 \<Rightarrow> (int \<times> u64) kern" where
  "fetchaddr addr = bindK myproc (\<lambda>p. bindK (get_proc p) (\<lambda>q.
     if addr \<ge> p_sz q \<or> addr + 8 > p_sz q then returnK (-1, 0)
     else bindK (copyin (p_pagetable q) addr 8) (\<lambda>(r, bs).
       if r \<noteq> 0 then returnK (-1, 0) else returnK (0, of_nat (le_nat bs)))))"

definition fetchstr :: "u64 \<Rightarrow> nat \<Rightarrow> (int \<times> u8 list) kern" where
  "fetchstr addr maxlen = bindK myproc (\<lambda>p. bindK (get_proc p) (\<lambda>q.
     bindK (copyinstr (p_pagetable q) addr maxlen) (\<lambda>(r, bs).
       if r < 0 then returnK (-1, bs)
       else let str = takeWhile (\<lambda>c. c \<noteq> 0) bs in returnK (int (length str), str))))"

definition argraw :: "nat \<Rightarrow> u64 kern" where
  "argraw n = bindK myproc (\<lambda>p. bindK (get_tf p) (\<lambda>tf.
     if n \<le> 5 then returnK (tf_a tf n) else panicK ''argraw''))"

definition argint :: "nat \<Rightarrow> int kern" where
  "argint n = bindK (argraw n) (\<lambda>w. returnK (sint (ucast w :: u32)))"

definition argaddr :: "nat \<Rightarrow> u64 kern" where
  "argaddr n = argraw n"

definition argstr :: "nat \<Rightarrow> nat \<Rightarrow> (int \<times> u8 list) kern" where
  "argstr n maxlen = bindK (argaddr n) (\<lambda>addr. fetchstr addr maxlen)"

end
