(* ===== verification/Sysfile.thy ===== *)
theory Sysfile
  imports Sysargs
begin

text \<open>
  The file-system calls (\<open>sysfile.c\<close>). A handler returns the C integer it returns; the
  dispatcher converts it to the 64-bit register value. \<open>goto bad\<close> is a shared last block.
\<close>

section \<open>Descriptors\<close>

definition argfd :: "nat \<Rightarrow> (nat \<times> nat) option kern" where
  "argfd n = bindK (argint n) (\<lambda>fd.
     if fd < 0 \<or> fd \<ge> int NOFILE then returnK None
     else bindK myproc (\<lambda>p. bindK (get_proc p) (\<lambda>q. case p_ofile q (nat fd) of
         None \<Rightarrow> returnK None
       | Some f \<Rightarrow> returnK (Some (nat fd, f)))))"

definition set_ofile :: "nat \<Rightarrow> nat \<Rightarrow> nat option \<Rightarrow> unit kern" where
  "set_ofile p fd f = upd_proc p (\<lambda>q. q\<lparr>p_ofile := (p_ofile q)(fd := f)\<rparr>)"

definition fdalloc :: "nat \<Rightarrow> int kern" where
  "fdalloc f = bindK myproc (\<lambda>p. bindK (get_proc p) (\<lambda>q.
     case find (\<lambda>fd. p_ofile q fd = None) [0..<NOFILE] of
       Some fd \<Rightarrow> thenK (set_ofile p fd (Some f)) (returnK (int fd))
     | None \<Rightarrow> returnK (-1)))"

definition sys_dup :: "int kern" where
  "sys_dup = bindK (argfd 0) (\<lambda>a. case a of
      None \<Rightarrow> returnK (-1)
    | Some (_, f) \<Rightarrow> bindK (fdalloc f) (\<lambda>fd.
        if fd < 0 then returnK (-1) else bindK (filedup f) (\<lambda>_. returnK fd)))"

definition sys_read :: "int kern" where
  "sys_read = bindK (argaddr 1) (\<lambda>p. bindK (argint 2) (\<lambda>n. bindK (argfd 0) (\<lambda>a. case a of
      None \<Rightarrow> returnK (-1)
    | Some (_, f) \<Rightarrow> fileread f p n)))"

definition sys_write :: "int kern" where
  "sys_write = bindK (argaddr 1) (\<lambda>p. bindK (argint 2) (\<lambda>n. bindK (argfd 0) (\<lambda>a. case a of
      None \<Rightarrow> returnK (-1)
    | Some (_, f) \<Rightarrow> filewrite f p n)))"

definition sys_close :: "int kern" where
  "sys_close = bindK (argfd 0) (\<lambda>a. case a of
      None \<Rightarrow> returnK (-1)
    | Some (fd, f) \<Rightarrow> bindK myproc (\<lambda>p.
        thenK (blockK [set_ofile p fd None, fileclose f]) (returnK 0)))"

definition sys_fstat :: "int kern" where
  "sys_fstat = bindK (argaddr 1) (\<lambda>st. bindK (argfd 0) (\<lambda>a. case a of
      None \<Rightarrow> returnK (-1)
    | Some (_, f) \<Rightarrow> filestat f st))"

section \<open>Links\<close>

definition add_nlink :: "nat \<Rightarrow> int \<Rightarrow> unit kern" where
  "add_nlink ip d = upd_inode ip (\<lambda>i. i\<lparr>i_nlink := short_of (of_short (i_nlink i + d))\<rparr>)"

definition link_bad :: "nat \<Rightarrow> int kern" where
  "link_bad ip = thenK (blockK [ilock ip, add_nlink ip (-1), iupdate ip, iunlockput ip, end_op]) (returnK (-1))"

definition sys_link :: "int kern" where
  "sys_link = bindK (argstr 0 MAXPATH) (\<lambda>(r0, old). if r0 < 0 then returnK (-1)
     else bindK (argstr 1 MAXPATH) (\<lambda>(r1, new). if r1 < 0 then returnK (-1)
     else thenK begin_op (bindK (namei old) (\<lambda>r. case r of
        None \<Rightarrow> thenK end_op (returnK (-1))
      | Some ip \<Rightarrow> thenK (ilock ip) (bindK (get_inode ip) (\<lambda>i.
          if i_type i = T_DIR then thenK (blockK [iunlockput ip, end_op]) (returnK (-1))
          else thenK (blockK [add_nlink ip 1, iupdate ip, iunlock ip])
            (bindK (nameiparent new) (\<lambda>r. case r of
               None \<Rightarrow> link_bad ip
             | Some (dp, name) \<Rightarrow> thenK (ilock dp) (bindK (get_inode dp) (\<lambda>d. bindK (get_inode ip) (\<lambda>i.
                 bindK (if i_dev d \<noteq> i_dev i then returnK (-1) else dirlink dp name (i_inum i)) (\<lambda>r.
                   if r < 0 then thenK (iunlockput dp) (link_bad ip)
                   else thenK (blockK [iunlockput dp, iput ip, end_op]) (returnK 0)))))))))))))"

primrec isdirempty_loop :: "nat \<Rightarrow> nat list \<Rightarrow> bool kern" where
  "isdirempty_loop dp [] = returnK True"
| "isdirempty_loop dp (off # offs) = bindK (readi dp (KBuf []) (of_nat off) 16) (\<lambda>(r, bs).
     if r \<noteq> 16 then panicK ''isdirempty: readi''
     else if de_inum (get_dirent bs) \<noteq> 0 then returnK False
     else isdirempty_loop dp offs)"

definition isdirempty :: "nat \<Rightarrow> bool kern" where
  "isdirempty dp = bindK (get_inode dp) (\<lambda>i. isdirempty_loop dp (drop 2 (dirent_offs (i_size i))))"

definition DOT :: "u8 list" where "DOT = [46]"
definition DOTDOT :: "u8 list" where "DOTDOT = [46, 46]"

definition unlink_bad :: "nat \<Rightarrow> int kern" where
  "unlink_bad dp = thenK (blockK [iunlockput dp, end_op]) (returnK (-1))"

definition unlink_entry :: "nat \<Rightarrow> nat \<Rightarrow> nat \<Rightarrow> int kern" where
  "unlink_entry dp ip off = bindK (writei dp (KBuf (replicate 16 0)) (of_nat off) 16) (\<lambda>r.
     if r \<noteq> 16 then panicK ''unlink: writei''
     else bindK (get_inode ip) (\<lambda>i. thenK (blockK [
         whenK (i_type i = T_DIR) (blockK [add_nlink dp (-1), iupdate dp]),
         iunlockput dp,
         add_nlink ip (-1),
         iupdate ip,
         iunlockput ip,
         end_op])
       (returnK 0)))"

definition sys_unlink :: "int kern" where
  "sys_unlink = bindK (argstr 0 MAXPATH) (\<lambda>(r, path). if r < 0 then returnK (-1)
     else thenK begin_op (bindK (nameiparent path) (\<lambda>r. case r of
        None \<Rightarrow> thenK end_op (returnK (-1))
      | Some (dp, name) \<Rightarrow> thenK (ilock dp)
          (if namecmp name DOT = 0 \<or> namecmp name DOTDOT = 0 then unlink_bad dp
           else bindK (dirlookup dp name) (\<lambda>r. case r of
               None \<Rightarrow> unlink_bad dp
             | Some (ip, off) \<Rightarrow> thenK (ilock ip) (bindK (get_inode ip) (\<lambda>i.
                 if i_nlink i < 1 then panicK ''unlink: nlink < 1''
                 else bindK (if i_type i = T_DIR then isdirempty ip else returnK True) (\<lambda>ok.
                   if \<not> ok then thenK (iunlockput ip) (unlink_bad dp)
                   else unlink_entry dp ip off))))))))"

section \<open>Creation and opening\<close>

definition create_fail :: "nat \<Rightarrow> nat \<Rightarrow> nat option kern" where
  "create_fail dp ip = thenK (blockK [
       upd_inode ip (\<lambda>i. i\<lparr>i_nlink := 0\<rparr>), iupdate ip, iunlockput ip, iunlockput dp])
     (returnK None)"

definition create_new :: "nat \<Rightarrow> nat \<Rightarrow> u8 list \<Rightarrow> int \<Rightarrow> int \<Rightarrow> int \<Rightarrow> nat option kern" where
  "create_new dp ip name type major minor = thenK (blockK [
       ilock ip,
       upd_inode ip (\<lambda>i. i\<lparr>i_major := major\<rparr>),
       upd_inode ip (\<lambda>i. i\<lparr>i_minor := minor\<rparr>),
       upd_inode ip (\<lambda>i. i\<lparr>i_nlink := 1\<rparr>),
       iupdate ip])
     (bindK (get_inode ip) (\<lambda>i. bindK (get_inode dp) (\<lambda>d.
      bindK (if type = T_DIR
             then bindK (dirlink ip DOT (i_inum i)) (\<lambda>r.
               if r < 0 then returnK False
               else bindK (dirlink ip DOTDOT (i_inum d)) (\<lambda>r. returnK (r \<ge> 0)))
             else returnK True) (\<lambda>ok.
        if \<not> ok then create_fail dp ip
        else bindK (dirlink dp name (i_inum i)) (\<lambda>r.
          if r < 0 then create_fail dp ip
          else thenK (blockK [
              whenK (type = T_DIR) (blockK [add_nlink dp 1, iupdate dp]),
              iunlockput dp])
            (returnK (Some ip)))))))"

definition create :: "u8 list \<Rightarrow> int \<Rightarrow> int \<Rightarrow> int \<Rightarrow> nat option kern" where
  "create path type major minor = bindK (nameiparent path) (\<lambda>r. case r of
      None \<Rightarrow> returnK None
    | Some (dp, name) \<Rightarrow> thenK (ilock dp) (bindK (dirlookup dp name) (\<lambda>r. case r of
        Some (ip, _) \<Rightarrow> thenK (blockK [iunlockput dp, ilock ip]) (bindK (get_inode ip) (\<lambda>i.
          if type = T_FILE \<and> (i_type i = T_FILE \<or> i_type i = T_DEVICE) then returnK (Some ip)
          else thenK (iunlockput ip) (returnK None)))
      | None \<Rightarrow> bindK (get_inode dp) (\<lambda>d. bindK (ialloc (i_dev d) type) (\<lambda>r. case r of
          None \<Rightarrow> thenK (iunlockput dp) (returnK None)
        | Some ip \<Rightarrow> create_new dp ip name type major minor)))))"

definition O_RDONLY :: int where "O_RDONLY = 0x000"
definition O_WRONLY :: int where "O_WRONLY = 0x001"
definition O_RDWR :: int where "O_RDWR = 0x002"
definition O_CREATE :: int where "O_CREATE = 0x200"
definition O_TRUNC :: int where "O_TRUNC = 0x400"

text \<open>The inode an \<open>open\<close> refers to, locked; \<open>None\<close> after an error.\<close>

definition open_inode :: "u8 list \<Rightarrow> int \<Rightarrow> nat option kern" where
  "open_inode path omode =
     (if omode AND O_CREATE \<noteq> 0 then bindK (create path T_FILE 0 0) (\<lambda>r. case r of
          None \<Rightarrow> thenK end_op (returnK None)
        | Some ip \<Rightarrow> returnK (Some ip))
      else bindK (namei path) (\<lambda>r. case r of
          None \<Rightarrow> thenK end_op (returnK None)
        | Some ip \<Rightarrow> thenK (ilock ip) (bindK (get_inode ip) (\<lambda>i.
            if i_type i = T_DIR \<and> omode \<noteq> O_RDONLY
            then thenK (blockK [iunlockput ip, end_op]) (returnK None)
            else returnK (Some ip)))))"

definition init_file :: "nat \<Rightarrow> nat \<Rightarrow> inode \<Rightarrow> int \<Rightarrow> unit kern" where
  "init_file f ip i omode = blockK [
     (if i_type i = T_DEVICE then upd_file f (\<lambda>x. x\<lparr>f_type := FD_DEVICE, f_major := i_major i\<rparr>)
      else upd_file f (\<lambda>x. x\<lparr>f_type := FD_INODE, f_off := 0\<rparr>)),
     upd_file f (\<lambda>x. x\<lparr>f_ip := ip\<rparr>),
     upd_file f (\<lambda>x. x\<lparr>f_readable := (omode AND O_WRONLY = 0)\<rparr>),
     upd_file f (\<lambda>x. x\<lparr>f_writable := (omode AND O_WRONLY \<noteq> 0 \<or> omode AND O_RDWR \<noteq> 0)\<rparr>)]"

definition sys_open :: "int kern" where
  "sys_open = bindK (argint 1) (\<lambda>omode. bindK (argstr 0 MAXPATH) (\<lambda>(n, path).
     if n < 0 then returnK (-1)
     else thenK begin_op (bindK (open_inode path omode) (\<lambda>r. case r of
        None \<Rightarrow> returnK (-1)
      | Some ip \<Rightarrow> bindK (get_inode ip) (\<lambda>i.
          let drop = blockK [iunlockput ip, end_op] in
          if i_type i = T_DEVICE \<and> (i_major i < 0 \<or> i_major i \<ge> int NDEV) then thenK drop (returnK (-1))
          else bindK filealloc (\<lambda>r. case r of
              None \<Rightarrow> thenK drop (returnK (-1))
            | Some f \<Rightarrow> bindK (fdalloc f) (\<lambda>fd.
                if fd < 0 then thenK (blockK [fileclose f, drop]) (returnK (-1))
                else thenK (blockK [
                    init_file f ip i omode,
                    whenK (omode AND O_TRUNC \<noteq> 0 \<and> i_type i = T_FILE) (itrunc ip),
                    iunlock ip,
                    end_op])
                  (returnK fd))))))))"

definition create_call :: "int \<Rightarrow> int \<Rightarrow> int \<Rightarrow> int kern" where
  "create_call type major minor = bindK (argstr 0 MAXPATH) (\<lambda>(n, path).
     if n < 0 then thenK end_op (returnK (-1))
     else bindK (create path type major minor) (\<lambda>r. case r of
         None \<Rightarrow> thenK end_op (returnK (-1))
       | Some ip \<Rightarrow> thenK (blockK [iunlockput ip, end_op]) (returnK 0)))"

definition sys_mkdir :: "int kern" where
  "sys_mkdir = thenK begin_op (create_call T_DIR 0 0)"

definition sys_mknod :: "int kern" where
  "sys_mknod = thenK begin_op (bindK (argint 1) (\<lambda>major. bindK (argint 2) (\<lambda>minor.
     create_call T_DEVICE (short_of (of_short major)) (short_of (of_short minor)))))"

definition sys_chdir :: "int kern" where
  "sys_chdir = bindK myproc (\<lambda>p. thenK begin_op (bindK (argstr 0 MAXPATH) (\<lambda>(n, path).
     if n < 0 then thenK end_op (returnK (-1))
     else bindK (namei path) (\<lambda>r. case r of
         None \<Rightarrow> thenK end_op (returnK (-1))
       | Some ip \<Rightarrow> thenK (ilock ip) (bindK (get_inode ip) (\<lambda>i.
           if i_type i \<noteq> T_DIR then thenK (blockK [iunlockput ip, end_op]) (returnK (-1))
           else thenK (blockK [
               iunlock ip,
               put_cwd p,
               end_op,
               upd_proc p (\<lambda>q. q\<lparr>p_cwd := Some ip\<rparr>)])
             (returnK 0)))))))"

section \<open>exec and pipe\<close>

text \<open>
  \<open>fetch_argv\<close> collects the argument strings, each in a page of its own; the first component
  says whether the vector was complete, the second lists the pages to free.
\<close>

primrec fetch_argv :: "nat \<Rightarrow> u64 \<Rightarrow> u64 list \<Rightarrow> u8 list list \<Rightarrow> (bool \<times> u64 list \<times> u8 list list) kern" where
  "fetch_argv 0 uargv pages args = returnK (False, pages, args)"
| "fetch_argv (Suc m) uargv pages args = bindK (fetchaddr (uargv + 8 * of_nat (length args))) (\<lambda>(r, uarg).
     if r < 0 then returnK (False, pages, args)
     else if uarg = 0 then returnK (True, pages, args)
     else bindK kalloc (\<lambda>pg.
       if pg = 0 then returnK (False, pages, args)
       else bindK (fetchstr uarg PGSIZE) (\<lambda>(r, str). thenK (put_mem pg str)
         (if r < 0 then returnK (False, pages @ [pg], args)
          else thenK (put_mem (pg + of_nat (length str)) [0])
            (fetch_argv m uargv (pages @ [pg]) (args @ [str]))))))"

definition sys_exec :: "int kern" where
  "sys_exec = bindK (argaddr 1) (\<lambda>uargv. bindK (argstr 0 MAXPATH) (\<lambda>(n, path).
     if n < 0 then returnK (-1)
     else bindK (fetch_argv MAXARG uargv [] []) (\<lambda>(ok, pages, args).
       bindK (if ok then kexec path args else returnK (-1)) (\<lambda>ret.
         thenK (forK pages kfree) (returnK ret)))))"

definition close_both :: "nat \<Rightarrow> nat \<Rightarrow> int kern" where
  "close_both f0 f1 = thenK (blockK [fileclose f0, fileclose f1]) (returnK (-1))"

definition int_bytes :: "int \<Rightarrow> u8 list" where
  "int_bytes i = le_bytes 4 (unat (word_of_int i :: u32))"

definition sys_pipe :: "int kern" where
  "sys_pipe = bindK myproc (\<lambda>p. bindK (argaddr 0) (\<lambda>fdarray. bindK pipealloc (\<lambda>r. case r of
      None \<Rightarrow> returnK (-1)
    | Some (rdf, wrf) \<Rightarrow> bindK (fdalloc rdf) (\<lambda>fd0.
        if fd0 < 0 then close_both rdf wrf
        else bindK (fdalloc wrf) (\<lambda>fd1.
          if fd1 < 0 then thenK (set_ofile p (nat fd0) None) (close_both rdf wrf)
          else bindK (get_proc p) (\<lambda>q.
            bindK (copyout (p_pagetable q) fdarray (int_bytes fd0)) (\<lambda>r0.
            bindK (if r0 < 0 then returnK r0 else copyout (p_pagetable q) (fdarray + 4) (int_bytes fd1)) (\<lambda>r1.
              if r1 < 0 then thenK (blockK [set_ofile p (nat fd0) None, set_ofile p (nat fd1) None])
                (close_both rdf wrf)
              else returnK 0))))))))"

end
