(* ===== verification/Anim.thy ===== *)
theory Anim
  imports Fb Console
begin

text \<open>
  The animation (\<open>animation.c\<close>), its driver \<open>anim_tick\<close> in \<open>trap.c\<close>, and the sample recorder
  \<open>debug_graph.c\<close>.
\<close>

section \<open>The moving rectangle\<close>

definition upd_gfx :: "(gfx \<Rightarrow> gfx) \<Rightarrow> unit kern" where
  "upd_gfx f = modifyK (\<lambda>s. s\<lparr>gfx := f (gfx s)\<rparr>)"

definition upd_anim :: "(anim \<Rightarrow> anim) \<Rightarrow> unit kern" where
  "upd_anim f = upd_gfx (\<lambda>g. g\<lparr>anim := f (anim g)\<rparr>)"

definition animation_init :: "unit kern" where
  "animation_init = blockK [
     fb_init,
     upd_gfx (\<lambda>g. g\<lparr>frame_state := \<lparr>fs_last_tick = 0, fs_target_ticks = 1, fs_frame_count = 0, fs_delta_time = 0\<rparr>\<rparr>)]"

definition erase_previous :: "unit kern" where
  "erase_previous = bindK (getsK (\<lambda>s. anim (gfx s))) (\<lambda>a.
     fb_draw_rect (a_prev_x a) (a_prev_y a) (a_w a) (a_h a) 0)"

definition animation_update :: "unit kern" where
  "animation_update = blockK [
     upd_anim (\<lambda>a. a\<lparr>a_frame_no := a_frame_no a + 1\<rparr>),
     upd_anim (\<lambda>a. a\<lparr>a_prev_x := a_x a\<rparr>),
     upd_anim (\<lambda>a. a\<lparr>a_prev_y := a_y a\<rparr>),
     upd_anim (\<lambda>a. a\<lparr>a_x := a_x a + a_dx a\<rparr>),
     bindK (getsK (\<lambda>s. anim_ticks_per_frame (gfx s))) (\<lambda>n.
       whenK (n \<le> 0) (upd_gfx (\<lambda>g. g\<lparr>anim_ticks_per_frame := 1\<rparr>))),
     bindK (getsK (\<lambda>s. anim (gfx s))) (\<lambda>a.
       whenK (a_x a < 0 \<or> a_x a + a_w a \<ge> fb_width) (blockK [
         upd_anim (\<lambda>a. a\<lparr>a_dx := - a_dx a\<rparr>),
         upd_anim (\<lambda>a. a\<lparr>a_x := a_x a + a_dx a\<rparr>)]))]"

definition draw_next_frame :: "unit kern" where
  "draw_next_frame = blockK [
     erase_previous,
     bindK (getsK (\<lambda>s. anim (gfx s))) (\<lambda>a. fb_draw_rect (a_x a) (a_y a) (a_w a) (a_h a) 0xff2020),
     fb_print_ascii_if_needed]"

section \<open>The sample recorder\<close>

definition DBG_SAMPLES :: nat where "DBG_SAMPLES = 128"
definition DBG_ASCII_WIDTH :: int where "DBG_ASCII_WIDTH = 60"

definition upd_dbg :: "(dbg \<Rightarrow> dbg) \<Rightarrow> unit kern" where
  "upd_dbg f = modifyK (\<lambda>s. s\<lparr>dbg := f (dbg s)\<rparr>)"

definition dbg_reset :: "unit kern" where
  "dbg_reset = blockK [
     upd_dbg (\<lambda>d. d\<lparr>dbg_head := 0\<rparr>),
     upd_dbg (\<lambda>d. d\<lparr>dbg_count := 0\<rparr>),
     forK [0..<DBG_SAMPLES] (\<lambda>i. upd_dbg (\<lambda>d. d\<lparr>dbg_samples := (dbg_samples d)[i := \<lparr>ds_when = 0, ds_value = 0\<rparr>]\<rparr>))]"

definition dbg_init :: "unit kern" where
  "dbg_init = bindK (getsK (\<lambda>s. dbg_inited (dbg s))) (\<lambda>i. if i then returnK () else blockK [
     acquire DbgLock,
     dbg_reset,
     upd_dbg (\<lambda>d. d\<lparr>dbg_inited := True\<rparr>),
     release DbgLock])"

definition dbg_clear :: "unit kern" where
  "dbg_clear = blockK [acquire DbgLock, dbg_reset, release DbgLock]"

definition dbg_push :: "int \<Rightarrow> u64 \<Rightarrow> dbg \<Rightarrow> dbg" where
  "dbg_push v when d = d\<lparr>
     dbg_samples := (dbg_samples d)[nat (dbg_head d) := \<lparr>ds_when = when, ds_value = v\<rparr>],
     dbg_head := (dbg_head d + 1) mod int DBG_SAMPLES,
     dbg_count := (if dbg_count d < int DBG_SAMPLES then dbg_count d + 1 else dbg_count d)\<rparr>"

definition dbg_record :: "int \<Rightarrow> unit kern" where
  "dbg_record v = bindK (getsK (\<lambda>s. dbg_inited (dbg s))) (\<lambda>i. blockK [
     whenK (\<not> i) dbg_init,
     acquire DbgLock,
     bindK (getsK ticks) (\<lambda>t. upd_dbg (dbg_push v (ucast t))),
     release DbgLock])"

text \<open>The samples in the order in which \<open>dbg_dump_ascii\<close> visits them.\<close>

definition dbg_indices :: "dbg \<Rightarrow> nat list" where
  "dbg_indices d = (let idx_start = (dbg_head d - dbg_count d + int DBG_SAMPLES) mod int DBG_SAMPLES
     in map (\<lambda>i. nat ((idx_start + int i) mod int DBG_SAMPLES)) [0..<nat (dbg_count d)])"

definition bar_len :: "int \<Rightarrow> int \<Rightarrow> int" where
  "bar_len v maxv = (let len = (sgn v * (\<bar>v\<bar> * DBG_ASCII_WIDTH div maxv)) in
     if len < 0 then 0 else if len > DBG_ASCII_WIDTH then DBG_ASCII_WIDTH else len)"

definition dbg_dump_ascii :: "unit kern" where
  "dbg_dump_ascii = bindK (getsK (\<lambda>s. dbg_inited (dbg s))) (\<lambda>i. blockK [
     whenK (\<not> i) dbg_init,
     acquire DbgLock,
     bindK (getsK dbg) (\<lambda>d.
       if dbg_count d = 0 then printf (''[dbg] no samples'' @ nl) []
       else let maxv = fold (\<lambda>idx m. if ds_value (dbg_samples d ! idx) > m then ds_value (dbg_samples d ! idx) else m)
                        (dbg_indices d) 1 in blockK [
         printf (''[dbg] samples=%d max=%d'' @ nl) [VInt (of_int (dbg_count d)), VInt (of_int maxv)],
         forK (dbg_indices d) (\<lambda>idx. let smp = dbg_samples d ! idx; v = ds_value smp in blockK [
           (if ds_when smp \<noteq> 0 then printf ''%5d: %4d |'' [VInt (ds_when smp), VInt (of_int v)]
            else printf ''       %4d |'' [VInt (of_int v)]),
           forK [0..<nat (bar_len v maxv)] (\<lambda>_. putch CHR ''*''),
           putch CHR 0x0A])]),
     release DbgLock])"

section \<open>The tick\<close>

definition anim_tick :: "unit kern" where
  "anim_tick = bindK (getsK (\<lambda>s. animation_enabled (gfx s))) (\<lambda>en. if \<not> en then returnK () else
     thenK (upd_gfx (\<lambda>g. g\<lparr>anim_tick_counter := anim_tick_counter g + 1\<rparr>))
       (bindK (getsK gfx) (\<lambda>g. if anim_tick_counter g < anim_ticks_per_frame g then returnK () else blockK [
          upd_gfx (\<lambda>g. g\<lparr>anim_tick_counter := 0\<rparr>),
          animation_update,
          draw_next_frame,
          bindK (getsK (\<lambda>s. anim_tick_counter (gfx s))) dbg_record])))"

end
