(* ===== verification/Sysproc.thy ===== *)
theory Sysproc
  imports Sysfile Anim
begin

text \<open>
  The remaining system calls (\<open>sysproc.c\<close>) and the dispatcher (\<open>syscall.c\<close>).
\<close>

section \<open>Animation and framebuffer calls\<close>

definition sys_start_anim :: "int kern" where
  "sys_start_anim = thenK (blockK [
     upd_gfx (\<lambda>g. g\<lparr>animation_enabled := True\<rparr>),
     printf (''[kernel] Animation started.'' @ nl) []]) (returnK 0)"

definition sys_stop_anim :: "int kern" where
  "sys_stop_anim = thenK (blockK [
     upd_gfx (\<lambda>g. g\<lparr>animation_enabled := False\<rparr>),
     printf (''[kernel] Animation stopped.'' @ nl) []]) (returnK 0)"

definition vint :: "int \<Rightarrow> va" where
  "vint i = VInt (word_of_int i)"

definition sys_set_speed :: "int kern" where
  "sys_set_speed = bindK (argint 0) (\<lambda>speed.
     if speed < 1 then
       thenK (printf (''[kernel] set_speed: invalid speed %d -> must be >= 1'' @ nl) [vint speed]) (returnK (-1))
     else thenK (blockK [
         whenK (speed > 1000000)
           (printf (''[kernel] set_speed: clamping huge speed %d -> 1000000'' @ nl) [vint speed]),
         upd_gfx (\<lambda>g. g\<lparr>anim_ticks_per_frame := min speed 1000000\<rparr>),
         bindK (getsK (\<lambda>s. anim_ticks_per_frame (gfx s))) (\<lambda>t.
           printf (''[kernel] Animation speed set to %d ticks/frame.'' @ nl) [vint t])])
       (returnK 0))"

definition sys_view_anim :: "int kern" where
  "sys_view_anim = thenK fb_print_ascii_preview (returnK 0)"

definition sys_fb_write :: "int kern" where
  "sys_fb_write = bindK (argint 0) (\<lambda>x. bindK (argint 1) (\<lambda>y. bindK (argint 2) (\<lambda>color.
     thenK (fb_draw_pixel x y (word_of_int color)) (returnK 0))))"

definition sys_fb_clear :: "int kern" where
  "sys_fb_clear = bindK (argint 0) (\<lambda>color. thenK (fb_clear (word_of_int color)) (returnK 0))"

definition sys_hello :: "int kern" where
  "sys_hello = thenK (printf (''Hello from xv6 kernel!'' @ nl) []) (returnK 0)"

section \<open>Processes and memory\<close>

abbreviation tab :: string where "tab \<equiv> [CHR 0x09]"

definition kinfo_state :: "procstate \<Rightarrow> string" where
  "kinfo_state st = (case st of
     SLEEPING \<Rightarrow> ''SLEEPING'' @ tab | RUNNING \<Rightarrow> ''RUNNING'' @ tab @ tab
   | RUNNABLE \<Rightarrow> ''RUNNABLE'' @ tab | _ \<Rightarrow> ''OTHER'' @ tab @ tab)"

definition kinfo_line :: "nat \<Rightarrow> unit kern" where
  "kinfo_line p = bindK (get_proc p) (\<lambda>q. whenK (p_state q \<noteq> UNUSED) (blockK [
     printf (''%d'' @ tab) [vint (p_pid q)],
     printf (kinfo_state (p_state q)) [],
     printf (''%s'' @ nl) [VStr (Some (cstring (p_name q)))]]))"

definition sys_kinfo :: "int kern" where
  "sys_kinfo = bindK myproc (\<lambda>p. bindK (get_proc p) (\<lambda>q. thenK (blockK [
     printf (''kernel: kinfo() called by pid %d'' @ nl) [vint (p_pid q)],
     bindK kalloc (\<lambda>pg.
       if pg = 0 then printf (''kernel: memory allocation failed!'' @ nl) []
       else printf (''kernel: allocated one page at %p'' @ nl) [VInt pg]),
     printf (''PID'' @ tab @ ''STATE'' @ tab @ tab @ ''NAME'' @ nl) [],
     forK [0..<NPROC] kinfo_line,
     printf (''kernel: kinfo() done.'' @ nl) []])
   (returnK 0)))"

definition sys_sbrk :: "int kern" where
  "sys_sbrk = bindK (argint 0) (\<lambda>n. bindK myproc (\<lambda>p. bindK (get_proc p) (\<lambda>q.
     bindK (growproc n) (\<lambda>r. returnK (if r < 0 then -1 else sint (ucast (p_sz q) :: u32))))))"

definition sys_exit :: "int kern" where
  "sys_exit = bindK (argint 0) kexit"

definition sys_getpid :: "int kern" where
  "sys_getpid = bindK myproc (\<lambda>p. bindK (get_proc p) (\<lambda>q. returnK (p_pid q)))"

definition sys_fork :: "int kern" where
  "sys_fork = kfork"

definition sys_wait :: "int kern" where
  "sys_wait = bindK (argaddr 0) kwait"

definition sys_kill :: "int kern" where
  "sys_kill = bindK (argint 0) kkill"

definition sys_uptime :: "int kern" where
  "sys_uptime = thenK (acquire TicksLock) (bindK (getsK ticks) (\<lambda>t.
     thenK (release TicksLock) (returnK (uint t))))"

definition pause_loop :: "int \<Rightarrow> u32 \<Rightarrow> int kern" where
  "pause_loop n ticks0 = bindK (getsK ticks) (\<lambda>t.
     if t - ticks0 < word_of_int n then
       bindK myproc (\<lambda>p. bindK (killed p) (\<lambda>k.
         if k then thenK (release TicksLock) (returnK (-1))
         else sleep ChanTicks TicksLock))
     else thenK (release TicksLock) (returnK 0))"

definition sys_pause :: "int kern" where
  "sys_pause = bindK (argint 0) (\<lambda>n. let n = (if n < 0 then 0 else n) in
     thenK (acquire TicksLock) (bindK (getsK ticks) (\<lambda>ticks0. pause_loop n ticks0)))"

definition sys_pause_resume :: "int \<Rightarrow> u32 \<Rightarrow> int kern" where
  "sys_pause_resume n ticks0 = thenK (sleep_resume TicksLock) (pause_loop n ticks0)"

definition sys_debuggraph :: "int kern" where
  "sys_debuggraph = thenK dbg_dump_ascii (returnK 0)"

section \<open>The dispatcher\<close>

definition syscalls :: "(int kern) option list" where
  "syscalls = [None, Some sys_fork, Some sys_exit, Some sys_wait, Some sys_pipe, Some sys_read,
     Some sys_kill, Some sys_exec, Some sys_fstat, Some sys_chdir, Some sys_dup, Some sys_getpid,
     Some sys_sbrk, Some sys_pause, Some sys_uptime, Some sys_open, Some sys_write, Some sys_mknod,
     Some sys_unlink, Some sys_link, Some sys_mkdir, Some sys_close, Some sys_hello, Some sys_kinfo,
     Some sys_start_anim, Some sys_stop_anim, Some sys_set_speed, Some sys_view_anim,
     Some sys_fb_write, Some sys_fb_clear]"

definition set_a0 :: "nat \<Rightarrow> int \<Rightarrow> unit kern" where
  "set_a0 p r = upd_tf p (\<lambda>tf. tf\<lparr>tf_a := (tf_a tf)(0 := word_of_int r)\<rparr>)"

definition syscall :: "unit kern" where
  "syscall = bindK myproc (\<lambda>p. bindK (get_tf p) (\<lambda>tf.
     let num = sint (ucast (tf_a tf 7) :: u32);
         h = (if num > 0 \<and> num < int (length syscalls) then syscalls ! nat num else None) in
     case h of
       Some f \<Rightarrow> bindK f (\<lambda>r. set_a0 p r)
     | None \<Rightarrow> bindK (get_proc p) (\<lambda>q. blockK [
         printf (''%d %s: unknown sys call %d'' @ nl)
           [vint (p_pid q), VStr (Some (cstring (p_name q))), vint num],
         set_a0 p (-1)])))"

end
