(* ===== verification/Virtio.thy ===== *)
theory Virtio
  imports Bio
begin

text \<open>
  The disk driver (\<open>virtio_disk.c\<close>). Upper layers use the contract \<open>disk_rw\<close> of \<open>Bio\<close>, in which
  a request has already completed. Here the request is prepared and put on the queue, the
  thread sleeps, the interrupt handler takes completed requests from the used ring, and the
  resumed thread frees its descriptors.
\<close>

section \<open>Definitions\<close>

definition NUM :: nat where "NUM = 8"
definition VRING_DESC_F_NEXT :: nat where "VRING_DESC_F_NEXT = 1"
definition VRING_DESC_F_WRITE :: nat where "VRING_DESC_F_WRITE = 2"
definition VIRTIO_BLK_T_IN :: nat where "VIRTIO_BLK_T_IN = 0"
definition VIRTIO_BLK_T_OUT :: nat where "VIRTIO_BLK_T_OUT = 1"

definition upd_vd :: "(vdisk \<Rightarrow> vdisk) \<Rightarrow> unit kern" where
  "upd_vd f = modifyK (\<lambda>s. s\<lparr>vdisk := f (vdisk s)\<rparr>)"

definition get_vd :: "vdisk kern" where
  "get_vd = getsK vdisk"

definition upd_desc :: "nat \<Rightarrow> (virtq_desc \<Rightarrow> virtq_desc) \<Rightarrow> unit kern" where
  "upd_desc i f = upd_vd (\<lambda>v. v\<lparr>vd_desc := (vd_desc v)(i := f (vd_desc v i))\<rparr>)"

definition write_reg :: "nat \<Rightarrow> u32 \<Rightarrow> unit kern" where
  "write_reg r x = upd_vd (\<lambda>v. v\<lparr>vd_written := (r, x) # vd_written v\<rparr>)"

definition read_reg :: "nat \<Rightarrow> u32 kern" where
  "read_reg r = getsK (\<lambda>s. vd_read (vdisk s) r)"

definition features_mask :: u64 where
  "features_mask = NOT (push_bit 5 1) AND NOT (push_bit 7 1) AND NOT (push_bit 11 1) AND NOT (push_bit 12 1)
     AND NOT (push_bit 27 1) AND NOT (push_bit 29 1) AND NOT (push_bit 28 1)"

text \<open>The registers are named by their offsets in \<open>virtio.h\<close>.\<close>

definition virtio_disk_init :: "unit kern" where
  "virtio_disk_init = bindK (read_reg 0x000) (\<lambda>magic. bindK (read_reg 0x004) (\<lambda>version.
     bindK (read_reg 0x008) (\<lambda>device. bindK (read_reg 0x00c) (\<lambda>vendor.
       if magic \<noteq> 0x74726976 \<or> version \<noteq> 2 \<or> device \<noteq> 2 \<or> vendor \<noteq> 0x554d4551
       then panicK ''could not find virtio disk''
       else thenK (blockK [write_reg 0x070 0, write_reg 0x070 1, write_reg 0x070 3])
         (bindK (read_reg 0x010) (\<lambda>features.
          thenK (blockK [write_reg 0x020 (ucast (ucast features AND features_mask)), write_reg 0x070 11])
         (bindK (read_reg 0x070) (\<lambda>status.
          if status AND 8 = 0 then panicK ''virtio disk FEATURES_OK unset''
          else thenK (write_reg 0x030 0) (bindK (read_reg 0x044) (\<lambda>ready.
          if ready \<noteq> 0 then panicK ''virtio disk should not be ready''
          else bindK (read_reg 0x034) (\<lambda>max.
          if max = 0 then panicK ''virtio disk has no queue 0''
          else if unat max < NUM then panicK ''virtio disk max queue too short''
          else bindK kalloc (\<lambda>desc. bindK kalloc (\<lambda>avail. bindK kalloc (\<lambda>used.
          if desc = 0 \<or> avail = 0 \<or> used = 0 then panicK ''virtio disk kalloc''
          else blockK [
            upd_vd (\<lambda>v. v\<lparr>vd_pages := [desc, avail, used]\<rparr>),
            upd_vd (\<lambda>v. v\<lparr>vd_desc := (\<lambda>_. zero_desc)\<rparr>),
            upd_vd (\<lambda>v. v\<lparr>vd_avail_ring := (\<lambda>_. 0), vd_avail_idx := 0\<rparr>),
            upd_vd (\<lambda>v. v\<lparr>vd_used_ring := (\<lambda>_. 0), vd_used_idx_dev := 0\<rparr>),
            write_reg 0x038 (of_nat NUM),
            write_reg 0x080 (ucast desc), write_reg 0x084 (ucast (drop_bit 32 desc)),
            write_reg 0x090 (ucast avail), write_reg 0x094 (ucast (drop_bit 32 avail)),
            write_reg 0x0a0 (ucast used), write_reg 0x0a4 (ucast (drop_bit 32 used)),
            write_reg 0x044 1,
            forK [0..<NUM] (\<lambda>i. upd_vd (\<lambda>v. v\<lparr>vd_free := (vd_free v)(i := True)\<rparr>)),
            write_reg 0x070 (status OR 4)]))))))))))))))"

definition alloc_desc :: "int kern" where
  "alloc_desc = bindK get_vd (\<lambda>v. case find (vd_free v) [0..<NUM] of
      Some i \<Rightarrow> thenK (upd_vd (\<lambda>v. v\<lparr>vd_free := (vd_free v)(i := False)\<rparr>)) (returnK (int i))
    | None \<Rightarrow> returnK (-1))"

definition free_desc :: "nat \<Rightarrow> unit kern" where
  "free_desc i = bindK get_vd (\<lambda>v.
     if i \<ge> NUM then panicK ''free_desc 1''
     else if vd_free v i then panicK ''free_desc 2''
     else blockK [
       upd_desc i (\<lambda>d. d\<lparr>vq_addr := DNull\<rparr>),
       upd_desc i (\<lambda>d. d\<lparr>vq_len := 0\<rparr>),
       upd_desc i (\<lambda>d. d\<lparr>vq_flags := 0\<rparr>),
       upd_desc i (\<lambda>d. d\<lparr>vq_next := 0\<rparr>),
       upd_vd (\<lambda>v. v\<lparr>vd_free := (vd_free v)(i := True)\<rparr>),
       wakeup ChanVdisk])"

text \<open>Every iteration frees a descriptor that was in use or panics, so fuel \<open>NUM + 1\<close> is enough.\<close>

primrec free_chain_loop :: "nat \<Rightarrow> nat \<Rightarrow> unit kern" where
  "free_chain_loop 0 i = no_fuelK"
| "free_chain_loop (Suc k) i = bindK get_vd (\<lambda>v.
     thenK (free_desc i)
       (if bit (vq_flags (vd_desc v i)) 0 then free_chain_loop k (vq_next (vd_desc v i)) else returnK ()))"

definition free_chain :: "nat \<Rightarrow> unit kern" where
  "free_chain i = free_chain_loop (NUM + 1) i"

definition alloc3_desc :: "(nat list) option kern" where
  "alloc3_desc = bindK alloc_desc (\<lambda>i0. if i0 < 0 then returnK None
     else bindK alloc_desc (\<lambda>i1.
       if i1 < 0 then thenK (free_desc (nat i0)) (returnK None)
       else bindK alloc_desc (\<lambda>i2.
         if i2 < 0 then thenK (blockK [free_desc (nat i0), free_desc (nat i1)]) (returnK None)
         else returnK (Some [nat i0, nat i1, nat i2]))))"

definition format_descs :: "nat \<Rightarrow> bool \<Rightarrow> nat \<Rightarrow> nat \<Rightarrow> nat \<Rightarrow> nat \<Rightarrow> unit kern" where
  "format_descs b write sector i0 i1 i2 = blockK [
     upd_vd (\<lambda>v. v\<lparr>vd_ops := (vd_ops v)(i0 := \<lparr>req_type = (if write then VIRTIO_BLK_T_OUT else VIRTIO_BLK_T_IN),
       req_reserved = 0, req_sector = sector\<rparr>)\<rparr>),
     upd_desc i0 (\<lambda>_. \<lparr>vq_addr = OpAddr i0, vq_len = 16, vq_flags = VRING_DESC_F_NEXT, vq_next = i1\<rparr>),
     upd_desc i1 (\<lambda>_. \<lparr>vq_addr = DataAddr b, vq_len = BSIZE,
       vq_flags = (if write then 0 else VRING_DESC_F_WRITE) OR VRING_DESC_F_NEXT, vq_next = i2\<rparr>),
     upd_vd (\<lambda>v. v\<lparr>vd_info_status := (vd_info_status v)(i0 := 0xff)\<rparr>),
     upd_desc i2 (\<lambda>_. \<lparr>vq_addr = StatusAddr i0, vq_len = 1, vq_flags = VRING_DESC_F_WRITE, vq_next = 0\<rparr>)]"

text \<open>The wait at the end of a request, evaluated once.\<close>

definition rw_wait :: "nat \<Rightarrow> nat \<Rightarrow> unit kern" where
  "rw_wait b i0 = bindK (get_buf b) (\<lambda>x.
     if b_disk x then sleep (ChanBuf b) VdiskLock
     else blockK [
       upd_vd (\<lambda>v. v\<lparr>vd_info_b := (vd_info_b v)(i0 := None)\<rparr>),
       free_chain i0,
       release VdiskLock])"

definition rw_submit :: "nat \<Rightarrow> bool \<Rightarrow> unit kern" where
  "rw_submit b write = bindK alloc3_desc (\<lambda>r. case r of
      None \<Rightarrow> sleep ChanVdisk VdiskLock
    | Some idx \<Rightarrow> bindK (get_buf b) (\<lambda>x. blockK [
        format_descs b write (b_blockno x * (BSIZE div 512) mod 2 ^ 32) (idx ! 0) (idx ! 1) (idx ! 2),
        upd_buf b (\<lambda>x. x\<lparr>b_disk := True\<rparr>),
        upd_vd (\<lambda>v. v\<lparr>vd_info_b := (vd_info_b v)(idx ! 0 := Some b)\<rparr>),
        upd_vd (\<lambda>v. v\<lparr>vd_avail_ring := (vd_avail_ring v)(unat (vd_avail_idx v) mod NUM := idx ! 0)\<rparr>),
        upd_vd (\<lambda>v. v\<lparr>vd_avail_idx := vd_avail_idx v + 1\<rparr>),
        write_reg 0x050 0,
        rw_wait b (idx ! 0)]))"

definition virtio_disk_rw :: "nat \<Rightarrow> bool \<Rightarrow> unit kern" where
  "virtio_disk_rw b write = thenK (acquire VdiskLock) (rw_submit b write)"

definition rw_submit_resume :: "nat \<Rightarrow> bool \<Rightarrow> unit kern" where
  "rw_submit_resume b write = thenK (sleep_resume VdiskLock) (rw_submit b write)"

definition rw_wait_resume :: "nat \<Rightarrow> nat \<Rightarrow> unit kern" where
  "rw_wait_resume b i0 = thenK (sleep_resume VdiskLock) (rw_wait b i0)"

primrec intr_loop :: "nat \<Rightarrow> unit kern" where
  "intr_loop 0 = returnK ()"
| "intr_loop (Suc n) = bindK get_vd (\<lambda>v.
     let id = vd_used_ring v (unat (vd_used_idx v) mod NUM) in
     if id \<ge> NUM then undefK ''virtio_disk_intr: info index out of bounds''
     else if vd_info_status v id \<noteq> 0 then panicK ''virtio_disk_intr status''
     else case vd_info_b v id of
       None \<Rightarrow> undefK ''virtio_disk_intr: null buffer''
     | Some b \<Rightarrow> blockK [
         upd_buf b (\<lambda>x. x\<lparr>b_disk := False\<rparr>),
         wakeup (ChanBuf b),
         upd_vd (\<lambda>v. v\<lparr>vd_used_idx := vd_used_idx v + 1\<rparr>),
         intr_loop n])"

definition virtio_disk_intr :: "unit kern" where
  "virtio_disk_intr = blockK [
     acquire VdiskLock,
     bindK (read_reg 0x060) (\<lambda>st. write_reg 0x064 (st AND 3)),
     bindK get_vd (\<lambda>v. intr_loop (unat (vd_used_idx_dev v - vd_used_idx v))),
     release VdiskLock]"

end
