(* ===== verification/Trap.thy ===== *)
theory Trap
  imports Sysproc Virtio
begin

text \<open>
  Traps and start-up: \<open>plic.c\<close>, \<open>trap.c\<close>, \<open>forkret\<close> (\<open>proc.c\<close>), \<open>main.c\<close>, \<open>start.c\<close>. The
  interrupt-enable bit of \<open>sstatus\<close> is written where these files write it; inside lock
  operations it follows the held locks (theory \<open>Spinlock\<close>). A hart that yields inside a trap
  continues with the definition named \<open>_resume\<close>. Entering user mode is the return of
  \<open>usertrap\<close> and \<open>forkret\<close>, with the page table the trampoline is to install.
\<close>

section \<open>The interrupt controller\<close>

definition UART0_IRQ :: nat where "UART0_IRQ = 10"
definition VIRTIO0_IRQ :: nat where "VIRTIO0_IRQ = 1"

definition PLIC_SENABLE :: "nat \<Rightarrow> u64" where "PLIC_SENABLE hart = PLIC + 0x2080 + of_nat hart * 0x100"
definition PLIC_SPRIORITY :: "nat \<Rightarrow> u64" where "PLIC_SPRIORITY hart = PLIC + 0x201000 + of_nat hart * 0x2000"

definition store32 :: "u64 \<Rightarrow> u32 \<Rightarrow> unit kern" where
  "store32 a w = put_mem a (le_bytes 4 (unat w))"

definition plicinit :: "unit kern" where
  "plicinit = blockK [
     store32 (PLIC + of_nat UART0_IRQ * 4) 1,
     store32 (PLIC + of_nat VIRTIO0_IRQ * 4) 1]"

definition plicinithart :: "unit kern" where
  "plicinithart = bindK cpuid (\<lambda>hart. blockK [
     store32 (PLIC_SENABLE hart) (push_bit UART0_IRQ 1 OR push_bit VIRTIO0_IRQ 1),
     store32 (PLIC_SPRIORITY hart) 0])"

definition upd_regs :: "(hart_regs \<Rightarrow> hart_regs) \<Rightarrow> unit kern" where
  "upd_regs f = modifyK (\<lambda>s. s\<lparr>regs := f (regs s)\<rparr>)"

definition get_regs :: "hart_regs kern" where
  "get_regs = getsK regs"

definition plic_claim :: "nat kern" where
  "plic_claim = bindK get_regs (\<lambda>r. returnK (unat (r_claim r)))"

definition plic_complete :: "nat \<Rightarrow> unit kern" where
  "plic_complete irq = upd_regs (\<lambda>r. r\<lparr>r_completed := r_completed r @ [of_nat irq]\<rparr>)"

section \<open>Interrupts\<close>

definition SSTATUS_SPP :: u64 where "SSTATUS_SPP = push_bit 8 1"
definition SSTATUS_SPIE :: u64 where "SSTATUS_SPIE = push_bit 5 1"
definition SSTATUS_SIE :: u64 where "SSTATUS_SIE = push_bit 1 1"

definition intr_on :: "unit kern" where
  "intr_on = upd_regs (\<lambda>r. r\<lparr>r_sstatus := r_sstatus r OR SSTATUS_SIE\<rparr>)"

definition intr_off :: "unit kern" where
  "intr_off = upd_regs (\<lambda>r. r\<lparr>r_sstatus := r_sstatus r AND NOT SSTATUS_SIE\<rparr>)"

definition trapinithart :: "unit kern" where
  "trapinithart = bindK (getsK syms) (\<lambda>y. upd_regs (\<lambda>r. r\<lparr>r_stvec := sym_kernelvec y\<rparr>))"

definition clockintr :: "unit kern" where
  "clockintr = blockK [
     bindK cpuid (\<lambda>c. whenK (c = 0) (blockK [
       acquire TicksLock,
       modifyK (\<lambda>s. s\<lparr>ticks := ticks s + 1\<rparr>),
       wakeup ChanTicks,
       release TicksLock])),
     upd_regs (\<lambda>r. r\<lparr>r_stimecmp := r_time r + 1000000\<rparr>)]"

definition devintr :: "nat kern" where
  "devintr = bindK get_regs (\<lambda>r.
     if r_scause r = 0x8000000000000009 then
       bindK plic_claim (\<lambda>irq. thenK (blockK [
         (if irq = UART0_IRQ then uartintr
          else if irq = VIRTIO0_IRQ then virtio_disk_intr
          else whenK (irq \<noteq> 0) (printf (''unexpected irq=%d'' @ nl) [vint (int irq)])),
         whenK (irq \<noteq> 0) (plic_complete irq)])
       (returnK 1))
     else if r_scause r = 0x8000000000000005 then thenK clockintr (returnK 2)
     else returnK 0)"

section \<open>Traps from user and kernel mode\<close>

definition prepare_return :: "unit kern" where
  "prepare_return = bindK myproc (\<lambda>p. bindK (getsK syms) (\<lambda>y. bindK (getsK trampoline) (\<lambda>tr. blockK [
     intr_off,
     upd_regs (\<lambda>r. r\<lparr>r_stvec := TRAMPOLINE + (sym_uservec y - tr)\<rparr>),
     bindK get_regs (\<lambda>r. upd_tf p (\<lambda>tf. tf\<lparr>tf_kernel_satp := r_satp r\<rparr>)),
     bindK (get_proc p) (\<lambda>q. upd_tf p (\<lambda>tf. tf\<lparr>tf_kernel_sp := p_kstack q + of_nat PGSIZE\<rparr>)),
     upd_tf p (\<lambda>tf. tf\<lparr>tf_kernel_trap := sym_usertrap y\<rparr>),
     bindK get_regs (\<lambda>r. upd_tf p (\<lambda>tf. tf\<lparr>tf_kernel_hartid := r_tp r\<rparr>)),
     upd_regs (\<lambda>r. r\<lparr>r_sstatus := (r_sstatus r AND NOT SSTATUS_SPP) OR SSTATUS_SPIE\<rparr>),
     bindK (get_tf p) (\<lambda>tf. upd_regs (\<lambda>r. r\<lparr>r_sepc := tf_epc tf\<rparr>))])))"

definition usertrap_exit :: "nat \<Rightarrow> u64 kern" where
  "usertrap_exit p = thenK prepare_return (bindK (get_proc p) (\<lambda>q. returnK (MAKE_SATP (p_pagetable q))))"

definition usertrap_end :: "nat \<Rightarrow> nat \<Rightarrow> u64 kern" where
  "usertrap_end p which_dev = bindK (killed p) (\<lambda>k.
     if k then kexit (-1)
     else thenK (whenK (which_dev = 2) yield) (usertrap_exit p))"

definition usertrap_resume :: "nat \<Rightarrow> u64 kern" where
  "usertrap_resume p = thenK yield_resume (usertrap_exit p)"

definition usertrap :: "u64 kern" where
  "usertrap = bindK get_regs (\<lambda>r0.
     if r_sstatus r0 AND SSTATUS_SPP \<noteq> 0 then panicK ''usertrap: not from user mode''
     else thenK trapinithart (bindK myproc (\<lambda>p. thenK (upd_tf p (\<lambda>tf. tf\<lparr>tf_epc := r_sepc r0\<rparr>))
       (if r_scause r0 = 8 then
          bindK (killed p) (\<lambda>k. if k then kexit (-1)
            else thenK (blockK [
                upd_tf p (\<lambda>tf. tf\<lparr>tf_epc := tf_epc tf + 4\<rparr>),
                intr_on,
                syscall])
              (usertrap_end p 0))
        else bindK devintr (\<lambda>which_dev.
          if which_dev \<noteq> 0 then usertrap_end p which_dev
          else bindK (get_proc p) (\<lambda>q.
            bindK (if r_scause r0 = 15 \<or> r_scause r0 = 13
                   then bindK (vmfault (p_pagetable q) (r_stval r0) (r_scause r0 = 13)) (\<lambda>v. returnK (v = 0))
                   else returnK False) (\<lambda>handled.
              thenK (whenK (\<not> handled) (blockK [
                  printf (''usertrap(): unexpected scause=0x%lx pid=%d'' @ nl)
                    [VInt (r_scause r0), vint (p_pid q)],
                  printf (''            sepc=0x%lx stval=0x%lx'' @ nl) [VInt (r_sepc r0), VInt (r_stval r0)],
                  setkilled p]))
                (usertrap_end p 0))))))))"

definition kerneltrap_end :: "u64 \<Rightarrow> u64 \<Rightarrow> unit kern" where
  "kerneltrap_end sepc sstatus = blockK [
     upd_regs (\<lambda>r. r\<lparr>r_sepc := sepc\<rparr>),
     upd_regs (\<lambda>r. r\<lparr>r_sstatus := sstatus\<rparr>)]"

definition kerneltrap :: "unit kern" where
  "kerneltrap = bindK get_regs (\<lambda>r.
     if r_sstatus r AND SSTATUS_SPP = 0 then panicK ''kerneltrap: not from supervisor mode''
     else if r_sstatus r AND SSTATUS_SIE \<noteq> 0 then panicK ''kerneltrap: interrupts enabled''
     else bindK devintr (\<lambda>which_dev.
       if which_dev = 0 then
         thenK (printf (''kerneltrap: unexpected scause=0x%lx sepc=0x%lx stval=0x%lx'' @ nl)
             [VInt (r_scause r), VInt (r_sepc r), VInt (r_stval r)])
           (panicK ''kerneltrap'')
       else thenK (whenK (which_dev = 2) (blockK [
             anim_tick,
             bindK (getsK cur) (\<lambda>c. whenK (c \<noteq> None) yield)]))
           (kerneltrap_end (r_sepc r) (r_sstatus r))))"

definition kerneltrap_resume :: "u64 \<Rightarrow> u64 \<Rightarrow> unit kern" where
  "kerneltrap_resume sepc sstatus = thenK yield_resume (kerneltrap_end sepc sstatus)"

section \<open>The first process and start-up\<close>

definition INIT_PATH :: "u8 list" where "INIT_PATH = [47, 105, 110, 105, 116]"

definition forkret :: "u64 kern" where
  "forkret = bindK myproc (\<lambda>p. thenK (release (ProcLock p)) (bindK (getsK first_run) (\<lambda>first.
     thenK (whenK first (blockK [
         fsinit ROOTDEV,
         modifyK (\<lambda>s. s\<lparr>first_run := False\<rparr>),
         bindK (kexec INIT_PATH [INIT_PATH]) (\<lambda>r. thenK (set_a0 p r)
           (whenK (r = -1) (panicK ''exec'')))]))
       (usertrap_exit p))))"

definition main_boot :: "unit kern" where
  "main_boot = blockK [
     consoleinit,
     printf nl [],
     printf (''xv6 kernel is booting'' @ nl) [],
     printf nl [],
     kinit,
     kvminit,
     kvminithart,
     procinit,
     trapinithart,
     plicinit,
     plicinithart,
     animation_init,
     fbdev_register,
     binit,
     iinit,
     virtio_disk_init,
     userinit]"

definition main_other :: "unit kern" where
  "main_other = bindK cpuid (\<lambda>c. blockK [
     printf (''hart %d starting'' @ nl) [vint (int c)],
     kvminithart,
     trapinithart,
     plicinithart])"

end
