(* ===== verification/Faults.thy ===== *)
theory Faults
  imports Trap
begin

text \<open>
  What a trap from user mode does: page faults and unknown system calls.
\<close>

section \<open>Properties\<close>



end
