(* ===== verification/Tty.thy ===== *)
theory Tty
  imports Console Fb Pipe
begin

text \<open>
  The line discipline of the console, as a specification and a refinement.

  The three free-running 32-bit indices of the input buffer stand for two lists: the bytes ready
  for a reader (between \<open>r\<close> and \<open>w\<close>) and the line under edit (between \<open>w\<close> and \<open>e\<close>).
  \<open>tty_key\<close> and \<open>tty_read\<close> say what a key press and a read do to the pair of lists; the lemmas
  relate them to \<open>consoleintr\<close>, \<open>uartintr\<close> and \<open>consoleread\<close>.
\<close>

section \<open>The specification\<close>

type_synonym tty = "u8 list \<times> u8 list"

definition tty_key :: "u8 \<Rightarrow> tty \<Rightarrow> tty" where
  "tty_key b q = (case q of (ready, line) \<Rightarrow>
     if b = 16 then (ready, line)
     else if b = 21 then (ready, [])
     else if b = 8 \<or> b = 127 then (ready, butlast line)
     else if b = 0 \<or> length ready + length line \<ge> INPUT_BUF_SIZE then (ready, line)
     else let ch = (if b = 13 then 10 else b); line' = line @ [ch] in
       if ch = 10 \<or> ch = 4 \<or> length ready + length line' = INPUT_BUF_SIZE then (ready @ line', [])
       else (ready, line'))"

definition tty_echo :: "u8 \<Rightarrow> tty \<Rightarrow> u8 list" where
  "tty_echo b q = (case q of (ready, line) \<Rightarrow>
     if b = 21 then concat (replicate (length line) [8, 32, 8])
     else if b = 8 \<or> b = 127 then (if line = [] then [] else [8, 32, 8])
     else if b = 0 \<or> length ready + length line \<ge> INPUT_BUF_SIZE then []
     else [if b = 13 then 10 else b])"

primrec tty_echoes :: "u8 list \<Rightarrow> tty \<Rightarrow> u8 list" where
  "tty_echoes [] q = []"
| "tty_echoes (b # bs) q = tty_echo b q @ tty_echoes bs (tty_key b q)"

fun tty_read :: "bool \<Rightarrow> nat \<Rightarrow> u8 list \<Rightarrow> (u8 list \<times> u8 list) option" where
  "tty_read started 0 q = Some ([], q)"
| "tty_read started (Suc n) [] = None"
| "tty_read started (Suc n) (ch # q) =
     (if ch = 4 then Some ([], if started then ch # q else q)
      else if ch = 10 then Some ([ch], q)
      else map_option (\<lambda>(bs, r). (ch # bs, r)) (tty_read True n q))"

section \<open>The input buffer\<close>

definition cons_all :: "cons \<Rightarrow> u8 list" where
  "cons_all c = cyc (cons_buf c) INPUT_BUF_SIZE (unat (cons_r c)) (unat (cons_e c - cons_r c))"

definition cons_ready :: "cons \<Rightarrow> nat" where
  "cons_ready c = unat (cons_w c - cons_r c)"

definition tty :: "cons \<Rightarrow> tty" where
  "tty c = (take (cons_ready c) (cons_all c), drop (cons_ready c) (cons_all c))"

definition cons_inv :: "cons \<Rightarrow> bool" where
  "cons_inv c \<longleftrightarrow> length (cons_buf c) = INPUT_BUF_SIZE \<and> length (cons_all c) \<le> INPUT_BUF_SIZE
     \<and> cons_ready c \<le> length (cons_all c) \<and> 10 \<notin> set (snd (tty c))"

lemma length_cons_all: "length (cons_all c) = unat (cons_e c - cons_r c)"
  by (simp add: cons_all_def)

lemma INPUT_dvd: "INPUT_BUF_SIZE dvd 2 ^ 32"
  by (simp add: INPUT_BUF_SIZE_def)

lemma cons_slot: "unat (cons_e c) mod INPUT_BUF_SIZE = (unat (cons_r c) + length (cons_all c)) mod INPUT_BUF_SIZE"
  using word_pos [OF INPUT_dvd, of "cons_r c" "length (cons_all c)"] by (simp add: length_cons_all)

lemma edited_iff: "cons_inv c \<Longrightarrow> cons_e c = cons_w c \<longleftrightarrow> snd (tty c) = []"
proof -
  assume "cons_inv c"
  then have "snd (tty c) = [] \<longleftrightarrow> unat (cons_e c - cons_r c) = unat (cons_w c - cons_r c)"
    by (auto simp: cons_inv_def tty_def length_cons_all cons_ready_def)
  also have "\<dots> \<longleftrightarrow> cons_e c = cons_w c" by (auto simp: unat_arith_simps(3) [symmetric])
  finally show ?thesis by simp
qed

lemma put_cons_law:
  assumes "length (cons_buf c) = INPUT_BUF_SIZE" and "length (cons_all c) < INPUT_BUF_SIZE"
  shows "cons_all (put_cons ch c) = cons_all c @ [ch]" and "cons_ready (put_cons ch c) = cons_ready c"
    and "length (cons_buf (put_cons ch c)) = INPUT_BUF_SIZE"
proof -
  have "unat (cons_e c + 1 - cons_r c) = Suc (length (cons_all c))"
    using assms(2) unat_Suc_count [of "cons_e c" "cons_r c"] by (simp add: length_cons_all INPUT_BUF_SIZE_def)
  then show "cons_all (put_cons ch c) = cons_all c @ [ch]"
    using cyc_push [of "length (cons_all c)" INPUT_BUF_SIZE "cons_buf c" "unat (cons_r c)" ch] assms
    by (simp add: cons_all_def put_cons_def cons_slot)
qed (use assms in \<open>simp_all add: put_cons_def cons_ready_def\<close>)

lemma del_cons_law:
  assumes "cons_all c \<noteq> []"
  shows "cons_all (c\<lparr>cons_e := cons_e c - 1\<rparr>) = butlast (cons_all c)" and "cons_byte c (cons_e c - 1) = last (cons_all c)"
proof -
  have ne: "cons_e c - cons_r c \<noteq> 0" using assms by (auto simp: cons_all_def)
  then obtain k where k: "unat (cons_e c - cons_r c) = Suc k" by (cases "unat (cons_e c - cons_r c)") (auto simp: unat_eq_zero)
  have "unat (cons_e c - 1 - cons_r c) = k"
    using unat_minus_one [OF ne] k by (simp add: algebra_simps)
  moreover have "cons_e c - cons_r c = of_nat (unat (cons_e c - cons_r c))" by simp
  then have "cons_e c - 1 = cons_r c + of_nat k" unfolding k by (simp add: algebra_simps)
  then have "unat (cons_e c - 1) mod INPUT_BUF_SIZE = (unat (cons_r c) + k) mod INPUT_BUF_SIZE"
    using word_pos [OF INPUT_dvd] by simp
  ultimately show "cons_all (c\<lparr>cons_e := cons_e c - 1\<rparr>) = butlast (cons_all c)"
    and "cons_byte c (cons_e c - 1) = last (cons_all c)"
    using k by (simp_all add: cons_all_def cyc_snoc cons_byte_def)
qed

lemma erase_law:
  assumes "cons_inv c" and "snd (tty c) \<noteq> []" and "c' = c\<lparr>cons_e := cons_e c - 1\<rparr>"
  shows "cons_inv c'" and "tty c' = (fst (tty c), butlast (snd (tty c)))"
    and "cons_byte c (cons_e c - 1) \<noteq> 10"
proof -
  have lt: "cons_ready c < length (cons_all c)" using assms(2) by (simp add: tty_def)
  then have ne: "cons_all c \<noteq> []" by auto
  have r: "cons_ready c' = cons_ready c" "cons_buf c' = cons_buf c" by (simp_all add: assms(3) cons_ready_def)
  show t: "tty c' = (fst (tty c), butlast (snd (tty c)))"
    unfolding tty_def r using lt by (simp add: assms(3) del_cons_law(1) [OF ne] butlast_drop take_butlast)
  have "10 \<notin> set (snd (tty c))" using assms(1) by (simp add: cons_inv_def)
  then show "cons_inv c'" unfolding cons_inv_def r t
    using assms(1) lt by (auto simp: cons_inv_def assms(3) del_cons_law(1) [OF ne] dest: in_set_butlastD)
  have "last (cons_all c) \<in> set (snd (tty c))" using lt last_in_set [OF assms(2)] by (simp add: tty_def)
  with \<open>10 \<notin> set (snd (tty c))\<close> show "cons_byte c (cons_e c - 1) \<noteq> 10"
    unfolding del_cons_law(2) [OF ne] by auto
qed

lemma commit_law:
  assumes "length (cons_buf c) = INPUT_BUF_SIZE" and "length (cons_all c) \<le> INPUT_BUF_SIZE" and "c' = c\<lparr>cons_w := cons_e c\<rparr>"
  shows "cons_inv c'" and "tty c' = (fst (tty c) @ snd (tty c), [])"
proof -
  have "cons_ready c' = length (cons_all c)" "cons_all c' = cons_all c"
    by (simp_all add: assms(3) cons_ready_def cons_all_def)
  then show "tty c' = (fst (tty c) @ snd (tty c), [])" and "cons_inv c'"
    using assms by (simp_all add: tty_def cons_inv_def)
qed

lemma take_law:
  assumes "cons_inv c" and "fst (tty c) \<noteq> []" and "c' = c\<lparr>cons_r := cons_r c + 1\<rparr>"
  shows "cons_inv c'" and "fst (tty c) = cons_byte c (cons_r c) # fst (tty c')" and "snd (tty c') = snd (tty c)"
proof -
  have "cons_ready c \<noteq> 0" and ne: "cons_all c \<noteq> []" using assms(2) by (auto simp: tty_def)
  then have w: "cons_w c \<noteq> cons_r c" and e: "cons_e c \<noteq> cons_r c" by (auto simp: cons_ready_def cons_all_def)
  then obtain k where k: "cons_ready c = Suc k" "cons_ready c' = k"
    using \<open>cons_ready c \<noteq> 0\<close> by (cases "cons_ready c") (auto simp: cons_ready_def assms(3) unat_pred_count)
  obtain n where n: "unat (cons_e c - cons_r c) = Suc n" "unat (cons_e c - (cons_r c + 1)) = n"
    using e unat_pred_count [OF e] by (cases "unat (cons_e c - cons_r c)") (auto simp: unat_eq_zero)
  have all: "cons_all c = cons_byte c (cons_r c) # cons_all c'"
    using n by (simp add: cons_all_def assms(3) cyc_pop cons_byte_def word_pos_Suc [OF INPUT_dvd])
  then show f: "fst (tty c) = cons_byte c (cons_r c) # fst (tty c')" and g: "snd (tty c') = snd (tty c)"
    by (simp_all add: tty_def k)
  show "cons_inv c'" using assms(1) k all unfolding cons_inv_def g by (simp add: assms(3))
qed

lemma length_line: "cons_inv c \<Longrightarrow> length (snd (tty c)) = unat (cons_e c - cons_w c)"
proof -
  assume "cons_inv c"
  then have "cons_w c - cons_r c \<le> cons_e c - cons_r c"
    by (simp add: cons_inv_def length_cons_all cons_ready_def word_le_nat_alt)
  from unat_sub [OF this] show ?thesis by (simp add: tty_def length_cons_all cons_ready_def)
qed

section \<open>Key presses\<close>

lemma emit_cons: "cons (emit bs s) = cons s" "emit bs (s\<lparr>cons := c\<rparr>) = (emit bs s)\<lparr>cons := c\<rparr>"
  by (simp_all add: emit_def)

lemma con_bytes_erase: "con_bytes BACKSPACE = [8, 32, 8]"
  by (simp add: con_bytes_def)

lemma wp_kill_line:
  assumes "cons_inv (cons s)" and "length (snd (tty (cons s))) \<le> k"
    and "\<And>c'. cons_inv c' \<Longrightarrow> tty c' = (fst (tty (cons s)), []) \<Longrightarrow>
       Q () ((emit (concat (replicate (length (snd (tty (cons s)))) [8, 32, 8])) s)\<lparr>cons := c'\<rparr>)"
  shows "wp (kill_line k) Q s"
  using assms
proof (induction k arbitrary: s)
  case 0
  then have "Q () (s\<lparr>cons := cons s\<rparr>)" by (metis emit_Nil concat.simps(1) le_zero_eq length_0_conv
        prod.collapse replicate_0)
  then show ?case by simp
next
  case (Suc k)
  let ?c = "cons s"
  let ?c' = "?c\<lparr>cons_e := cons_e ?c - 1\<rparr>"
  let ?s = "emit [8, 32, 8] (s\<lparr>cons := ?c'\<rparr>)"
  show ?case
  proof (cases "snd (tty ?c) = []")
    case True
    then have "Q () (s\<lparr>cons := cons s\<rparr>)" using Suc.prems by (metis emit_Nil concat.simps(1) length_0_conv
          prod.collapse replicate_0)
    with True show ?thesis using edited_iff [OF Suc.prems(1)] by simp
  next
    case False
    note e = erase_law [OF Suc.prems(1) False refl]
    obtain n where n: "length (snd (tty ?c)) = Suc n" using False by (cases "snd (tty ?c)") auto
    have sel: "cons ?s = ?c'" by (simp add: emit_cons)
    have "wp (kill_line k) Q ?s"
    proof (rule Suc.IH)
      show "cons_inv (cons ?s)" "length (snd (tty (cons ?s))) \<le> k" unfolding sel using e Suc.prems(2) by simp_all
      fix c' assume c': "cons_inv c'" "tty c' = (fst (tty (cons ?s)), [])"
      then have "Q () ((emit (concat (replicate (length (snd (tty ?c))) [8, 32, 8])) s)\<lparr>cons := c'\<rparr>)"
        unfolding sel e(2) by (intro Suc.prems(3)) auto
      then show "Q () ((emit (concat (replicate (length (snd (tty (cons ?s)))) [8, 32, 8])) ?s)\<lparr>cons := c'\<rparr>)"
        unfolding sel e(2) n by (simp add: emit_cons n)
    qed
    then show ?thesis using False e(3) edited_iff [OF Suc.prems(1)]
      by (simp add: upd_cons_def wp_Ret [OF run_consputc] con_bytes_erase)
  qed
qed

lemma run_procdump: "PrLock \<notin> set (held s) \<Longrightarrow> \<exists>out. procdump s = Ret () (emit out s)"
proof -
  let ?P = "\<lambda>t. PrLock \<notin> set (held t) \<and> procs t = procs s"
  let ?row = "\<lambda>p. bindK (getsK (\<lambda>s. procs s p)) (\<lambda>q.
       if p_state q = UNUSED then returnK ()
       else blockK [
         printf ''%d %s %s'' [VInt (of_int (p_pid q)), VStr (Some (state_name (p_state q))),
           VStr (Some (cstring (p_name q)))],
         printf nl []])"
  assume l: "PrLock \<notin> set (held s)"
  have nl: "printf nl [] t = Ret () (emit (str_bytes nl) t)" if "?P t" for t
    using that by (intro run_printf) (auto simp: fmt_out.simps)
  have row: "\<exists>out. \<forall>t. ?P t \<longrightarrow> ?row p t = Ret () (emit out t) \<and> ?P (emit out t)" for p
  proof (cases "p_state (procs s p) = UNUSED")
    case True
    then show ?thesis by (intro exI [of _ "[]"]) (simp add: run_simps)
  next
    case False
    let ?ap = "[VInt (of_int (p_pid (procs s p))), VStr (Some (state_name (p_state (procs s p)))),
           VStr (Some (cstring (p_name (procs s p))))]"
    obtain out where "fmt_out ''%d %s %s'' ?ap = Some out"
      by (simp add: fmt_out.simps conversions_def conv_out_def)
    then have "printf ''%d %s %s'' ?ap t = Ret () (emit out t)" if "?P t" for t using that by (intro run_printf) auto
    moreover have "?P (emit b t)" if "?P t" for b t using that by (simp add: emit_def)
    ultimately show ?thesis using False nl by (intro exI [of _ "out @ str_bytes nl"]) (simp add: run_simps)
  qed
  then have "\<forall>p. \<exists>out. \<forall>t. ?P t \<longrightarrow> ?row p t = Ret () (emit out t) \<and> ?P (emit out t)" by (rule allI)
  from choice [OF this] obtain out
    where out: "\<forall>p t. ?P t \<longrightarrow> ?row p t = Ret () (emit (out p) t) \<and> ?P (emit (out p) t)" by (elim exE)
  have "forK [0..<NPROC] ?row t = Ret () (emit (concat (map out [0..<NPROC])) t)" if "?P t" for t
    by (rule emits_forK [of _ ?P, THEN conjunct1]) (rule out [rule_format] that, assumption?)+
  moreover have P: "?P s" "?P (emit (str_bytes nl) s)" using l by (simp_all add: emit_def)
  ultimately have a: "forK [0..<NPROC] ?row (emit (str_bytes nl) s)
      = Ret () (emit (concat (map out [0..<NPROC])) (emit (str_bytes nl) s))" by blast
  have "procdump s = Ret () (emit (concat (map out [0..<NPROC])) (emit (str_bytes nl) s))"
    unfolding procdump_def by (rule run_block2, rule nl [OF P(1)], rule a)
  then show ?thesis unfolding emit_emit by (rule exI)
qed

definition keyed :: "u8 list \<Rightarrow> cons \<Rightarrow> kstate \<Rightarrow> kstate" where
  "keyed out c' s = (emit out s)\<lparr>cons := c', procs := (if fst (tty c') = fst (tty (cons s)) then procs s
     else woken ChanCons {0..<NPROC} s)\<rparr>"

lemma byte_code: "uint (b :: u8) = 0 \<longleftrightarrow> b = 0" "uint b = 4 \<longleftrightarrow> b = 4" "uint b = 8 \<longleftrightarrow> b = 8" "uint b = 10 \<longleftrightarrow> b = 10"
  "uint b = 13 \<longleftrightarrow> b = 13" "uint b = 16 \<longleftrightarrow> b = 16" "uint b = 21 \<longleftrightarrow> b = 21" "uint b = 127 \<longleftrightarrow> b = 127"
  by (simp_all add: word_uint_eq_iff)

lemma con_bytes_byte: "con_bytes (uint (b :: u8)) = [b]"
  using uint_bounded [of b] by (simp add: con_bytes_def BACKSPACE_def)

lemma cons_room:
  "cons_e c - cons_r c < of_nat INPUT_BUF_SIZE \<longleftrightarrow> length (cons_all c) < INPUT_BUF_SIZE"
  "cons_e c - cons_r c = of_nat INPUT_BUF_SIZE \<longleftrightarrow> length (cons_all c) = INPUT_BUF_SIZE"
  by (simp_all add: length_cons_all INPUT_BUF_SIZE_def word_less_nat_alt word_unat_eq_iff)

lemma put_key:
  assumes "cons_inv c" and "length (cons_all c) < INPUT_BUF_SIZE" and "b \<notin> {0, 8, 13, 16, 21, 127}"
  shows "if b = 10 \<or> b = 4 \<or> length (cons_all (put_cons b c)) = INPUT_BUF_SIZE
    then cons_inv ((put_cons b c)\<lparr>cons_w := cons_e (put_cons b c)\<rparr>)
      \<and> tty ((put_cons b c)\<lparr>cons_w := cons_e (put_cons b c)\<rparr>) = tty_key b (tty c) \<and> fst (tty_key b (tty c)) \<noteq> fst (tty c)
    else cons_inv (put_cons b c) \<and> tty (put_cons b c) = tty_key b (tty c) \<and> fst (tty_key b (tty c)) = fst (tty c)"
proof -
  have l: "length (cons_buf c) = INPUT_BUF_SIZE" using assms(1) by (simp add: cons_inv_def)
  note p = put_cons_law [OF l assms(2), of b]
  have le: "length (cons_all (put_cons b c)) \<le> INPUT_BUF_SIZE" using assms(2) p(1) by simp
  have r: "cons_ready c \<le> length (cons_all c)" using assms(1) by (simp add: cons_inv_def)
  then have t: "tty (put_cons b c) = (fst (tty c), snd (tty c) @ [b])" by (simp add: tty_def p)
  have n: "length (fst (tty c)) + length (snd (tty c)) = length (cons_all c)" using r by (simp add: tty_def)
  show ?thesis
  proof (cases "b = 10 \<or> b = 4 \<or> length (cons_all (put_cons b c)) = INPUT_BUF_SIZE")
    case True
    with commit_law [OF p(3) le refl] t n assms show ?thesis
      by (auto simp: tty_key_def p(1) Let_def split: prod.splits)
  next
    case False
    then have "cons_inv (put_cons b c)" using assms(1) p r le unfolding cons_inv_def t by auto
    with False t n assms show ?thesis by (auto simp: tty_key_def p(1) Let_def split: prod.splits)
  qed
qed

lemma keyed_same: "fst (tty c') = fst (tty (cons s)) \<Longrightarrow> keyed out c' s = (emit out s)\<lparr>cons := c'\<rparr>"
  by (simp add: keyed_def emit_def)

lemma keyed_commit: "fst (tty c') \<noteq> fst (tty (cons s)) \<Longrightarrow>
    keyed out c' s = (emit out s)\<lparr>cons := c', procs := woken ChanCons {0..<NPROC} s\<rparr>"
  by (simp add: keyed_def)

lemma no_proc_locks_tty [simp]:
  "no_proc_locks (emit out s) = no_proc_locks s" "no_proc_locks (s\<lparr>cons := c\<rparr>) = no_proc_locks s"
  by (simp_all add: no_proc_locks_def)

lemma woken_tty [simp]:
  "woken c ps (emit out s) = woken c ps s" "woken c ps (s\<lparr>cons := k\<rparr>) = woken c ps s"
  "woken c ps (s\<lparr>uart := u\<rparr>) = woken c ps s"
  by (simp_all add: woken_def fun_eq_iff emit_def)

lemma wp_put_key:
  assumes "cons_inv (cons s)" and "no_proc_locks s" and "b \<notin> {0, 8, 13, 16, 21, 127}"
    and "length (cons_all (cons s)) < INPUT_BUF_SIZE"
    and "\<And>c'. cons_inv c' \<Longrightarrow> tty c' = tty_key b (tty (cons s)) \<Longrightarrow> Q () (keyed [b] c' s)"
  shows "wp (blockK [consputc (uint b), upd_cons (put_cons b), bindK (getsK cons) (\<lambda>k.
       whenK (uint b = 10 \<or> uint b = 4 \<or> cons_e k - cons_r k = of_nat INPUT_BUF_SIZE) (blockK [
         upd_cons (\<lambda>k. k\<lparr>cons_w := cons_e k\<rparr>), wakeup ChanCons]))]) Q s"
proof -
  let ?c = "put_cons b (cons s)"
  let ?d = "?c\<lparr>cons_w := cons_e ?c\<rparr>"
  note k = put_key [OF assms(1,4,3)]
  show ?thesis
  proof (cases "b = 10 \<or> b = 4 \<or> length (cons_all ?c) = INPUT_BUF_SIZE")
    case True
    then have q: "Q () (keyed [b] ?d s)" and ne: "fst (tty ?d) \<noteq> fst (tty (cons s))" using k assms(5) by auto
    have "Q () ((emit [b] s)\<lparr>cons := ?d, procs := woken ChanCons {0..<NPROC} s\<rparr>)"
      using q unfolding keyed_commit [OF ne] .
    with True assms(2) show ?thesis
      by (simp add: wp_Ret [OF run_consputc] con_bytes_byte byte_code cons_room upd_cons_def wp_wakeup emit_cons)
  next
    case False
    then have "Q () (keyed [b] ?c s)" and "fst (tty ?c) = fst (tty (cons s))" using k assms(5) by auto
    then have "Q () ((emit [b] s)\<lparr>cons := ?c\<rparr>)" by (simp only: keyed_same)
    with False show ?thesis
      by (simp add: wp_Ret [OF run_consputc] con_bytes_byte byte_code cons_room upd_cons_def emit_cons)
  qed
qed

lemma length_tty: "cons_inv c \<Longrightarrow> length (fst (tty c)) + length (snd (tty c)) = length (cons_all c)"
  by (simp add: tty_def cons_inv_def)

lemma tty_key_cr: "tty_key 13 q = tty_key 10 q" "tty_echo 13 q = tty_echo 10 q"
  by (simp_all add: tty_key_def tty_echo_def)

lemma keyed_held: "(keyed out c' (s\<lparr>held := h\<rparr>))\<lparr>held := held s\<rparr> = keyed out c' s" "held (keyed out c' s) = held s"
  by (simp_all add: keyed_def emit_def)

lemma wp_erase_key:
  assumes "cons_inv (cons s)" and "b = 8 \<or> b = 127"
    and "\<And>c'. cons_inv c' \<Longrightarrow> tty c' = tty_key b (tty (cons s)) \<Longrightarrow> Q () (keyed (tty_echo b (tty (cons s))) c' s)"
  shows "wp (bindK (getsK cons) (\<lambda>k. whenK (cons_e k \<noteq> cons_w k) (blockK [
          upd_cons (\<lambda>k. k\<lparr>cons_e := cons_e k - 1\<rparr>), consputc BACKSPACE]))) Q s"
proof -
  let ?c = "(cons s)\<lparr>cons_e := cons_e (cons s) - 1\<rparr>"
  obtain ready line where q: "tty (cons s) = (ready, line)" by fastforce
  show ?thesis
  proof (cases "line = []")
    case True
    with assms(3) [of "cons s"] assms(1,2) show ?thesis
      by (auto simp: edited_iff q tty_key_def tty_echo_def keyed_same)
  next
    case False
    with erase_law [OF assms(1) _ refl] assms(3) [of ?c] assms(2) have "Q () (emit [8, 32, 8] (s\<lparr>cons := ?c\<rparr>))"
      by (auto simp: q tty_key_def tty_echo_def keyed_same emit_cons)
    with False assms(1) show ?thesis
      by (auto simp: edited_iff q upd_cons_def wp_Ret [OF run_consputc] con_bytes_erase)
  qed
qed

lemma wp_consoleintr:
  assumes "cons_inv (cons s)" and "ConsLock \<notin> set (held s)" and "PrLock \<notin> set (held s)" and "no_proc_locks s"
    and Q: "\<And>c' out. cons_inv c' \<Longrightarrow> tty c' = tty_key b (tty (cons s)) \<Longrightarrow>
       (b \<noteq> 16 \<Longrightarrow> out = tty_echo b (tty (cons s))) \<Longrightarrow> Q () (keyed out c' s)"
  shows "wp (consoleintr (uint b)) Q s"
proof -
  let ?s = "s\<lparr>held := ConsLock # held s\<rparr>"
  let ?Q = "\<lambda>_ :: unit. wp (release ConsLock) Q"
  have K: "?Q () (keyed out c' ?s)" if "cons_inv c'" "tty c' = tty_key b (tty (cons s))"
      "b \<noteq> 16 \<Longrightarrow> out = tty_echo b (tty (cons s))" for out c'
    using Q [OF that] keyed_held(1) [where s = s and out = out and c' = c'] by (simp add: keyed_held(2))
  have inv: "cons_inv (cons ?s)" "no_proc_locks ?s" using assms(1,4) by (simp_all add: no_proc_locks_def)
  obtain ready line where q: "tty (cons s) = (ready, line)" by fastforce
  have n: "length ready + length line = length (cons_all (cons s))" using length_tty [OF assms(1)] q by simp
  consider (dump) "b = 16" | (kill) "b = 21" | (erase) "b = 8 \<or> b = 127"
    | (ignored) "b \<notin> {8, 16, 21, 127}" "b = 0 \<or> length (cons_all (cons s)) \<ge> INPUT_BUF_SIZE"
    | (put) "b \<notin> {0, 8, 16, 21, 127}" "length (cons_all (cons s)) < INPUT_BUF_SIZE" by fastforce
  then show ?thesis
  proof cases
    case dump
    have "PrLock \<notin> set (held ?s)" using assms(3) by simp
    then obtain out where "procdump ?s = Ret () (emit out ?s)" using run_procdump by blast
    moreover have "?Q () (emit out ?s)"
      using K [of "cons s" out] dump assms(1) by (simp add: tty_key_def q keyed_same emit_cons [symmetric])
    ultimately show ?thesis using dump assms(2) by (simp add: consoleintr_def wp_Ret)
  next
    case kill
    have "wp (kill_line (unat (cons_e (cons s) - cons_w (cons s)))) ?Q ?s"
    proof (rule wp_kill_line [OF inv(1)])
      show "length (snd (tty (cons ?s))) \<le> unat (cons_e (cons s) - cons_w (cons s))" using length_line [OF assms(1)] by simp
      fix c' assume "cons_inv c'" "tty c' = (fst (tty (cons ?s)), [])"
      then show "?Q () ((emit (concat (replicate (length (snd (tty (cons ?s)))) [8, 32, 8])) ?s)\<lparr>cons := c'\<rparr>)"
        using K [of c'] kill by (simp add: tty_key_def tty_echo_def q keyed_same)
    qed
    then show ?thesis using kill assms(2) by (simp add: consoleintr_def)
  next
    case erase
    then have "wp (bindK (getsK cons) (\<lambda>k. whenK (cons_e k \<noteq> cons_w k) (blockK [
          upd_cons (\<lambda>k. k\<lparr>cons_e := cons_e k - 1\<rparr>), consputc BACKSPACE]))) ?Q ?s"
      using inv K by (intro wp_erase_key) auto
    with erase assms(2) show ?thesis by (auto simp: consoleintr_def byte_code)
  next
    case ignored
    then have "tty_key b (tty (cons s)) = tty (cons s)" "tty_echo b (tty (cons s)) = []"
      using n by (auto simp: q tty_key_def tty_echo_def)
    with K [of "cons s" "[]"] ignored assms(1,2) show ?thesis
      by (auto simp: consoleintr_def byte_code cons_room keyed_same)
  next
    case put
    define ch where "ch = (if b = 13 then 10 else b)"
    have "tty_key b (tty (cons s)) = tty_key ch (tty (cons s))" "tty_echo b (tty (cons s)) = [ch]"
      using put n by (auto simp: ch_def tty_key_cr(1) tty_echo_def q)
    then have "wp (blockK [consputc (uint ch), upd_cons (put_cons ch), bindK (getsK cons) (\<lambda>k.
       whenK (uint ch = 10 \<or> uint ch = 4 \<or> cons_e k - cons_r k = of_nat INPUT_BUF_SIZE) (blockK [
         upd_cons (\<lambda>k. k\<lparr>cons_w := cons_e k\<rparr>), wakeup ChanCons]))]) ?Q ?s"
      using put inv K by (intro wp_put_key) (auto simp: ch_def)
    with put assms(2) show ?thesis
      by (cases "b = 13") (simp_all add: ch_def consoleintr_def Let_def byte_code cons_room)
  qed
qed

section \<open>The receive interrupt\<close>

definition rx :: "u8 list \<Rightarrow> kstate \<Rightarrow> kstate" where
  "rx q s = s\<lparr>uart := (uart s)\<lparr>rx_fifo := q\<rparr>\<rparr>"

lemma rx_simps [simp]:
  "rx_fifo (uart (rx q s)) = q" "cons (rx q s) = cons s" "held (rx q s) = held s" "rx q (rx q' s) = rx q s"
  "no_proc_locks (rx q s) = no_proc_locks s" "keyed out c (rx q s) = rx q (keyed out c s)"
  "woken ch ps (rx q s) = woken ch ps s"
  by (simp_all add: rx_def no_proc_locks_def keyed_def emit_def)

lemma rx_same: "rx (rx_fifo (uart s)) s = s"
  by (simp add: rx_def)

lemma keyed_simps [simp]:
  "cons (keyed out c s) = c" "rx_fifo (uart (keyed out c s)) = rx_fifo (uart s)" "held (keyed out c s) = held s"
  "no_proc_locks (keyed out c s) = no_proc_locks s"
  by (simp_all add: keyed_def emit_def no_proc_locks_def)

lemma woken_again: "procs t = woken c ps s \<Longrightarrow> cur t = cur s \<Longrightarrow> woken c ps t = woken c ps s"
  by (simp add: woken_def fun_eq_iff)

lemma ready_grows: "\<exists>x. fst (tty_key b q) = fst q @ x"
  by (auto simp: tty_key_def Let_def split: prod.splits)

lemma ready_grows_fold: "\<exists>x. fst (fold tty_key bs q) = fst q @ x"
proof (induction bs arbitrary: q)
  case (Cons b bs)
  obtain x y where "fst (tty_key b q) = fst q @ x" "fst (fold tty_key bs (tty_key b q)) = fst (tty_key b q) @ y"
    using ready_grows Cons.IH by blast
  then show ?case by simp
qed simp

lemma keyed_keyed:
  assumes "tty c1 = tty_key b (tty (cons s))" and "tty c2 = fold tty_key bs (tty c1)"
  shows "keyed out2 c2 (keyed out1 c1 s) = keyed (out1 @ out2) c2 s"
proof -
  obtain x y where "fst (tty c1) = fst (tty (cons s)) @ x" "fst (tty c2) = fst (tty c1) @ y"
    using ready_grows [of b "tty (cons s)"] ready_grows_fold [of bs "tty c1"] assms by auto
  then show ?thesis by (cases "x = []"; cases "y = []") (simp_all add: keyed_def emit_def woken_again [of _ ChanCons "{0..<NPROC}" s])
qed

lemma wp_uartgetc:
  "wp uartgetc Q s = (case rx_fifo (uart s) of [] \<Rightarrow> Q (- 1) s | c # q \<Rightarrow> Q (uint c) (rx q s))"
  by (simp add: uartgetc_def upd_uart_def rx_def split: list.split)

lemma wp_uartintr_loop:
  assumes "rx_fifo (uart s) = bs" and "cons_inv (cons s)" and "ConsLock \<notin> set (held s)" and "PrLock \<notin> set (held s)"
    and "no_proc_locks s"
    and "\<And>c' out. cons_inv c' \<Longrightarrow> tty c' = fold tty_key bs (tty (cons s)) \<Longrightarrow>
       (16 \<notin> set bs \<Longrightarrow> out = tty_echoes bs (tty (cons s))) \<Longrightarrow> Q () (rx [] (keyed out c' s))"
  shows "wp (uartintr_loop (Suc (length bs))) Q s"
  using assms
proof (induction bs arbitrary: s)
  case Nil
  from Nil(6) [of "cons s" "[]"] Nil(1,2) rx_same [of s] have "Q () s" by (simp add: keyed_same)
  with Nil(1) show ?case by (simp add: wp_uartgetc)
next
  case (Cons b bs)
  have step: "wp (uartintr_loop (Suc (length bs))) Q (rx bs (keyed out c' s))"
    if c': "cons_inv c'" "tty c' = tty_key b (tty (cons s))" "b \<noteq> 16 \<Longrightarrow> out = tty_echo b (tty (cons s))" for out c'
  proof (rule Cons.IH)
    fix c2 out2 assume c2: "cons_inv c2" "tty c2 = fold tty_key bs (tty (cons (rx bs (keyed out c' s))))"
      "16 \<notin> set bs \<Longrightarrow> out2 = tty_echoes bs (tty (cons (rx bs (keyed out c' s))))"
    have "Q () (rx [] (keyed (out @ out2) c2 s))" using c2 c' by (intro Cons.prems(6)) auto
    then show "Q () (rx [] (keyed out2 c2 (rx bs (keyed out c' s))))"
      using keyed_keyed [OF c'(2), of c2 bs] c2(2) by simp
  qed (use Cons.prems c' in simp_all)
  have "wp (consoleintr (uint b)) (\<lambda>_. wp (uartintr_loop (Suc (length bs))) Q) (rx bs s)"
    by (rule wp_consoleintr) (use Cons.prems step in simp_all)
  moreover have "uint b \<noteq> - 1" using uint_ge_0 [of b] by linarith
  ultimately show ?case using Cons.prems(1)
    unfolding uartintr_loop.simps(2) [of "length (b # bs)"] length_Cons by (simp add: wp_uartgetc)
qed

section \<open>Reading\<close>

lemma tty_read_length: "tty_read started n q = Some (bs, rest) \<Longrightarrow> length bs \<le> n"
  by (induction started n q arbitrary: bs rule: tty_read.induct) (auto split: if_splits)

lemma empty_iff: "cons_r c = cons_w c \<longleftrightarrow> cons_ready c = 0"
  by (auto simp: cons_ready_def unat_eq_zero)

lemma ready_iff: "cons_inv c \<Longrightarrow> cons_r c = cons_w c \<longleftrightarrow> fst (tty c) = []"
  by (auto simp: empty_iff tty_def cons_inv_def)

lemma wp_consoleread_loop:
  assumes "cur s = Some pr" and "pt = p_pagetable (procs s pr)" and "ConsLock \<in> set (held s)"
    and "cons_inv (cons s)" and apart: "pt_apart m pt A" and "\<forall>x. x \<notin> A \<longrightarrow> mem s x = m x"
    and "\<forall>j < n. user_writable m pt (addr + of_nat (i + j)) \<and> (\<exists>a\<in>A. user_addr m pt (addr + of_nat (i + j)) = Some a)"
    and "i + n = target" and "tty_read (0 < i) n (fst (tty (cons s))) = Some (bs, rest)"
    and "\<And>c'. cons_inv c' \<Longrightarrow> tty c' = (rest, snd (tty (cons s))) \<Longrightarrow> Q (int (i + length bs))
      (s\<lparr>mem := delivered m pt addr i bs (mem s), cons := c', held := remove1 ConsLock (held s)\<rparr>)"
  shows "wp (consoleread_loop (UBuf addr) i n target) Q s"
  using assms(1-4,6-10)
proof (induction n arbitrary: i s bs)
  case 0
  have "Q (int i) (s\<lparr>mem := mem s, cons := cons s, held := remove1 ConsLock (held s)\<rparr>)"
    using 0(9) [of "cons s"] 0(4,8) by (cases "tty (cons s)") (simp add: delivered_def put_at_def)
  with 0 show ?case by simp
next
  case (Suc n)
  let ?c = "cons s"
  let ?c1 = "?c\<lparr>cons_r := cons_r ?c + 1\<rparr>"
  have ne: "fst (tty ?c) \<noteq> []" using Suc.prems(8) by auto
  note t = take_law [OF Suc.prems(4) ne refl]
  define ch where "ch = cons_byte ?c (cons_r ?c)"
  define q where "q = fst (tty ?c1)"
  have fq: "fst (tty ?c) = ch # q" and w: "cons_r ?c \<noteq> cons_w ?c" "target - Suc n = i"
    using t(2) ready_iff [OF Suc.prems(4)] ne Suc.prems(7) by (auto simp: ch_def q_def)
  show ?case
  proof (cases "ch = 4")
    case True
    then have r: "bs = []" "rest = (if 0 < i then ch # q else q)" using Suc.prems(8) fq by auto
    have "Q (int i) (s\<lparr>cons := if 0 < i then ?c else ?c1, held := remove1 ConsLock (held s)\<rparr>)"
      using Suc.prems(9) [of "if 0 < i then ?c else ?c1"] Suc.prems(4) t r fq
      by (cases "tty ?c1") (auto simp: delivered_def put_at_def q_def prod_eq_iff split: if_splits)
    with True w Suc.prems(3,7) show ?thesis by (auto simp: Let_def upd_cons_def ch_def [symmetric])
  next
    case False
    define m1 where "m1 = delivered m pt addr i [ch] (mem s)"
    let ?s = "s\<lparr>mem := m1, cons := ?c1\<rparr>"
    have frame: "\<forall>x. x \<notin> A \<longrightarrow> mem (s\<lparr>cons := ?c1\<rparr>) x = m x" using Suc.prems(5) by simp
    have here: "user_writable m pt (addr + of_nat i)" "\<exists>a\<in>A. user_addr m pt (addr + of_nat i) = Some a"
      using Suc.prems(6) [rule_format, of 0] by auto
    have "copyout pt (addr + of_nat i) [ch] (s\<lparr>cons := ?c1\<rparr>) = Ret 0 (s\<lparr>cons := ?c1, mem := m1\<rparr>)"
      using deliver_byte(1) [OF apart frame here, where b = ch] by (simp add: m1_def)
    also have "s\<lparr>cons := ?c1, mem := m1\<rparr> = ?s" by simp
    finally have out: "wp (either_copyout (UBuf addr) i [ch]) R (s\<lparr>cons := ?c1\<rparr>) = R 0 ?s" for R
      using Suc.prems(1,2) by (simp add: either_copyout_def cur_pagetable_def wp_myproc wp_Ret)
    show ?thesis
    proof (cases "ch = 10")
      case True
      then have "Q (int i + 1) (?s\<lparr>held := remove1 ConsLock (held s)\<rparr>)"
        using Suc.prems(8) Suc.prems(9) [of ?c1] t fq by (auto simp: m1_def q_def prod_eq_iff)
      moreover have "int target - int n = int i + 1" using Suc.prems(7) by simp
      ultimately show ?thesis using True w(1) Suc.prems(3) out by (simp add: Let_def upd_cons_def ch_def [symmetric])
    next
      case nl: False
      then obtain bs' where bs: "bs = ch # bs'" "tty_read True n q = Some (bs', rest)"
        using False Suc.prems(8) fq by auto
      have "wp (consoleread_loop (UBuf addr) (Suc i) n target) Q ?s"
      proof (rule Suc.IH)
        show "\<forall>x. x \<notin> A \<longrightarrow> mem ?s x = m x" using deliver_byte(2) [OF apart frame here, where b = ch] by (simp add: m1_def)
        show "\<forall>j < n. user_writable m pt (addr + of_nat (Suc i + j))
            \<and> (\<exists>a\<in>A. user_addr m pt (addr + of_nat (Suc i + j)) = Some a)"
          using Suc.prems(6) by (metis Suc_mono add_Suc add_Suc_right)
        show "tty_read (0 < Suc i) n (fst (tty (cons ?s))) = Some (bs', rest)" using bs(2) by (simp add: q_def)
        fix c' assume c': "cons_inv c'" "tty c' = (rest, snd (tty (cons ?s)))"
        have "delivered m pt addr (Suc i) bs' (mem ?s) = delivered m pt addr i bs (mem s)"
          using delivered_Cons [of m pt addr i ch bs' "mem s"] bs(1) by (simp add: m1_def)
        then show "Q (int (Suc i + length bs')) (?s\<lparr>mem := delivered m pt addr (Suc i) bs' (mem ?s), cons := c',
            held := remove1 ConsLock (held ?s)\<rparr>)"
          using Suc.prems(9) [of c'] c' t(3) bs(1) by simp
      qed (use Suc.prems(1-3,7) t(1) in simp_all)
      with False nl w Suc.prems(3) out show ?thesis by (auto simp: Let_def upd_cons_def ch_def [symmetric])
    qed
  qed
qed

section \<open>Properties\<close>

text \<open>
  C9. The receive interrupt implements line editing: whatever bytes are in the FIFO of the UART,
  \<open>uartintr\<close> returns with the FIFO empty, and the three wrap-around indices of the console stand
  for the lists that the specification \<open>tty_key\<close> gives for those bytes: ordinary bytes extend the
  line, backspace and delete remove its last byte, control-U removes the line, and newline,
  control-D or a full buffer make it ready. The bytes are echoed as \<open>tty_echoes\<close> says unless
  control-P asks for a process listing; if bytes became ready, every sleeping reader is runnable.
\<close>

theorem console_line_editing:
  assumes "cons_inv (cons s)" and "held s = []" and "rx_fifo (uart s) = bs"
  shows "\<exists>t. uartintr s = Ret () t \<and> rx_fifo (uart t) = [] \<and> cons_inv (cons t) \<and> held t = []
    \<and> tty (cons t) = fold tty_key bs (tty (cons s))
    \<and> (16 \<notin> set bs \<longrightarrow> uart_out (uart t) = uart_out (uart s) @ tty_echoes bs (tty (cons s)))
    \<and> (\<forall>p < NPROC. fst (tty (cons t)) \<noteq> fst (tty (cons s)) \<and> Some p \<noteq> cur s \<and> p_state (procs s p) = SLEEPING
        \<and> p_chan (procs s p) = ChanCons \<longrightarrow> p_state (procs t p) = RUNNABLE)"
proof -
  define s1 where "s1 = (if tx_idle (uart s) then s\<lparr>uart := (uart s)\<lparr>tx_busy := False\<rparr>, procs := woken ChanTx {0..<NPROC} s\<rparr> else s)"
  have s1: "cons s1 = cons s" "held s1 = []" "no_proc_locks s1" "rx_fifo (uart s1) = bs" "uart_out (uart s1) = uart_out (uart s)"
    "cur s1 = cur s" using assms by (simp_all add: s1_def no_proc_locks_def)
  let ?Q = "\<lambda>_ :: unit. \<lambda>t. \<exists>c' out. cons_inv c' \<and> tty c' = fold tty_key bs (tty (cons s))
    \<and> (16 \<notin> set bs \<longrightarrow> out = tty_echoes bs (tty (cons s))) \<and> t = rx [] (keyed out c' s1)"
  have "wp (uartintr_loop (Suc (length bs))) ?Q s1"
    by (rule wp_uartintr_loop) (use s1 assms(1) in auto)
  moreover have "s\<lparr>uart := u, procs := p, held := held s\<rparr> = s\<lparr>uart := u, procs := p\<rparr>" "s\<lparr>held := held s\<rparr> = s" for u p by simp_all
  then have h: "s\<lparr>uart := u, procs := p, held := []\<rparr> = s\<lparr>uart := u, procs := p\<rparr>" "s\<lparr>held := []\<rparr> = s" for u p
    unfolding assms(2) by auto
  ultimately have "wp uartintr ?Q s" using assms(2,3) unfolding uartintr_def upd_uart_def s1_def
    by (cases "tx_idle (uart s)") (simp_all add: wp_wakeup no_proc_locks_def h del: uartintr_loop.simps)
  then obtain t c' out where run: "uartintr s = Ret () t" and c': "cons_inv c'" "tty c' = fold tty_key bs (tty (cons s))"
    "16 \<notin> set bs \<longrightarrow> out = tty_echoes bs (tty (cons s))" and t: "t = rx [] (keyed out c' s1)" by (elim wpE exE conjE) simp
  have "rx_fifo (uart t) = []" "cons t = c'" "held t = []" "uart_out (uart t) = uart_out (uart s) @ out"
    using s1 by (simp_all add: t) (simp add: rx_def keyed_def emit_def)
  moreover have "p_state (procs t p) = RUNNABLE"
    if "p < NPROC" "fst (tty c') \<noteq> fst (tty (cons s))" "Some p \<noteq> cur s" "p_state (procs s p) = SLEEPING"
      "p_chan (procs s p) = ChanCons" for p
  proof -
    have "procs t p = woken ChanCons {0..<NPROC} s1 p" using that(2) s1(1) by (simp add: t rx_def keyed_def)
    moreover have "procs s1 p = procs s p" using that(5) by (simp add: s1_def woken_def)
    ultimately show ?thesis using that s1(6) by (simp add: woken_def)
  qed
  ultimately show ?thesis using run c' by auto
qed

lemma zero_cons_tty: "cons_inv (cons zero_kstate)" "tty (cons zero_kstate) = ([], [])"
  by (simp_all add: cons_inv_def tty_def cons_all_def cons_ready_def zero_kstate_def INPUT_BUF_SIZE_def)

theorem console_line_editing_witness:
  "\<exists>t. uartintr (rx [97, 98, 8, 13, 99] zero_kstate) = Ret () t \<and> tty (cons t) = ([97, 10], [99])
     \<and> uart_out (uart t) = [97, 98, 8, 32, 8, 10, 99]"
proof -
  have "held (rx [97, 98, 8, 13, 99] zero_kstate) = []" "uart_out (uart (rx [97, 98, 8, 13, 99] zero_kstate)) = []"
    by (simp_all add: zero_kstate_def rx_def)
  with console_line_editing [of "rx [97, 98, 8, 13, 99] zero_kstate" "[97, 98, 8, 13, 99]"] zero_cons_tty
  show ?thesis by (auto simp: tty_key_def tty_echo_def INPUT_BUF_SIZE_def)
qed

text \<open>
  C19. A read from the console delivers input lines: when the ready bytes contain what the read
  needs (\<open>tty_read\<close>: a whole line, the bytes up to an end-of-file mark, or as many bytes as were
  asked for), \<open>consoleread\<close> returns the number of bytes, the caller finds exactly those bytes at
  its buffer, they are no longer ready, an end-of-file mark after some bytes stays for the next
  read, and the line under edit is not touched.
\<close>

theorem consoleread_delivers:
  assumes "cur s = Some pr" and "held s = []" and "cons_inv (cons s)" and "0 < n"
    and "tty_read False n (fst (tty (cons s))) = Some (bs, rest)" and "pt = p_pagetable (procs s pr)"
    and "\<forall>j < n. user_writable (mem s) pt (addr + of_nat j) \<and> user_addr (mem s) pt (addr + of_nat j) \<noteq> None"
    and "A = (\<lambda>j. the (user_addr (mem s) pt (addr + of_nat j))) ` {..<n}"
    and "inj_on (\<lambda>j. the (user_addr (mem s) pt (addr + of_nat j))) {..<n}" and "pt_apart (mem s) pt A"
  shows "\<exists>t. consoleread (UBuf addr) (int n) s = Ret (int (length bs)) t
    \<and> cons_inv (cons t) \<and> tty (cons t) = (rest, snd (tty (cons s)))
    \<and> copyin pt addr (length bs) t = Ret (0, bs) t \<and> (\<forall>x. x \<notin> A \<longrightarrow> mem t x = mem s x)
    \<and> held t = [] \<and> procs t = procs s"
proof -
  let ?s = "s\<lparr>held := ConsLock # held s\<rparr>"
  let ?Q = "\<lambda>r t. r = int (length bs) \<and> cons_inv (cons t) \<and> tty (cons t) = (rest, snd (tty (cons s)))
    \<and> mem t = delivered (mem s) pt addr 0 bs (mem s) \<and> held t = [] \<and> procs t = procs s"
  have "wp (consoleread_loop (UBuf addr) 0 n n) ?Q ?s"
  proof (rule wp_consoleread_loop [OF _ _ _ _ assms(10)])
    show "\<forall>j < n. user_writable (mem s) pt (addr + of_nat (0 + j))
        \<and> (\<exists>a\<in>A. user_addr (mem s) pt (addr + of_nat (0 + j)) = Some a)"
      using assms(7,8) by fastforce
    show "tty_read (0 < (0 :: nat)) n (fst (tty (cons ?s))) = Some (bs, rest)" using assms(5) by simp
  qed (use assms in simp_all)
  then have "wp (consoleread (UBuf addr) (int n)) ?Q s" using assms(2,4) by (simp add: consoleread_def)
  then obtain t where run: "consoleread (UBuf addr) (int n) s = Ret (int (length bs)) t"
    and t: "cons_inv (cons t)" "tty (cons t) = (rest, snd (tty (cons s)))" "held t = []" "procs t = procs s"
    and m: "mem t = delivered (mem s) pt addr 0 bs (mem s)" by (elim wpE) simp
  have le: "length bs \<le> n" using tty_read_length [OF assms(5)] .
  have ua: "\<forall>j < n. user_addr (mem s) pt (addr + of_nat j) \<noteq> None" using assms(7) by simp
  from delivered_read_back [OF ua assms(8-10) le m] run t show ?thesis by blast
qed

definition demo_console :: kstate where
  "demo_console = zero_kstate\<lparr>mem := demo_mem, cur := Some 0, procs := (\<lambda>_. zero_proc\<lparr>p_pagetable := 0x1000\<rparr>),
     cons := fold put_cons [97, 10, 99] \<lparr>cons_buf = replicate 128 0, cons_r = 0, cons_w = 3, cons_e = 0\<rparr>\<rparr>"

theorem consoleread_delivers_witness:
  "\<exists>t. consoleread (UBuf 8) 5 demo_console = Ret 2 t
     \<and> copyin 0x1000 8 2 t = Ret (0, [97, 10]) t \<and> tty (cons t) = ([99], [])"
proof -
  let ?s = demo_console and ?f = "\<lambda>j. the (user_addr demo_mem 0x1000 (8 + of_nat j))"
  have t: "tty (cons ?s) = ([97, 10, 99], [])" "cons_inv (cons ?s)"
    by (simp_all add: demo_console_def cons_inv_def tty_def cons_all_def cons_ready_def put_cons_def cyc_def
        INPUT_BUF_SIZE_def upt_rec nth_list_update)
  have r: "tty_read False 5 (fst (tty (cons ?s))) = Some ([97, 10], [99])" 
    using tty_read.simps(3) [of False 4 97 "[10, 99]"] tty_read.simps(3) [of True 3 10 "[99]"] by (simp add: t)
  have m: "mem ?s = demo_mem" by (simp add: demo_console_def)
  have "\<exists>t. consoleread (UBuf 8) (int 5) ?s = Ret (int (length [97, 10 :: u8])) t
    \<and> cons_inv (cons t) \<and> tty (cons t) = ([99], snd (tty (cons ?s)))
    \<and> copyin 0x1000 8 (length [97, 10 :: u8]) t = Ret (0, [97, 10]) t
    \<and> (\<forall>x. x \<notin> ?f ` {..<5} \<longrightarrow> mem t x = mem ?s x) \<and> held t = [] \<and> procs t = procs ?s"
    by (rule consoleread_delivers [where pr = 0, OF _ _ t(2) _ r]) (use demo_buffer [of 5 ?f] in
        \<open>simp_all add: m, simp_all add: demo_console_def zero_kstate_def\<close>)
  moreover have "length [97, 10 :: u8] = 2" by simp
  ultimately show ?thesis unfolding \<open>length [97, 10] = 2\<close> t snd_conv by auto
qed

end
