(* ===== verification/Fdtab.thy ===== *)
theory Fdtab
  imports Sysfile
begin

text \<open>
  File descriptors and reference counts. \<open>fds_typed\<close> says that every open descriptor names a slot
  of the file table and that the reference count of every slot is the number of descriptors that
  name it; \<open>dup\<close> and \<open>close\<close> keep it.
\<close>

section \<open>The invariant\<close>

definition fd_refs :: "kstate \<Rightarrow> nat \<Rightarrow> (nat \<times> nat) set" where
  "fd_refs s f = {(p, fd). p < NPROC \<and> fd < NOFILE \<and> p_ofile (procs s p) fd = Some f}"

definition fds_typed :: "kstate \<Rightarrow> bool" where
  "fds_typed s \<longleftrightarrow> (\<forall>f. fd_refs s f \<noteq> {} \<longrightarrow> f < NFILE) \<and> (\<forall>f < NFILE. f_ref (files s f) = int (card (fd_refs s f)))"

lemma finite_fd_refs [simp]: "finite (fd_refs s f)"
proof (rule finite_subset)
  show "fd_refs s f \<subseteq> {..<NPROC} \<times> {..<NOFILE}" by (auto simp: fd_refs_def)
qed simp

definition with_fd :: "nat \<Rightarrow> nat \<Rightarrow> nat option \<Rightarrow> kstate \<Rightarrow> kstate" where
  "with_fd p fd x s = s\<lparr>procs := (procs s)(p := (procs s p)\<lparr>p_ofile := (p_ofile (procs s p))(fd := x)\<rparr>)\<rparr>"

definition with_ref :: "nat \<Rightarrow> int \<Rightarrow> kstate \<Rightarrow> kstate" where
  "with_ref f n s = s\<lparr>files := (files s)(f := (files s f)\<lparr>f_ref := n\<rparr>)\<rparr>"

lemma fd_refs_with [simp]: "fd_refs (with_ref f n s) g = fd_refs s g"
  "fd_refs (s\<lparr>held := h\<rparr>) g = fd_refs s g"
  by (simp_all add: fd_refs_def with_ref_def)

lemma fd_refs_open:
  assumes "p < NPROC" and "fd < NOFILE" and "p_ofile (procs s p) fd = None"
  shows "fd_refs (with_fd p fd (Some f) s) g = (if g = f then insert (p, fd) (fd_refs s g) else fd_refs s g)"
    and "(p, fd) \<notin> fd_refs s g"
  using assms by (auto simp: fd_refs_def with_fd_def split: if_splits)

lemma fd_refs_close:
  assumes "p < NPROC" and "fd < NOFILE" and "p_ofile (procs s p) fd = Some f"
  shows "fd_refs (with_fd p fd None s) g = (if g = f then fd_refs s g - {(p, fd)} else fd_refs s g)"
    and "(p, fd) \<in> fd_refs s f"
  using assms by (auto simp: fd_refs_def with_fd_def split: if_splits)

lemma typed_dup:
  assumes "fds_typed s" and "p < NPROC" and "fd < NOFILE" and "p_ofile (procs s p) fd = None"
    and "old < NOFILE" and "p_ofile (procs s p) old = Some f"
  shows "fds_typed (with_ref f (f_ref (files s f) + 1) (with_fd p fd (Some f) s))" and "f_ref (files s f) \<ge> 1"
proof -
  have old: "(p, old) \<in> fd_refs s f" using assms by (simp add: fd_refs_def)
  then have f: "f < NFILE" and "0 < card (fd_refs s f)" using assms(1) by (auto simp: fds_typed_def card_gt_0_iff)
  then show "f_ref (files s f) \<ge> 1" using assms(1) by (simp add: fds_typed_def)
  show "fds_typed (with_ref f (f_ref (files s f) + 1) (with_fd p fd (Some f) s))"
    unfolding fds_typed_def fd_refs_with fd_refs_open(1) [OF assms(2-4)]
  proof (intro conjI allI impI)
    fix g assume "(if g = f then insert (p, fd) (fd_refs s g) else fd_refs s g) \<noteq> {}"
    then show "g < NFILE" using f assms(1) by (auto simp: fds_typed_def split: if_splits)
  next
    fix g assume "g < NFILE"
    then have "f_ref (files s g) = int (card (fd_refs s g))" using assms(1) by (simp add: fds_typed_def)
    then show "f_ref (files (with_ref f (f_ref (files s f) + 1) (with_fd p fd (Some f) s)) g)
        = int (card (if g = f then insert (p, fd) (fd_refs s g) else fd_refs s g))"
      using fd_refs_open(2) [OF assms(2-4)] by (auto simp: with_ref_def with_fd_def)
  qed
qed

lemma typed_close:
  assumes "fds_typed s" and "p < NPROC" and "fd < NOFILE" and "p_ofile (procs s p) fd = Some f"
  shows "fds_typed (with_ref f (f_ref (files s f) - 1) (with_fd p fd None s))" and "f_ref (files s f) \<ge> 1"
proof -
  note fd = fd_refs_close [OF assms(2-4)]
  then have f: "f < NFILE" and pos: "0 < card (fd_refs s f)" using assms(1) by (auto simp: fds_typed_def card_gt_0_iff)
  then show "f_ref (files s f) \<ge> 1" using assms(1) by (simp add: fds_typed_def)
  show "fds_typed (with_ref f (f_ref (files s f) - 1) (with_fd p fd None s))"
    unfolding fds_typed_def fd_refs_with fd(1)
  proof (intro conjI allI impI)
    fix g assume "(if g = f then fd_refs s g - {(p, fd)} else fd_refs s g) \<noteq> {}"
    then show "g < NFILE" using f assms(1) by (auto simp: fds_typed_def split: if_splits)
  next
    fix g assume "g < NFILE"
    then have "f_ref (files s g) = int (card (fd_refs s g))" using assms(1) by (simp add: fds_typed_def)
    then show "f_ref (files (with_ref f (f_ref (files s f) - 1) (with_fd p fd None s)) g)
        = int (card (if g = f then fd_refs s g - {(p, fd)} else fd_refs s g))"
      using fd(2) pos by (auto simp: with_ref_def with_fd_def of_nat_diff)
  qed
qed

section \<open>The system calls\<close>

definition fd_arg :: "kstate \<Rightarrow> nat \<Rightarrow> int" where
  "fd_arg s p = sint (ucast (tf_a (tframes s (p_trapframe (procs s p))) 0) :: u32)"

definition open_fd :: "kstate \<Rightarrow> nat \<Rightarrow> int \<Rightarrow> nat option" where
  "open_fd s p fd = (if fd < 0 \<or> fd \<ge> int NOFILE then None else p_ofile (procs s p) (nat fd))"

lemma wp_argfd:
  "cur s = Some p \<Longrightarrow> wp (argfd 0) Q s = Q (map_option (\<lambda>f. (nat (fd_arg s p), f)) (open_fd s p (fd_arg s p))) s"
  by (auto simp: argfd_def argint_def argraw_def get_tf_def get_proc_def fd_arg_def open_fd_def wp_myproc
      split: option.splits)

lemma wp_fdalloc: "cur s = Some p \<Longrightarrow> wp (fdalloc f) Q s =
    (case find (\<lambda>fd. p_ofile (procs s p) fd = None) [0..<NOFILE] of
       None \<Rightarrow> Q (- 1) s | Some fd \<Rightarrow> Q (int fd) (with_fd p fd (Some f) s))"
  by (auto simp: fdalloc_def set_ofile_def upd_proc_def get_proc_def with_fd_def wp_myproc split: option.splits)

lemma wp_filedup: "FtableLock \<notin> set (held s) \<Longrightarrow> f_ref (files s f) \<ge> 1 \<Longrightarrow>
    wp (filedup f) Q s = Q f (with_ref f (f_ref (files s f) + 1) s)"
  by (simp add: filedup_def get_file_def upd_file_def with_ref_def)

lemma wp_fileclose_shared: "FtableLock \<notin> set (held s) \<Longrightarrow> f_ref (files s f) > 1 \<Longrightarrow>
    wp (fileclose f) Q s = Q () (with_ref f (f_ref (files s f) - 1) s)"
  by (simp add: fileclose_def get_file_def upd_file_def with_ref_def)

definition dup_result :: "kstate \<Rightarrow> nat \<Rightarrow> int \<Rightarrow> int \<Rightarrow> kstate \<Rightarrow> bool" where
  "dup_result s p fd r t \<longleftrightarrow>
     (if open_fd s p fd = None \<or> (\<forall>k < NOFILE. p_ofile (procs s p) k \<noteq> None) then r = - 1 \<and> t = s
      else 0 \<le> r \<and> r < int NOFILE \<and> p_ofile (procs s p) (nat r) = None
        \<and> (\<forall>k < nat r. p_ofile (procs s p) k \<noteq> None) \<and> p_ofile (procs t p) = (p_ofile (procs s p))(nat r := open_fd s p fd))"

lemma run_dup:
  assumes "fds_typed s" and "cur s = Some p" and "p < NPROC" and "held s = []" and "fd = fd_arg s p"
  shows "\<exists>r t. sys_dup s = Ret r t \<and> fds_typed t \<and> dup_result s p fd r t"
proof (cases "open_fd s p fd = None \<or> (\<forall>k < NOFILE. p_ofile (procs s p) k \<noteq> None)")
  case True
  have "find (\<lambda>k. p_ofile (procs s p) k = None) [0..<NOFILE] = None \<or> open_fd s p fd = None"
    using True by (auto simp: find_None_iff)
  then have "wp sys_dup (\<lambda>r t. r = - 1 \<and> t = s) s"
    by (cases "open_fd s p fd") (auto simp: sys_dup_def wp_argfd [OF assms(2)] wp_fdalloc [OF assms(2)] assms(5) [symmetric])
  then show ?thesis using True assms(1) by (auto elim: wpE simp: dup_result_def)
next
  case False
  then obtain f k where f: "open_fd s p fd = Some f" and S: "find (\<lambda>k. p_ofile (procs s p) k = None) [0..<NOFILE] = Some k"
    by (cases "find (\<lambda>k. p_ofile (procs s p) k = None) [0..<NOFILE]") (auto simp: find_None_iff)
  then have o: "nat fd < NOFILE" "p_ofile (procs s p) (nat fd) = Some f" by (auto simp: open_fd_def split: if_splits)
  have k: "k < NOFILE" "p_ofile (procs s p) k = None" "\<forall>j < k. p_ofile (procs s p) j \<noteq> None"
    using S by (auto simp: find_Some_iff)
  let ?t = "with_ref f (f_ref (files s f) + 1) (with_fd p k (Some f) s)"
  note ty = typed_dup [OF assms(1,3) k(1,2) o]
  have "files (with_fd p k (Some f) s) = files s" "held (with_fd p k (Some f) s) = []"
    using assms(4) by (simp_all add: with_fd_def)
  then have "wp sys_dup (\<lambda>r t. r = int k \<and> t = ?t) s" using f S ty(2)
    by (simp add: sys_dup_def wp_argfd [OF assms(2)] wp_fdalloc [OF assms(2)] assms(5) [symmetric] wp_filedup)
  then have "sys_dup s = Ret (int k) ?t" by (auto elim: wpE)
  moreover have "dup_result s p fd (int k) ?t" using False k f by (auto simp: dup_result_def with_ref_def with_fd_def)
  ultimately show ?thesis using ty(1) by blast
qed

lemma run_close:
  assumes "fds_typed s" and "cur s = Some p" and "p < NPROC" and "held s = []" and "fd = fd_arg s p"
    and "\<forall>f. open_fd s p fd = Some f \<longrightarrow> f_ref (files s f) > 1"
  shows "\<exists>r t. sys_close s = Ret r t \<and> fds_typed t \<and> (if open_fd s p fd = None then r = - 1 \<and> t = s
      else r = 0 \<and> p_ofile (procs t p) = (p_ofile (procs s p))(nat fd := None))"
proof (cases "open_fd s p fd")
  case None
  have "wp sys_close (\<lambda>r t. r = - 1 \<and> t = s) s"
    using None by (simp add: sys_close_def wp_argfd [OF assms(2)] assms(5) [symmetric])
  then show ?thesis using None assms(1) by (auto elim: wpE)
next
  case (Some f)
  then have o: "nat fd < NOFILE" "p_ofile (procs s p) (nat fd) = Some f" by (auto simp: open_fd_def split: if_splits)
  let ?t = "with_ref f (f_ref (files s f) - 1) (with_fd p (nat fd) None s)"
  have "files (with_fd p (nat fd) None s) = files s" "held (with_fd p (nat fd) None s) = []"
    using assms(4) by (simp_all add: with_fd_def)
  then have "wp sys_close (\<lambda>r t. r = 0 \<and> t = ?t) s" using Some assms(2,6)
    by (simp add: sys_close_def wp_argfd [OF assms(2)] assms(5) [symmetric] wp_myproc set_ofile_def upd_proc_def
        with_fd_def [symmetric] wp_fileclose_shared)
  moreover have "p_ofile (procs ?t p) = (p_ofile (procs s p))(nat fd := None)" by (simp add: with_ref_def with_fd_def)
  ultimately show ?thesis using Some typed_close(1) [OF assms(1,3) o] by (auto elim!: wpE)
qed

section \<open>Properties\<close>


definition demo_fds :: kstate where
  "demo_fds = with_ref 0 2 (with_fd 0 0 (Some 0) (with_fd 0 5 (Some 0) (zero_kstate\<lparr>cur := Some 0\<rparr>)))"


end
