(* ===== verification/Inode.thy ===== *)
theory Inode
  imports Fs
begin

text \<open>
  Inodes on disk and in memory, and path names: sixteen inodes share a block and updating one
  leaves the others alone; the inode table never holds an inode twice; \<open>skipelem\<close> splits a path
  into its elements.
\<close>

section \<open>Inodes in a block\<close>

definition dinode_ok :: "dinode \<Rightarrow> bool" where
  "dinode_ok i \<longleftrightarrow> (\<forall>x \<in> {d_type i, d_major i, d_minor i, d_nlink i}. - 32768 \<le> x \<and> x < 32768)
     \<and> length (d_addrs i) = NDIRECT + 1 \<and> (\<forall>a \<in> set (d_addrs i). a < 2 ^ 32)"

lemma short_roundtrip: "- 32768 \<le> x \<Longrightarrow> x < 32768 \<Longrightarrow> short_of (of_short x mod 65536) = x"
proof -
  assume x: "- 32768 \<le> x" "x < 32768"
  have "of_short x < 65536" using unsigned_less [of "of_int x :: u16"] by (simp add: of_short_def)
  then show ?thesis using x by (simp add: short_of_def of_short_def signed_of_int signed_take_bit_int_eq_self)
qed

lemma put_addrs_prefix:
  assumes "off + 4 * n \<le> length d"
  shows "length (fold (\<lambda>i x. put_field 4 x (off + 4 * i) (as ! i)) [0..<n] d) = length d"
    and "i < n \<Longrightarrow> get_field 4 (fold (\<lambda>i x. put_field 4 x (off + 4 * i) (as ! i)) [0..<n] d) (off + 4 * i) = as ! i mod 2 ^ 32"
    and "o1 + k \<le> off \<or> off + 4 * n \<le> o1 \<Longrightarrow>
      get_field k (fold (\<lambda>i x. put_field 4 x (off + 4 * i) (as ! i)) [0..<n] d) o1 = get_field k d o1"
proof -
  let ?e = "\<lambda>n. fold (\<lambda>i x. put_field 4 x (off + 4 * i) (as ! i)) [0..<n] d"
  have step: "?e (Suc n) = put_field 4 (?e n) (off + 4 * n) (as ! n)" for n by simp
  have len: "off + 4 * n \<le> length d \<Longrightarrow> length (?e n) = length d" for n
    by (induction n) (simp_all add: step length_put_field)
  show "length (?e n) = length d" using len assms by blast
  show "i < n \<Longrightarrow> get_field 4 (?e n) (off + 4 * i) = as ! i mod 2 ^ 32" using assms
  proof (induction n)
    case (Suc n)
    then have l: "length (?e n) = length d" using len by auto
    show ?case
    proof (cases "i = n")
      case True
      then show ?thesis unfolding step using get_put_same [of "off + 4 * n" 4 "?e n" "as ! n"] l Suc.prems by simp
    next
      case False
      then show ?thesis unfolding step
        using get_put_before [of "off + 4 * i" 4 "off + 4 * n" "?e n" 4 "as ! n"] Suc l by simp
    qed
  qed simp
  show "o1 + k \<le> off \<or> off + 4 * n \<le> o1 \<Longrightarrow> get_field k (?e n) o1 = get_field k d o1" using assms
  proof (induction n)
    case (Suc n)
    then have l: "length (?e n) = length d" using len by auto
    have "get_field k (put_field 4 (?e n) (off + 4 * n) (as ! n)) o1 = get_field k (?e n) o1"
      using Suc.prems l get_put_before [of o1 k "off + 4 * n" "?e n"] get_put_after [of "off + 4 * n" 4 o1 "?e n"] by auto
    then show ?case unfolding step using Suc by auto
  qed simp
qed

lemma put_dinode_facts:
  assumes "off + 64 \<le> length d"
  shows "length (put_dinode d off i) = length d"
    and "o1 + k \<le> off \<or> off + 64 \<le> o1 \<Longrightarrow> get_field k (put_dinode d off i) o1 = get_field k d o1"
    and "dinode_ok i \<Longrightarrow> get_dinode (put_dinode d off i) off = i"
proof -
  define d5 where "d5 = put_field 4 (put_field 2 (put_field 2 (put_field 2 (put_field 2 d
     off (of_short (d_type i))) (off + 2) (of_short (d_major i))) (off + 4) (of_short (d_minor i)))
     (off + 6) (of_short (d_nlink i))) (off + 8) (unat (d_size i))"
  have p: "put_dinode d off i = fold (\<lambda>k x. put_field 4 x (off + 12 + 4 * k) (d_addrs i ! k)) [0..<13] d5"
    by (simp add: put_dinode_def put_addrs_def d5_def NDIRECT_def)
  have l: "length d5 = length d" using assms by (simp add: d5_def length_put_field)
  then have room: "off + 12 + 4 * 13 \<le> length d5" using assms by simp
  note a = put_addrs_prefix [OF room, where as = "d_addrs i", folded p]
  show "length (put_dinode d off i) = length d" using a(1) l by simp
  show "get_field k (put_dinode d off i) o1 = get_field k d o1" if o: "o1 + k \<le> off \<or> off + 64 \<le> o1"
  proof -
    have "get_field k (put_dinode d off i) o1 = get_field k d5 o1" using o by (intro a(3)) auto
    also have "\<dots> = get_field k d o1"
      using o assms by (auto simp: d5_def get_put_before get_put_after length_put_field)
    finally show ?thesis .
  qed
  show "get_dinode (put_dinode d off i) off = i" if ok: "dinode_ok i"
  proof -
    have f: "get_field k (put_dinode d off i) (off + j) = get_field k d5 (off + j)" if "j + k \<le> 12" for j k
      using that by (intro a(3)) auto
    have h: "get_field 2 d5 (off + 0) = of_short (d_type i) mod 65536" "get_field 2 d5 (off + 2) = of_short (d_major i) mod 65536"
      "get_field 2 d5 (off + 4) = of_short (d_minor i) mod 65536" "get_field 2 d5 (off + 6) = of_short (d_nlink i) mod 65536"
      "get_field 4 d5 (off + 8) = unat (d_size i) mod 2 ^ 32"
      using assms by (simp_all add: d5_def get_put_before get_put_same length_put_field)
    have n: "length (d_addrs i) = 13" "\<And>k. k < 13 \<Longrightarrow> d_addrs i ! k mod 2 ^ 32 = d_addrs i ! k"
      using ok by (auto simp: dinode_ok_def NDIRECT_def)
    have "map (\<lambda>k. get_field 4 (put_dinode d off i) (off + 12 + 4 * k)) [0..<13] = d_addrs i"
      using n a(2) by (intro nth_equalityI) auto
    then show ?thesis
      using ok f [of 0 2] f [of 2 2] f [of 4 2] f [of 6 2] f [of 8 4] h
      by (simp add: get_dinode_def NDIRECT_def short_roundtrip dinode_ok_def unat_u32_lt)
  qed
qed

lemma other_dinode:
  assumes "off + 64 \<le> length d" and "o1 + 64 \<le> off \<or> off + 64 \<le> o1"
  shows "get_dinode (put_dinode d off i) o1 = get_dinode d o1"
proof -
  have f: "get_field k (put_dinode d off i) (o1 + j) = get_field k d (o1 + j)" if "j + k \<le> 64" for j k
    using assms(2) that by (intro put_dinode_facts(2) [OF assms(1)]) auto
  have "map (\<lambda>k. get_field 4 (put_dinode d off i) (o1 + 12 + 4 * k)) [0..<13]
      = map (\<lambda>k. get_field 4 d (o1 + 12 + 4 * k)) [0..<13]"
    using f [of "12 + 4 * k" 4 for k] by (intro map_cong) (auto simp: add.assoc)
  then show ?thesis using f [of 0 2] f [of 2 2] f [of 4 2] f [of 6 2] f [of 8 4]
    by (simp add: get_dinode_def NDIRECT_def)
qed

section \<open>The inode table\<close>

definition holds_inode :: "inode \<Rightarrow> nat \<Rightarrow> nat \<Rightarrow> bool" where
  "holds_inode i dev inum \<longleftrightarrow> i_ref i > 0 \<and> i_dev i = dev \<and> i_inum i = inum"

definition itable_ok :: "kstate \<Rightarrow> bool" where
  "itable_ok s \<longleftrightarrow> (\<forall>ip < NINODE. i_ref (inodes s ip) \<ge> 0) \<and> (\<forall>ip < NINODE. \<forall>jp < NINODE. \<forall>dev inum.
     holds_inode (inodes s ip) dev inum \<and> holds_inode (inodes s jp) dev inum \<longrightarrow> ip = jp)"

lemma iget_scan_eq: "iget_scan ino dev inum ips emp =
    (case find (\<lambda>ip. holds_inode (ino ip) dev inum) ips of
       Some ip \<Rightarrow> (Some ip, snd (iget_scan ino dev inum ips emp))
     | None \<Rightarrow> (None, if emp = None then find (\<lambda>ip. i_ref (ino ip) = 0) ips else emp))"
  by (induction ips arbitrary: emp) (auto simp: holds_inode_def split: option.splits)

lemma wp_iget_hit:
  assumes "ItableLock \<notin> set (held s)" and "find (\<lambda>ip. holds_inode (inodes s ip) dev inum) [0..<NINODE] = Some ip"
  shows "iget dev inum s = Ret ip (s\<lparr>inodes := (inodes s)(ip := (inodes s ip)\<lparr>i_ref := i_ref (inodes s ip) + 1\<rparr>)\<rparr>)"
proof -
  obtain e where "iget_scan (inodes s) dev inum [0..<NINODE] None = (Some ip, e)"
    using assms(2) iget_scan_eq [of "inodes s" dev inum "[0..<NINODE]" None] by simp
  then have "wp (iget dev inum) (\<lambda>r t. r = ip \<and> t = s\<lparr>inodes := (inodes s)(ip := (inodes s ip)\<lparr>i_ref := i_ref (inodes s ip) + 1\<rparr>)\<rparr>) s"
    using assms(1) by (simp add: iget_def upd_inode_def)
  then show ?thesis by (auto elim: wpE)
qed

lemma wp_iget_miss:
  assumes "ItableLock \<notin> set (held s)" and "find (\<lambda>ip. holds_inode (inodes s ip) dev inum) [0..<NINODE] = None"
    and "find (\<lambda>ip. i_ref (inodes s ip) = 0) [0..<NINODE] = Some ip"
  shows "iget dev inum s = Ret ip (s\<lparr>inodes := (inodes s)(ip := (inodes s ip)\<lparr>i_dev := dev, i_inum := inum, i_ref := 1, i_valid := False\<rparr>)\<rparr>)"
proof -
  have "iget_scan (inodes s) dev inum [0..<NINODE] None = (None, Some ip)"
    using assms iget_scan_eq [of "inodes s" dev inum "[0..<NINODE]" None] by simp
  then have "wp (iget dev inum) (\<lambda>r t. r = ip \<and> t = s\<lparr>inodes := (inodes s)(ip :=
      (inodes s ip)\<lparr>i_dev := dev, i_inum := inum, i_ref := 1, i_valid := False\<rparr>)\<rparr>) s"
    using assms(1) by (simp add: iget_def upd_inode_def)
  then show ?thesis by (auto elim: wpE)
qed

lemma iget_full:
  assumes "ItableLock \<notin> set (held s)" and "find (\<lambda>ip. holds_inode (inodes s ip) dev inum) [0..<NINODE] = None"
    and "find (\<lambda>ip. i_ref (inodes s ip) = 0) [0..<NINODE] = None"
  shows "iget dev inum s = Panic ''iget: no inodes''"
proof -
  have "iget_scan (inodes s) dev inum [0..<NINODE] None = (None, None)"
    using assms iget_scan_eq [of "inodes s" dev inum "[0..<NINODE]" None] by simp
  then show ?thesis using assms(1) by (simp add: iget_def run_simps run_acquire)
qed

section \<open>Path names\<close>

text \<open>The names that the loop of \<open>namex\<close> looks up, in order.\<close>

function path_names :: "u8 list \<Rightarrow> u8 list list" where
  "path_names path = (case skipelem path of None \<Rightarrow> [] | Some (name, rest) \<Rightarrow> name # path_names rest)"
  by pat_completeness auto
termination by (relation "measure length") (auto simp: skipelem_shorter)

declare path_names.simps [simp del]

primrec split_at_slash :: "u8 list \<Rightarrow> u8 list \<Rightarrow> u8 list list" where
  "split_at_slash acc [] = [acc]"
| "split_at_slash acc (c # cs) = (if c = SLASH then acc # split_at_slash [] cs else split_at_slash (acc @ [c]) cs)"

definition elements :: "u8 list \<Rightarrow> u8 list list" where
  "elements path = filter (\<lambda>e. e \<noteq> []) (split_at_slash [] path)"

lemma elements_slashes: "elements (dropWhile (\<lambda>c. c = SLASH) path) = elements path"
  by (induction path) (auto simp: elements_def)

lemma split_no_slash: "SLASH \<notin> set e \<Longrightarrow> split_at_slash acc (e @ r) = split_at_slash (acc @ e) r"
  by (induction e arbitrary: acc) auto

lemma elements_elem:
  assumes "SLASH \<notin> set e" and "e \<noteq> []" and "r = [] \<or> hd r = SLASH"
  shows "elements (e @ r) = e # elements r"
  unfolding elements_def split_no_slash [OF assms(1)] using assms(2,3) by (cases r) auto

lemma path_names_eq: "path_names path = map (take DIRSIZ) (elements path)"
proof (induction path rule: path_names.induct)
  case (1 path)
  let ?p = "dropWhile (\<lambda>c. c = SLASH) path"
  show ?case
  proof (cases "?p = []")
    case True
    have "elements [] = elements path" using elements_slashes [of path] unfolding True .
    then have "elements path = []" by (simp add: elements_def)
    with True show ?thesis by (subst path_names.simps) (simp add: skipelem_def)
  next
    case False
    let ?e = "takeWhile (\<lambda>c. c \<noteq> SLASH) ?p" and ?r = "dropWhile (\<lambda>c. c \<noteq> SLASH) ?p"
    have "hd ?p \<noteq> SLASH" using hd_dropWhile [OF False] by simp
    then have ne: "?e \<noteq> []" using False by (cases ?p) auto
    have sl: "SLASH \<notin> set ?e" by (auto dest: set_takeWhileD)
    have r: "?r = [] \<or> hd ?r = SLASH" using hd_dropWhile [of "\<lambda>c. c \<noteq> SLASH" ?p] by auto
    have s: "skipelem path = Some (take DIRSIZ ?e, dropWhile (\<lambda>c. c = SLASH) ?r)"
      using False by (simp add: skipelem_def Let_def)
    have "elements path = elements (?e @ ?r)" using elements_slashes [of path] by (simp only: takeWhile_dropWhile_id)
    also have "\<dots> = ?e # elements (dropWhile (\<lambda>c. c = SLASH) ?r)" using elements_elem [OF sl ne r] elements_slashes by simp
    finally have el: "elements path = ?e # elements (dropWhile (\<lambda>c. c = SLASH) ?r)" .
    show ?thesis unfolding el using 1 [OF s refl] by (subst path_names.simps) (simp add: s)
  qed
qed

section \<open>Properties\<close>

text \<open>
  C28. Inodes survive their block: writing an inode into its slot of a block and reading it back
  gives the same inode, negative 16-bit fields included, the block keeps its length, and every
  other inode of the block reads as before.
\<close>

theorem dinode_roundtrip:
  assumes "length d = BSIZE" and "dinode_ok i" and "d' = put_dinode d (dip_off inum) i"
  shows "length d' = BSIZE \<and> get_dinode d' (dip_off inum) = i
    \<and> (\<forall>j. j mod IPB \<noteq> inum mod IPB \<longrightarrow> get_dinode d' (dip_off j) = get_dinode d (dip_off j))"
proof -
  have b: "dip_off inum + 64 \<le> length d" using assms(1) mod_less_divisor [of 16 inum] by (simp add: dip_off_def IPB_def BSIZE_def)
  have "dip_off j + 64 \<le> dip_off inum \<or> dip_off inum + 64 \<le> dip_off j" if "j mod IPB \<noteq> inum mod IPB" for j
    using that by (simp add: dip_off_def) linarith
  then show ?thesis using put_dinode_facts [OF b] other_dinode [OF b] assms by simp
qed

theorem dinode_roundtrip_witness:
  "get_dinode (put_dinode (replicate BSIZE 7) (dip_off 5)
     \<lparr>d_type = -3, d_major = 1, d_minor = 2, d_nlink = 1, d_size = 99, d_addrs = [46..<59]\<rparr>) (dip_off 5)
   = \<lparr>d_type = -3, d_major = 1, d_minor = 2, d_nlink = 1, d_size = 99, d_addrs = [46..<59]\<rparr>"
  using dinode_roundtrip [of "replicate BSIZE 7" "\<lparr>d_type = -3, d_major = 1, d_minor = 2, d_nlink = 1, d_size = 99,
    d_addrs = [46..<59]\<rparr>" _ 5] by (simp add: dinode_ok_def NDIRECT_def)

text \<open>
  C13. The inode table holds every inode at most once: \<open>iget\<close> returns the entry that holds the
  inode with one more reference, or takes the first free entry for it with one reference and
  marks its contents invalid; every other entry is unchanged and the table stays duplicate-free.
  It panics exactly when the inode is not in the table and no entry is free.
\<close>

theorem iget_unique:
  assumes "itable_ok s" and "held s = []"
    and "cached = find (\<lambda>ip. holds_inode (inodes s ip) dev inum) [0..<NINODE]"
    and "free = find (\<lambda>ip. i_ref (inodes s ip) = 0) [0..<NINODE]"
  shows "if cached = None \<and> free = None then iget dev inum s = Panic ''iget: no inodes''
    else \<exists>ip t. iget dev inum s = Ret ip t \<and> itable_ok t \<and> holds_inode (inodes t ip) dev inum \<and> ip < NINODE
      \<and> (\<forall>jp. jp \<noteq> ip \<longrightarrow> inodes t jp = inodes s jp)
      \<and> (case cached of
          Some k \<Rightarrow> ip = k \<and> i_ref (inodes t ip) = i_ref (inodes s ip) + 1 \<and> i_valid (inodes t ip) = i_valid (inodes s ip)
        | None \<Rightarrow> Some ip = free \<and> i_ref (inodes t ip) = 1 \<and> \<not> i_valid (inodes t ip))"
proof (cases cached)
  case (Some k)
  then have c: "find (\<lambda>ip. holds_inode (inodes s ip) dev inum) [0..<NINODE] = Some k" using assms(3) by simp
  then have k: "k < NINODE" "holds_inode (inodes s k) dev inum" by (auto simp: find_Some_iff)
  let ?t = "s\<lparr>inodes := (inodes s)(k := (inodes s k)\<lparr>i_ref := i_ref (inodes s k) + 1\<rparr>)\<rparr>"
  have h: "holds_inode (inodes ?t j) d n = holds_inode (inodes s j) d n" for j d n
    using k(2) by (auto simp: holds_inode_def)
  have "itable_ok ?t" using assms(1) unfolding itable_ok_def h by auto
  moreover have "iget dev inum s = Ret k ?t" using wp_iget_hit [OF _ c] assms(2) by simp
  ultimately show ?thesis using Some k h [of k] by auto
next
  case None
  then have c: "find (\<lambda>ip. holds_inode (inodes s ip) dev inum) [0..<NINODE] = None" using assms(3) by simp
  show ?thesis
  proof (cases free)
    case N: None
    then show ?thesis using iget_full [OF _ c] None assms(2,4) by simp
  next
    case F: (Some k)
    then have f: "find (\<lambda>ip. i_ref (inodes s ip) = 0) [0..<NINODE] = Some k" using assms(4) by simp
    then have k: "k < NINODE" by (auto simp: find_Some_iff)
    let ?t = "s\<lparr>inodes := (inodes s)(k := (inodes s k)\<lparr>i_dev := dev, i_inum := inum, i_ref := 1, i_valid := False\<rparr>)\<rparr>"
    have n: "\<not> holds_inode (inodes s j) dev inum" if "j < NINODE" for j using c that by (auto simp: find_None_iff)
    then have h: "holds_inode (inodes ?t j) d n' = (if j = k then d = dev \<and> n' = inum else holds_inode (inodes s j) d n')" for j d n'
      by (auto simp: holds_inode_def)
    have "itable_ok ?t" using assms(1) n unfolding itable_ok_def h by (auto split: if_splits; blast)
    moreover have "iget dev inum s = Ret k ?t" using wp_iget_miss [OF _ c f] assms(2) by simp
    ultimately show ?thesis using None F k h [of k] by auto
  qed
qed

theorem iget_unique_witness:
  "\<exists>ip t. iget 1 2 (zero_kstate\<lparr>inodes := (\<lambda>_. zero_inode)\<rparr>) = Ret ip t \<and> holds_inode (inodes t ip) 1 2 \<and> itable_ok t"
proof -
  let ?s = "zero_kstate\<lparr>inodes := (\<lambda>_. zero_inode)\<rparr>"
  have "itable_ok ?s" "held ?s = []" by (auto simp: itable_ok_def holds_inode_def zero_inode_def zero_kstate_def)
  from iget_unique [OF this refl refl, of 1 2] show ?thesis
    by (auto simp: zero_inode_def upt_rec NINODE_def split: if_splits)
qed


end
