(* ===== verification/Drawing.thy ===== *)
theory Drawing
  imports Anim Devfb
begin

text \<open>
  What the screen shows: circles, the moving rectangle of the animation, and rectangles written
  through the framebuffer device.
\<close>

section \<open>Circles\<close>

definition symmetric_about :: "int \<Rightarrow> int \<Rightarrow> (int \<times> int) set \<Rightarrow> bool" where
  "symmetric_about cx cy A \<longleftrightarrow> (\<forall>a b. (cx + a, cy + b) \<in> A \<longrightarrow>
     (cx - a, cy + b) \<in> A \<and> (cx + a, cy - b) \<in> A \<and> (cx + b, cy + a) \<in> A)"

definition square_about :: "int \<Rightarrow> int \<Rightarrow> int \<Rightarrow> (int \<times> int) set" where
  "square_about cx cy r = {(i, j). \<bar>i - cx\<bar> \<le> r \<and> \<bar>j - cy\<bar> \<le> r}"

definition eight :: "int \<Rightarrow> int \<Rightarrow> int \<Rightarrow> int \<Rightarrow> (int \<times> int) set" where
  "eight cx cy x y = {(cx + x, cy + y)} \<union> ({(cx + y, cy + x)} \<union> ({(cx - y, cy + x)} \<union> ({(cx - x, cy + y)} \<union>
     ({(cx - x, cy - y)} \<union> ({(cx - y, cy - x)} \<union> ({(cx + y, cy - x)} \<union> ({(cx + x, cy - y)} \<union> {})))))))"

lemma symmetric_Un: "symmetric_about cx cy A \<Longrightarrow> symmetric_about cx cy B \<Longrightarrow> symmetric_about cx cy (A \<union> B)"
  by (auto simp: symmetric_about_def)

lemma symmetric_eight: "symmetric_about cx cy (eight cx cy x y)"
  by (auto simp: symmetric_about_def eight_def)

lemma paints_circle:
  "0 \<le> y \<Longrightarrow> \<exists>A. paints (circle_loop cx cy x y err c) A c \<and> A \<subseteq> square_about cx cy x \<and> symmetric_about cx cy A
     \<and> (y \<le> x \<longrightarrow> eight cx cy x y \<subseteq> A)"
proof (induction cx cy x y err c rule: circle_loop.induct)
  case (1 cx cy x y err c)
  show ?case
  proof (cases "x < y")
    case True
    then have "circle_loop cx cy x y err c = returnK ()" by (subst circle_loop.simps) simp
    then show ?thesis using True paints_return by (intro exI [of _ "{}"]) (auto simp: symmetric_about_def)
  next
    case False
    define y' err1 x' err2 where d: "y' = y + 1" "err1 = (if err \<le> 0 then err + 2 * y' + 1 else err)"
      "x' = (if err1 > 0 then x - 1 else x)" "err2 = (if err1 > 0 then err1 - (2 * x' + 1) else err1)"
    obtain A where A: "paints (circle_loop cx cy x' y' err2 c) A c" "A \<subseteq> square_about cx cy x'" "symmetric_about cx cy A"
      using 1(1) [OF False d] 1(2) d(1) by auto
    have "circle_loop cx cy x y err c = thenK (blockK [
           fb_draw_pixel (cx + x) (cy + y) c, fb_draw_pixel (cx + y) (cy + x) c,
           fb_draw_pixel (cx - y) (cy + x) c, fb_draw_pixel (cx - x) (cy + y) c,
           fb_draw_pixel (cx - x) (cy - y) c, fb_draw_pixel (cx - y) (cy - x) c,
           fb_draw_pixel (cx + y) (cy - x) c, fb_draw_pixel (cx + x) (cy - y) c])
         (circle_loop cx cy x' y' err2 c)"
      using False d by (subst circle_loop.simps) (simp only: Let_def if_False)
    moreover have "paints (thenK (blockK [
           fb_draw_pixel (cx + x) (cy + y) c, fb_draw_pixel (cx + y) (cy + x) c,
           fb_draw_pixel (cx - y) (cy + x) c, fb_draw_pixel (cx - x) (cy + y) c,
           fb_draw_pixel (cx - x) (cy - y) c, fb_draw_pixel (cx - y) (cy - x) c,
           fb_draw_pixel (cx + y) (cy - x) c, fb_draw_pixel (cx + x) (cy - y) c])
         (circle_loop cx cy x' y' err2 c)) (eight cx cy x y \<union> A) c"
      unfolding eight_def by (intro paints_then paints_block_Cons paints_block_Nil paints_pixel A)
    moreover have "eight cx cy x y \<union> A \<subseteq> square_about cx cy x"
      using A(2) False 1(2) d(3) by (auto simp: eight_def square_about_def split: if_splits)
    ultimately show ?thesis using symmetric_Un [OF symmetric_eight A(3)] by (intro exI [of _ "eight cx cy x y \<union> A"]) simp
  qed
qed

section \<open>The animation\<close>

definition box :: "anim \<Rightarrow> (int \<times> int) set" where
  "box a = rect (a_x a) (a_y a) (a_w a) (a_h a)"

definition frame_inv :: "gfx \<Rightarrow> bool" where
  "frame_inv g \<longleftrightarrow> 0 \<le> a_x (anim g) \<and> a_x (anim g) + a_w (anim g) < fb_width \<and> 0 \<le> anim_tick_counter g
     \<and> (\<forall>i < 16384. coords i \<notin> box (anim g) \<longrightarrow> fb_mem g i = 0)"

definition shows_box :: "gfx \<Rightarrow> bool" where
  "shows_box g \<longleftrightarrow> (\<forall>i < 16384. fb_mem g i = (if coords i \<in> box (anim g) then 0xff2020 else 0))"

lemma wp_paint_rect: "wp (fb_draw_rect x y w h c) Q s = Q () (paint (rect x y w h) c s)"
  using paints_rect [of x y w h c] by (simp add: paints_def wp_Ret)

definition only_dbg :: "unit kern \<Rightarrow> bool" where
  "only_dbg m \<longleftrightarrow> (\<forall>s. \<exists>d. m s = Ret () (s\<lparr>dbg := d\<rparr>))"

lemma only_dbg_upd: "only_dbg (upd_dbg f)"
  by (auto simp: only_dbg_def upd_dbg_def run_simps)

lemma only_dbg_forK: "(\<And>x. only_dbg (f x)) \<Longrightarrow> only_dbg (forK xs f)"
proof (induction xs)
  case Nil
  show ?case unfolding only_dbg_def by (intro allI, rule_tac x = "dbg s" in exI) (simp add: run_simps)
next
  case (Cons x xs)
  then have x: "only_dbg (f x)" and xs: "only_dbg (forK xs f)" by auto
  show ?case unfolding only_dbg_def
  proof
    fix s
    obtain d where d: "f x s = Ret () (s\<lparr>dbg := d\<rparr>)" using x by (auto simp: only_dbg_def)
    moreover obtain e where "forK xs f (s\<lparr>dbg := d\<rparr>) = Ret () (s\<lparr>dbg := d, dbg := e\<rparr>)" using xs unfolding only_dbg_def by blast
    ultimately show "\<exists>d. forK (x # xs) f s = Ret () (s\<lparr>dbg := d\<rparr>)" by (auto simp: bindK_def)
  qed
qed

lemma only_dbg_wp: "only_dbg m \<Longrightarrow> (\<And>d. Q () (s\<lparr>dbg := d\<rparr>)) \<Longrightarrow> wp m Q s"
  unfolding only_dbg_def by (metis wp_Ret)

lemma wp_dbg_reset: "(\<And>d. Q () (s\<lparr>dbg := d\<rparr>)) \<Longrightarrow> wp dbg_reset Q s"
proof -
  assume Q: "\<And>d. Q () (s\<lparr>dbg := d\<rparr>)"
  have "wp (forK [0..<DBG_SAMPLES] (\<lambda>i. upd_dbg (\<lambda>d. d\<lparr>dbg_samples := (dbg_samples d)[i := \<lparr>ds_when = 0, ds_value = 0\<rparr>]\<rparr>))) Q
      (s\<lparr>dbg := d\<rparr>)" for d
    by (rule only_dbg_wp [OF only_dbg_forK [OF only_dbg_upd]]) (use Q in simp)
  then show ?thesis by (simp add: dbg_reset_def upd_dbg_def [of "dbg_head_update _"] upd_dbg_def [of "dbg_count_update _"])
qed

lemma wp_dbg_record: "DbgLock \<notin> set (held s) \<Longrightarrow> (\<And>d. Q () (s\<lparr>dbg := d\<rparr>)) \<Longrightarrow> wp (dbg_record v) Q s"
proof -
  assume l: "DbgLock \<notin> set (held s)" and Q: "\<And>d. Q () (s\<lparr>dbg := d\<rparr>)"
  have rest: "wp (blockK [acquire DbgLock, bindK (getsK ticks) (\<lambda>t. upd_dbg (dbg_push v (ucast t))), release DbgLock]) Q (s\<lparr>dbg := d\<rparr>)" for d
    using l Q by (simp add: upd_dbg_def)
  show ?thesis
  proof (cases "dbg_inited (dbg s)")
    case True
    then show ?thesis using rest [of "dbg s"] by (simp add: dbg_record_def)
  next
    case False
    then show ?thesis using l unfolding dbg_record_def dbg_init_def
      by simp (rule wp_dbg_reset, simp add: upd_dbg_def Q)
  qed
qed

lemma erase_and_draw:
  assumes "\<forall>i < 16384. coords i \<notin> A \<longrightarrow> m i = 0"
  shows "\<forall>i < 16384. paint_mem B c (paint_mem A 0 m) i = (if coords i \<in> B then c else 0)"
  using assms by (auto simp: paint_mem_def)

lemma anim_after_pace: "(g :: gfx)\<lparr>anim_ticks_per_frame := n, anim := a\<rparr> = g\<lparr>anim := a, anim_ticks_per_frame := n\<rparr>"
  by simp

lemma wp_anim_tick:
  assumes "frame_inv (gfx s)" and "animation_enabled (gfx s)" and "DbgLock \<notin> set (held s)"
    and Q: "\<And>g d. frame_inv g \<Longrightarrow> animation_enabled g \<Longrightarrow> (anim_ticks_per_frame (gfx s) \<le> 1 \<Longrightarrow> anim_ticks_per_frame g \<le> 1 \<and> shows_box g)
      \<Longrightarrow> Q () (s\<lparr>gfx := g, dbg := d\<rparr>)"
  shows "wp anim_tick Q s"
proof (cases "anim_tick_counter (gfx s) + 1 < anim_ticks_per_frame (gfx s)")
  case True
  let ?g = "(gfx s)\<lparr>anim_tick_counter := anim_tick_counter (gfx s) + 1\<rparr>"
  have "Q () (s\<lparr>gfx := ?g, dbg := dbg s\<rparr>)" using assms(1,2) True by (intro Q) (auto simp: frame_inv_def)
  with True assms(2) show ?thesis by (simp add: anim_tick_def upd_gfx_def)
next
  case False
  let ?a = "anim (gfx s)"
  define bounce where "bounce \<longleftrightarrow> a_x ?a + a_dx ?a < 0 \<or> a_x ?a + a_dx ?a + a_w ?a \<ge> fb_width"
  define b where "b = ?a\<lparr>a_frame_no := a_frame_no ?a + 1, a_prev_x := a_x ?a, a_prev_y := a_y ?a, a_x := a_x ?a + a_dx ?a\<rparr>"
  define a where "a = (if bounce then b\<lparr>a_dx := - a_dx ?a, a_x := a_x ?a\<rparr> else b)"
  define g0 where "g0 = (gfx s)\<lparr>anim_tick_counter := 0, anim := a\<rparr>"
  define g where "g = (if anim_ticks_per_frame (gfx s) \<le> 0 then g0\<lparr>anim_ticks_per_frame := 1\<rparr> else g0)
    \<lparr>fb_mem := paint_mem (box a) 0xff2020 (paint_mem (box ?a) 0 (fb_mem (gfx s)))\<rparr>"
  note defs = g_def g0_def a_def b_def bounce_def
  have m: "\<forall>i < 16384. fb_mem g i = (if coords i \<in> box a then 0xff2020 else 0)"
    using erase_and_draw [of "box ?a" "fb_mem (gfx s)"] assms(1) by (simp add: g_def frame_inv_def)
  have ag: "anim g = a" by (simp add: g_def g0_def)
  have "frame_inv g" using assms(1) m unfolding frame_inv_def ag by (auto simp: defs)
  moreover have "shows_box g" using m by (simp add: shows_box_def ag)
  ultimately have "Q () (s\<lparr>gfx := g, dbg := d\<rparr>)" for d using assms(2) by (intro Q) (auto simp: g_def g0_def)
  then have "wp (dbg_record v) Q (s\<lparr>gfx := g\<rparr>)" for v using assms(3) by (intro wp_dbg_record) auto
  then show ?thesis using False assms(2) unfolding defs
    by (cases "anim_ticks_per_frame (gfx s) \<le> 0"; cases "a_x ?a + a_dx ?a < 0"; cases "a_x ?a + a_dx ?a + a_w ?a \<ge> fb_width")
      (simp_all add: anim_tick_def upd_gfx_def animation_update_def upd_anim_def draw_next_frame_def erase_previous_def
        wp_paint_rect fb_print_ascii_if_needed_def paint_def box_def anim_after_pace)
qed

section \<open>Pixels written through the device\<close>

definition pixel_at :: "u8 list \<Rightarrow> nat \<Rightarrow> u32" where
  "pixel_at px i = of_nat (le_nat (take 4 (drop (4 * i) px)))"

lemma word_of_bytes: "of_nat (le_nat (map (word_byte w) [0..<4])) = (w :: u32)"
proof -
  have u: "unat (word_byte w j) = unat w div 2 ^ (8 * j) mod 256" for j
    using unat_u32_lt [of w]
    by (simp add: word_byte_def unsigned_ucast_eq unsigned_take_bit_eq unsigned_drop_bit_eq take_bit_eq_mod
        drop_bit_eq_div [where 'a = nat])
  have "word_byte w j = of_nat (unat (word_byte w j))" for j by simp
  then have b: "word_byte w j = of_nat (unat w div 2 ^ (8 * j) mod 256)" for j unfolding u .
  have four: "[0..<4] = [0, 1, 2, 3 :: nat]" by (simp add: upt_rec)
  have "le_bytes (Suc (Suc (Suc (Suc 0)))) n = map (\<lambda>j. of_nat (n div 2 ^ (8 * j) mod 256)) [0, 1, 2, 3]" for n
    by (simp add: div_mult2_eq [symmetric])
  then have "le_bytes 4 n = map (\<lambda>j. of_nat (n div 2 ^ (8 * j) mod 256)) [0, 1, 2, 3]" for n
    by (simp only: numeral_eq_Suc pred_numeral_simps BitM.simps Num.numeral_One One_nat_def)
  then have "map (word_byte w) [0..<4] = le_bytes 4 (unat w)" unfolding four by (simp only: list.map b)
  then show ?thesis using unat_u32_lt [of w] by (simp add: le_nat_le_bytes)
qed

lemma put_row:
  assumes "length bs = 4 * w"
  shows "fb_put_bytes m (4 * p) bs k = (if p \<le> k \<and> k < p + w then pixel_at bs (k - p) else m k)"
proof (cases "p \<le> k \<and> k < p + w")
  case True
  have "map (\<lambda>j. if 4 * p \<le> 4 * k + j \<and> 4 * k + j < 4 * p + length bs then bs ! (4 * k + j - 4 * p) else word_byte (m k) j) [0..<4]
      = take 4 (drop (4 * (k - p)) bs)"
    using True assms by (intro nth_equalityI) (auto simp: algebra_simps diff_mult_distrib2)
  then show ?thesis using True by (simp add: fb_put_bytes_def pixel_at_def)
next
  case False
  have e: "map (\<lambda>j. if 4 * p \<le> 4 * k + j \<and> 4 * k + j < 4 * p + length bs then bs ! (4 * k + j - 4 * p) else word_byte (m k) j) [0..<4]
      = map (word_byte (m k)) [0..<4]"
    using False assms by (intro map_cong) auto
  show ?thesis unfolding fb_put_bytes_def e word_of_bytes using False by auto
qed

definition rect_pixel :: "u8 list \<Rightarrow> nat \<Rightarrow> nat \<Rightarrow> nat \<Rightarrow> nat \<Rightarrow> u32" where
  "rect_pixel px x y w i = pixel_at px ((i div 128 - y) * w + (i mod 128 - x))"

definition with_rect :: "u8 list \<Rightarrow> nat \<Rightarrow> nat \<Rightarrow> nat \<Rightarrow> nat \<Rightarrow> (nat \<Rightarrow> u32) \<Rightarrow> nat \<Rightarrow> u32" where
  "with_rect px x y w n m = (\<lambda>i. if y \<le> i div 128 \<and> i div 128 < y + n \<and> x \<le> i mod 128 \<and> i mod 128 < x + w
     then rect_pixel px x y w i else m i)"

lemma with_rect_0: "with_rect px x y w 0 m = m"
  by (auto simp: with_rect_def fun_eq_iff)

lemma row_position:
  assumes "r < 128" and "x + w \<le> 128"
  shows "a * 128 + x \<le> q * 128 + r \<and> q * 128 + r < a * 128 + x + w \<longleftrightarrow> q = a \<and> x \<le> r \<and> r < x + (w :: nat)"
  using assms by (cases q a rule: linorder_cases) auto

lemma with_rect_Suc:
  assumes "x + w \<le> 128" and "length px = 4 * (w * h)" and "n < h"
  shows "fb_put_bytes (with_rect px x y w n m) (4 * ((y + n) * 128 + x)) (take (4 * w) (drop (4 * (n * w)) px))
    = with_rect px x y w (Suc n) m"
proof
  fix i
  let ?bs = "take (4 * w) (drop (4 * (n * w)) px)" and ?p = "(y + n) * 128 + x"
  have "Suc n * w \<le> h * w" using assms(3) by (intro mult_right_mono) auto
  then have le: "n * w + w \<le> w * h" by (simp add: mult.commute add.commute)
  then have len: "length ?bs = 4 * w" using assms(2) by simp
  have row: "?p \<le> i \<and> i < ?p + w \<longleftrightarrow> i div 128 = y + n \<and> x \<le> i mod 128 \<and> i mod 128 < x + w"
    using row_position [of "i mod 128" x w "y + n" "i div 128"] assms(1) by simp
  have "pixel_at ?bs k = pixel_at px (n * w + k)" if "k < w" for k
    using that by (simp add: pixel_at_def drop_take min_def algebra_simps)
  then have "pixel_at ?bs (i - ?p) = rect_pixel px x y w i" if "?p \<le> i \<and> i < ?p + w"
  proof -
    have "i = (y + n) * 128 + i mod 128" using that row div_mult_mod_eq [of i 128] by metis
    then have "i - ?p = i mod 128 - x" by linarith
    moreover have "i div 128 - y = n" "i - ?p < w" using that row by auto
    ultimately show ?thesis using \<open>\<And>k. k < w \<Longrightarrow> pixel_at ?bs k = pixel_at px (n * w + k)\<close> by (simp add: rect_pixel_def)
  qed
  then show "fb_put_bytes (with_rect px x y w n m) (4 * ?p) ?bs i = with_rect px x y w (Suc n) m i"
    unfolding put_row [OF len] row by (auto simp: with_rect_def less_Suc_eq)
qed

lemma wp_rows:
  assumes "x + w \<le> 128" and "y + h \<le> 128" and "length hdr = 16" and "length px = 4 * (w * h)" and "0 < w"
  shows "n + k = h \<Longrightarrow> fb_mem (gfx s) = with_rect px x y w n m \<Longrightarrow>
    Q True (s\<lparr>gfx := (gfx s)\<lparr>fb_mem := with_rect px x y w h m\<rparr>\<rparr>) \<Longrightarrow>
    wp (fb_rows (KBuf (hdr @ px)) (int x) (int y) (int w) [n..<h]) Q s"
proof (induction k arbitrary: n s)
  case 0
  then have "s\<lparr>gfx := (gfx s)\<lparr>fb_mem := with_rect px x y w h m\<rparr>\<rparr> = s" by simp
  with 0 show ?case by simp
next
  case (Suc k)
  let ?bs = "take (4 * w) (drop (4 * (n * w)) px)" and ?p = "(y + n) * 128 + x"
  have "n < h" using Suc.prems(1) by simp
  have "Suc n * w \<le> h * w" using \<open>n < h\<close> by (intro mult_right_mono) auto
  then have le: "n * w + w \<le> w * h" by (simp add: mult.commute add.commute)
  then have len: "length ?bs = 4 * w" using assms(4) by simp
  have "?p + w \<le> 16384" using assms(1,2) \<open>n < h\<close> by simp
  moreover have "4 * ((int y + int n) * FB_WIDTH + int x) = int (4 * ?p)" by (simp add: FB_WIDTH_def)
  moreover have "either_copyin (KBuf (hdr @ px)) (16 + n * w * 4) (w * 4) = returnK (0, ?bs)"
    using assms(3,4) le by (simp add: either_copyin_def mult.commute)
  moreover have "wp (fb_rows (KBuf (hdr @ px)) (int x) (int y) (int w) [Suc n..<h]) Q
      (s\<lparr>gfx := (gfx s)\<lparr>fb_mem := with_rect px x y w (Suc n) m\<rparr>\<rparr>)"
    by (rule Suc.IH) (use Suc.prems in simp_all)
  moreover have "fb_put_bytes (fb_mem (gfx s)) (4 * ?p) ?bs = with_rect px x y w (Suc n) m"
    using with_rect_Suc [OF assms(1,4) \<open>n < h\<close>] Suc.prems(2) by simp
  moreover have "nat (512 * int y + 512 * int n + 4 * int x) = 512 * y + 512 * n + 4 * x" by linarith
  ultimately show ?case using len assms(5) unfolding upt_conv_Cons [OF \<open>n < h\<close>]
    by (auto simp: fb_write_bytes_def fb_size_bytes_def FB_WIDTH_def FB_HEIGHT_def)
qed

definition rect_header :: "u8 list \<Rightarrow> int \<Rightarrow> int \<Rightarrow> int \<Rightarrow> int \<Rightarrow> bool" where
  "rect_header hdr x y w h \<longleftrightarrow> length hdr = 16 \<and> hdr_int hdr 0 = x \<and> hdr_int hdr 1 = y \<and> hdr_int hdr 2 = w \<and> hdr_int hdr 3 = h"

lemma add32_eq: "add32 a b = signed_take_bit 31 (a + b)"
  by (simp add: add32_def signed_of_int del: of_int_add)

lemma add32_small: "0 \<le> a \<Longrightarrow> 0 \<le> b \<Longrightarrow> a + b < 2 ^ 31 \<Longrightarrow> add32 a b = a + b"
  by (simp add: add32_eq signed_take_bit_int_eq_self)

lemma add32_wrap:
  assumes "a < 2 ^ 31" and "b < 2 ^ 31" and "2 ^ 31 \<le> a + b"
  shows "add32 a b < 0"
proof -
  have "(a + b) div 2 ^ 31 = 1" using assms by (intro int_div_pos_eq [of _ _ _ "a + b - 2 ^ 31"]) auto
  then show ?thesis by (simp add: add32_eq signed_take_bit_negative_iff bit_iff_odd)
qed

lemma hdr_int_bound: "hdr_int hdr k < 2 ^ 31"
  using sint_lt [of "of_nat (get_field 4 hdr (4 * k)) :: u32"] by (simp add: hdr_int_def)

text \<open>The run of the rectangle path up to its copy loop.\<close>

lemma rect_start:
  assumes "rect_header hdr x y w h" and "0 < w" and "0 < h" and "int (length px) = 4 * w * h" and "n = 16 + 4 * w * h"
    and "n < 2 ^ 31" and "n \<noteq> fb_size_bytes" and "FbLock \<notin> set (held s)"
  shows "fbdev_write (KBuf (hdr @ px)) n s =
    (if x < 0 \<or> y < 0 \<or> add32 x w > FB_WIDTH \<or> add32 y h > FB_HEIGHT then Ret (- 1) s
     else bindK (fb_rows (KBuf (hdr @ px)) x y w [0..<nat h]) (\<lambda>ok.
       if \<not> ok then thenK (release FbLock) (returnK (-1))
       else thenK (blockK [fb_print_ascii_if_needed, release FbLock]) (returnK n)) (s\<lparr>held := FbLock # held s\<rparr>))"
proof -
  have "0 < w * h" using assms(2,3) by simp
  moreover have n4: "n = 16 + 4 * (w * h)" using assms(5) by (simp add: mult.assoc)
  ultimately have n: "16 \<le> n" "\<not> n \<le> 0" by linarith+
  have e: "16 + word_of_int w * word_of_int h * 4 = (word_of_int n :: u64)" unfolding n4 by simp
  have "uint (word_of_int n :: u64) = n" using n(2) assms(6) by (simp add: unsigned_of_int take_bit_int_eq_self)
  then have "ucast (word_of_int n :: u64) = (word_of_int n :: u32)" by (metis of_int_uint)
  then have u: "sint (ucast (word_of_int n :: u64) :: u32) = n"
    using n(2) assms(6) by (simp add: signed_of_int signed_take_bit_int_eq_self)
  have c: "either_copyin (KBuf (hdr @ px)) 0 16 = returnK (0, hdr)"
    using assms(1) by (simp add: either_copyin_def rect_header_def)
  show ?thesis
    using assms(1-3,7,8) n unfolding fbdev_write_def c
    by (simp add: rect_header_def run_simps run_acquire run_release Let_def e) (intro impI, subst u, rule refl)
qed

lemma first_row_overruns:
  assumes "0 \<le> x" and "0 \<le> y" and "0 < w" and "0 < h" and "int (length px) = 4 * w * h" and "length hdr = 16"
    and "4 * w * h < 2147483648" and "2147483648 \<le> x + w \<or> 2147483648 \<le> y + h"
  shows "fb_rows (KBuf (hdr @ px)) x y w [0..<nat h] s = Undef ''framebuffer overrun''"
proof -
  have "w * 1 \<le> w * h" "1 * h \<le> w * h" using assms(3,4) by (intro mult_left_mono mult_right_mono; simp)+
  moreover have "4 * w * h = 4 * (w * h)" by simp
  ultimately have b: "w \<le> w * h" "h \<le> w * h" "w * h < 536870912" using assms(7) by linarith+
  have "nat w * 4 \<le> length px" using b(1) assms(3,5) by linarith
  then have c: "either_copyin (KBuf (hdr @ px)) 16 (nat w * 4) = returnK (0, take (nat w * 4) px)"
    and ne: "length (take (nat w * 4) px) = nat w * 4" using assms(6) by (simp_all add: either_copyin_def)
  have "fb_size_bytes < 4 * (y * FB_WIDTH + x) + int (nat w * 4)"
  proof -
    have "w < 536870912" "h < 536870912" using b by linarith+
    then have "65536 < 4 * (y * 128 + x) + 4 * w" using assms(1-4,8) by auto
    then show ?thesis using assms(3) by (simp add: fb_size_bytes_def FB_WIDTH_def FB_HEIGHT_def)
  qed
  moreover have "take (nat w * 4) px \<noteq> []" using ne assms(3) by auto
  moreover have "[0..<nat h] = 0 # [1..<nat h]" using assms(4) by (simp add: upt_conv_Cons)
  ultimately show ?thesis using c ne by (simp add: run_simps fb_write_bytes_def)
qed

lemma rows_inside:
  assumes "0 \<le> x" and "0 \<le> y" and "0 < w" and "0 < h" and "int (length px) = 4 * w * h" and "length hdr = 16"
    and "x + w \<le> FB_WIDTH" and "y + h \<le> FB_HEIGHT"
  shows "fb_rows (KBuf (hdr @ px)) x y w [0..<nat h] s =
    Ret True (s\<lparr>gfx := (gfx s)\<lparr>fb_mem := with_rect px (nat x) (nat y) (nat w) (nat h) (fb_mem (gfx s))\<rparr>\<rparr>)"
proof -
  obtain X Y W H where i: "x = int X" "y = int Y" "w = int W" "h = int H"
    using assms(1-4) by (metis nonneg_int_cases less_imp_le)
  have d: "X + W \<le> 128" "Y + H \<le> 128" "0 < W" using assms(3,7,8) i by (simp_all add: FB_WIDTH_def FB_HEIGHT_def)
  have l: "length px = 4 * (W * H)" using assms(5) unfolding i by (metis int_ops(7) mult.assoc of_nat_eq_iff of_nat_numeral)
  have "wp (fb_rows (KBuf (hdr @ px)) (int X) (int Y) (int W) [0..<H])
      (\<lambda>ok u. ok \<and> u = s\<lparr>gfx := (gfx s)\<lparr>fb_mem := with_rect px X Y W H (fb_mem (gfx s))\<rparr>\<rparr>) s"
    by (rule wp_rows [OF d(1,2) assms(6) l d(3), where k = H and m = "fb_mem (gfx s)"]) (simp_all add: with_rect_0)
  then show ?thesis unfolding i by (auto elim: wpE)
qed

section \<open>Properties\<close>






end
