(* ===== verification/Grep.thy ===== *)
theory Grep
  imports Pipe
begin

text \<open>
  The user program \<open>grep\<close>: its pattern matcher and its loop over the input. Patterns and lines
  are lists of bytes without the terminating NUL. The matcher is compared with the language of
  the pattern; the loop is compared with filtering the lines of the whole input, however the
  reads cut the input into pieces.

  \<open>read\<close> is a parameter \<open>rd\<close> of the loop. The locale \<open>input_stream\<close> is what the loop relies on:
  a read returns the next bytes of the stream, at most as many as asked for, and none only at
  the end. A pipe whose writer is gone is such a stream.
\<close>

section \<open>Definitions\<close>

function matchhere :: "u8 list \<Rightarrow> u8 list \<Rightarrow> bool"
  and matchstar :: "u8 \<Rightarrow> u8 list \<Rightarrow> u8 list \<Rightarrow> bool" where
  "matchhere re text = (case re of
      [] \<Rightarrow> True
    | c # r \<Rightarrow>
        if r \<noteq> [] \<and> hd r = of_char CHR ''*'' then matchstar c (tl r) text
        else if c = of_char CHR ''$'' \<and> r = [] then text = []
        else if text \<noteq> [] \<and> (c = of_char CHR ''.'' \<or> c = hd text) then matchhere r (tl text)
        else False)"
| "matchstar c re text = (
     if matchhere re text then True
     else if text \<noteq> [] \<and> (hd text = c \<or> c = of_char CHR ''.'') then matchstar c re (tl text)
     else False)"
  by pat_completeness auto
termination
  by (relation "inv_image (less_than <*lex*> less_than <*lex*> less_than)
      (\<lambda>x. case x of Inl (re, text) \<Rightarrow> (length re, length text, 0 :: nat)
                   | Inr (c, re, text) \<Rightarrow> (length re, length text, 1))")
    auto

declare matchhere.simps [simp del] matchstar.simps [simp del]

text \<open>The loop of \<open>match\<close> tries every suffix of the text, the empty one included.\<close>

primrec match_anywhere :: "u8 list \<Rightarrow> u8 list \<Rightarrow> bool" where
  "match_anywhere re [] = matchhere re []"
| "match_anywhere re (t # text) = (matchhere re (t # text) \<or> match_anywhere re text)"

definition match :: "u8 list \<Rightarrow> u8 list \<Rightarrow> bool" where
  "match re text = (if re \<noteq> [] \<and> hd re = of_char CHR ''^'' then matchhere (tl re) text
     else match_anywhere re text)"

text \<open>
  \<open>strchr(p, c)\<close> on the bytes from \<open>p\<close> on, which a NUL follows: the bytes before the first \<open>c\<close> and the
  bytes after it, if \<open>c\<close> occurs before a NUL.
\<close>

fun strchr :: "u8 list \<Rightarrow> u8 \<Rightarrow> (u8 list \<times> u8 list) option" where
  "strchr [] c = None"
| "strchr (b # bs) c = (if b = 0 then None else if b = c then Some ([], bs)
     else map_option (\<lambda>(pre, post). (b # pre, post)) (strchr bs c))"

lemma strchr_Some: "strchr bs c = Some (pre, post) \<Longrightarrow> bs = pre @ c # post"
  by (induction bs arbitrary: pre) (auto split: if_splits)

text \<open>The inner loop: the output it writes and the bytes that are left in the buffer.\<close>

function grep_lines :: "u8 list \<Rightarrow> u8 list \<Rightarrow> u8 list \<times> u8 list" where
  "grep_lines pattern p = (case strchr p 10 of
      None \<Rightarrow> ([], p)
    | Some (line, p') \<Rightarrow> let (out, rest) = grep_lines pattern p' in
        (if match pattern line then line @ [10] @ out else out, rest))"
  by pat_completeness auto
termination
  by (relation "measure (\<lambda>(_, p). length p)") (auto dest: strchr_Some)

declare grep_lines.simps [simp del]

definition GREP_BUF :: nat where "GREP_BUF = 1024"

primrec grep :: "('f \<Rightarrow> nat \<Rightarrow> u8 list \<times> 'f) \<Rightarrow> nat \<Rightarrow> u8 list \<Rightarrow> 'f \<Rightarrow> u8 list \<Rightarrow> u8 list option" where
  "grep rd 0 pattern fd buf = None"
| "grep rd (Suc k) pattern fd buf =
     (let (bs, fd') = rd fd (GREP_BUF - length buf - 1) in
      if bs = [] then Some []
      else let (out, rest) = grep_lines pattern (buf @ bs) in
        map_option (\<lambda>out'. out @ out') (grep rd k pattern fd' rest))"

section \<open>The language of a pattern\<close>

datatype item = Lit u8 | AnyByte

fun item_ok :: "item \<Rightarrow> u8 \<Rightarrow> bool" where
  "item_ok (Lit c) b \<longleftrightarrow> b = c"
| "item_ok AnyByte b \<longleftrightarrow> True"

definition item_of :: "u8 \<Rightarrow> item" where
  "item_of c = (if c = of_char CHR ''.'' then AnyByte else Lit c)"

text \<open>The items of a pattern, each with whether it may be repeated, and whether the pattern is
  anchored at the end.\<close>

fun pattern_of :: "u8 list \<Rightarrow> (item \<times> bool) list \<times> bool" where
  "pattern_of [] = ([], False)"
| "pattern_of [c] = (if c = of_char CHR ''$'' then ([], True) else ([(item_of c, False)], False))"
| "pattern_of (c # d # r) =
     (if d = of_char CHR ''*'' then let (ps, a) = pattern_of r in ((item_of c, True) # ps, a)
      else let (ps, a) = pattern_of (d # r) in ((item_of c, False) # ps, a))"

primrec lang :: "(item \<times> bool) list \<Rightarrow> u8 list set" where
  "lang [] = {[]}"
| "lang (p # ps) = {u @ v | u v. (\<forall>b \<in> set u. item_ok (fst p) b) \<and> (snd p \<or> length u = 1) \<and> v \<in> lang ps}"

definition prefix_in :: "(item \<times> bool) list \<times> bool \<Rightarrow> u8 list \<Rightarrow> bool" where
  "prefix_in pa text \<longleftrightarrow> (\<exists>w rest. text = w @ rest \<and> w \<in> lang (fst pa) \<and> (snd pa \<longrightarrow> rest = []))"

lemma prefix_in_Nil: "prefix_in ([], a) text \<longleftrightarrow> (a \<longrightarrow> text = [])"
  by (simp add: prefix_in_def)

lemma prefix_in_Cons: "prefix_in ((i, star) # ps, a) t \<longleftrightarrow>
    (\<exists>u v. t = u @ v \<and> (\<forall>b \<in> set u. item_ok i b) \<and> (star \<or> length u = 1) \<and> prefix_in (ps, a) v)"
  (is "?L \<longleftrightarrow> ?R")
proof
  assume ?L
  then obtain u v rest where "t = (u @ v) @ rest" "\<forall>b \<in> set u. item_ok i b" "star \<or> length u = 1" "v \<in> lang ps"
    "a \<longrightarrow> rest = []" unfolding prefix_in_def fst_conv snd_conv lang.simps mem_Collect_eq by blast
  then show ?R by (intro exI [of _ u] exI [of _ "v @ rest"]) (auto simp: prefix_in_def)
next
  assume ?R
  then obtain u v rest where "t = u @ v @ rest" "\<forall>b \<in> set u. item_ok i b" "star \<or> length u = 1" "v \<in> lang ps"
    "a \<longrightarrow> rest = []" unfolding prefix_in_def fst_conv snd_conv by blast
  then show ?L unfolding prefix_in_def fst_conv snd_conv lang.simps
    by (intro exI [of _ "u @ v"] exI [of _ rest]) auto
qed

lemma prefix_in_one: "prefix_in ((i, False) # ps, a) t \<longleftrightarrow> t \<noteq> [] \<and> item_ok i (hd t) \<and> prefix_in (ps, a) (tl t)"
proof (cases t)
  case (Cons b t')
  have "prefix_in ((i, False) # ps, a) t \<longleftrightarrow> (\<exists>u v. b # t' = u @ v \<and> (\<forall>x \<in> set u. item_ok i x) \<and> length u = 1
      \<and> prefix_in (ps, a) v)" by (simp add: prefix_in_Cons Cons)
  also have "\<dots> \<longleftrightarrow> item_ok i b \<and> prefix_in (ps, a) t'"
  proof
    assume "item_ok i b \<and> prefix_in (ps, a) t'"
    then show "\<exists>u v. b # t' = u @ v \<and> (\<forall>x \<in> set u. item_ok i x) \<and> length u = 1 \<and> prefix_in (ps, a) v"
      by (intro exI [of _ "[b]"] exI [of _ t']) simp
  qed (auto simp: length_Suc_conv)
  finally show ?thesis using Cons by simp
qed (simp add: prefix_in_Cons)

lemma prefix_in_star: "prefix_in ((i, True) # ps, a) t \<longleftrightarrow>
    prefix_in (ps, a) t \<or> (t \<noteq> [] \<and> item_ok i (hd t) \<and> prefix_in ((i, True) # ps, a) (tl t))"
proof
  assume "prefix_in ((i, True) # ps, a) t"
  then obtain u v where u: "t = u @ v" "\<forall>x \<in> set u. item_ok i x" "prefix_in (ps, a) v" by (auto simp: prefix_in_Cons)
  then show "prefix_in (ps, a) t \<or> (t \<noteq> [] \<and> item_ok i (hd t) \<and> prefix_in ((i, True) # ps, a) (tl t))"
    by (cases u) (auto simp: prefix_in_Cons)
next
  assume "prefix_in (ps, a) t \<or> (t \<noteq> [] \<and> item_ok i (hd t) \<and> prefix_in ((i, True) # ps, a) (tl t))"
  then show "prefix_in ((i, True) # ps, a) t"
  proof
    assume "prefix_in (ps, a) t"
    then show ?thesis unfolding prefix_in_Cons by (intro exI [of _ "[]"] exI [of _ t]) simp
  next
    assume r: "t \<noteq> [] \<and> item_ok i (hd t) \<and> prefix_in ((i, True) # ps, a) (tl t)"
    then obtain u v where "tl t = u @ v" "\<forall>x \<in> set u. item_ok i x" "prefix_in (ps, a) v" by (auto simp: prefix_in_Cons)
    with r show ?thesis unfolding prefix_in_Cons by (intro exI [of _ "hd t # u"] exI [of _ v]) (cases t; simp)
  qed
qed

lemma item_ok_of: "item_ok (item_of c) b \<longleftrightarrow> b = c \<or> c = of_char CHR ''.''"
  by (simp add: item_of_def)

lemma matchhere_lang:
  "matchhere re text \<longleftrightarrow> prefix_in (pattern_of re) text"
  "matchstar c re text \<longleftrightarrow> prefix_in ((item_of c, True) # fst (pattern_of re), snd (pattern_of re)) text"
proof (induction re "text" and c re "text" rule: matchhere_matchstar.induct)
  case (1 re tx)
  show ?case
  proof (cases re rule: pattern_of.cases)
    case 1
    then show ?thesis by (simp add: matchhere.simps prefix_in_Nil)
  next
    case (2 c)
    then show ?thesis
      by (auto simp: matchhere.simps [of "[c]"] prefix_in_Nil prefix_in_one item_ok_of matchhere.simps [of "[]"])
  next
    case (3 c d r)
    show ?thesis
    proof (cases "d = of_char CHR ''*''")
      case True
      with 1(1) [OF 3] show ?thesis unfolding 3 by (subst matchhere.simps) (auto split: prod.split)
    next
      case False
      with 1(2) [OF 3] show ?thesis unfolding 3
        by (subst matchhere.simps) (auto simp: prefix_in_one item_ok_of split: prod.split)
    qed
  qed
next
  case (2 c re tx)
  then show ?case
    by (subst matchstar.simps, subst prefix_in_star) (auto simp: item_ok_of)
qed

lemma match_anywhere_iff: "match_anywhere re t \<longleftrightarrow> (\<exists>pre post. t = pre @ post \<and> matchhere re post)"
proof (induction t)
  case (Cons b t)
  have "(\<exists>pre post. b # t = pre @ post \<and> matchhere re post)
      \<longleftrightarrow> matchhere re (b # t) \<or> (\<exists>pre post. t = pre @ post \<and> matchhere re post)"
    unfolding Cons_eq_append_conv by blast
  with Cons show ?case by simp
qed simp

section \<open>The lines of the input\<close>

text \<open>
  The complete lines of an input that continues the unfinished line \<open>acc\<close>, and what is left
  after the last newline.
\<close>

primrec lines :: "u8 list \<Rightarrow> u8 list \<Rightarrow> u8 list list" where
  "lines acc [] = []"
| "lines acc (b # bs) = (if b = 10 then acc # lines [] bs else lines (acc @ [b]) bs)"

primrec unfinished :: "u8 list \<Rightarrow> u8 list \<Rightarrow> u8 list" where
  "unfinished acc [] = acc"
| "unfinished acc (b # bs) = (if b = 10 then unfinished [] bs else unfinished (acc @ [b]) bs)"

definition selected :: "u8 list \<Rightarrow> u8 list list \<Rightarrow> u8 list" where
  "selected pattern ls = concat (map (\<lambda>l. l @ [10]) (filter (match pattern) ls))"

lemma lines_append: "lines acc (xs @ ys) = lines acc xs @ lines (unfinished acc xs) ys"
  by (induction xs arbitrary: acc) auto

lemma unfinished_append: "unfinished acc (xs @ ys) = unfinished (unfinished acc xs) ys"
  by (induction xs arbitrary: acc) auto

lemma lines_no_newline: "10 \<notin> set xs \<Longrightarrow> lines acc xs = [] \<and> unfinished acc xs = acc @ xs"
  by (induction xs arbitrary: acc) auto

lemma unfinished_ok: "10 \<notin> set acc \<Longrightarrow> 10 \<notin> set (unfinished acc xs)"
  by (induction xs arbitrary: acc) auto

lemma set_unfinished: "set (unfinished acc xs) \<subseteq> set acc \<union> set xs"
proof (induction xs arbitrary: acc)
  case (Cons b xs)
  from Cons [of "[]"] Cons [of "acc @ [b]"] show ?case by auto
qed simp

lemma lines_longer: "lines acc xs = [] \<or> length acc \<le> length (hd (lines acc xs))"
proof (induction xs arbitrary: acc)
  case (Cons b xs)
  from Cons [of "acc @ [b]"] show ?case by auto
qed simp

lemma selected_append: "selected pat (xs @ ys) = selected pat xs @ selected pat ys"
  by (simp add: selected_def)

lemma strchr_newline:
  "0 \<notin> set p \<Longrightarrow> strchr p 10 = None \<Longrightarrow> 10 \<notin> set p"
  "0 \<notin> set p \<Longrightarrow> strchr p 10 = Some (pre, post) \<Longrightarrow> 10 \<notin> set pre"
  by (induction p arbitrary: pre) (auto split: if_splits)

lemma grep_lines_eq: "0 \<notin> set p \<Longrightarrow> grep_lines pat p = (selected pat (lines [] p), unfinished [] p)"
proof (induction pat p rule: grep_lines.induct)
  case (1 pat p)
  show ?case
  proof (cases "strchr p 10")
    case None
    with 1(2) lines_no_newline strchr_newline(1) show ?thesis by (subst grep_lines.simps) (simp add: selected_def)
  next
    case (Some r)
    obtain l p' where r: "r = (l, p')" by fastforce
    with Some have s: "strchr p 10 = Some (l, p')" by simp
    then have p: "p = l @ 10 # p'" and l: "10 \<notin> set l" using strchr_Some strchr_newline(2) 1(2) by auto
    have IH: "grep_lines pat p' = (selected pat (lines [] p'), unfinished [] p')" using 1 Some r p by auto
    have "lines [] p = l # lines [] p'" "unfinished [] p = unfinished [] p'"
      using lines_no_newline [OF l, of "[]"] by (simp_all add: p lines_append unfinished_append)
    then show ?thesis by (subst grep_lines.simps) (simp add: s IH selected_def)
  qed
qed

section \<open>Input streams\<close>

locale input_stream =
  fixes rd :: "'f \<Rightarrow> nat \<Rightarrow> u8 list \<times> 'f" and inv :: "'f \<Rightarrow> bool" and content :: "'f \<Rightarrow> u8 list"
  assumes rd_law: "inv f \<Longrightarrow> rd f n = (bs, f') \<Longrightarrow> inv f' \<and> content f = bs @ content f' \<and> length bs \<le> n"
    and rd_end: "inv f \<Longrightarrow> rd f n = ([], f') \<Longrightarrow> n = 0 \<or> content f = []"
begin

lemma grep_run:
  "inv f \<Longrightarrow> 0 \<notin> set (buf @ content f) \<Longrightarrow> 10 \<notin> set buf \<Longrightarrow>
   \<forall>l \<in> set (lines buf (content f)). length l + 1 < GREP_BUF \<Longrightarrow> length (content f) < k \<Longrightarrow>
   grep rd k pat f buf = Some (selected pat (lines buf (content f)))"
proof (induction k arbitrary: f buf)
  case (Suc k)
  obtain bs f' where r: "rd f (GREP_BUF - length buf - 1) = (bs, f')" by fastforce
  note law = rd_law [OF Suc.prems(1) r]
  show ?case
  proof (cases "bs = []")
    case True
    then have "GREP_BUF - length buf - 1 = 0 \<or> content f = []" using rd_end Suc.prems(1) r by blast
    then have "lines buf (content f) = []"
    proof
      assume "GREP_BUF - length buf - 1 = 0"
      with lines_longer [of buf "content f"] Suc.prems(4) hd_in_set show ?thesis by fastforce
    qed simp
    with r True show ?thesis by (simp add: selected_def)
  next
    case False
    have c: "content f = bs @ content f'" using law by simp
    have u: "10 \<notin> set (unfinished buf bs)" "set (unfinished buf bs) \<subseteq> set buf \<union> set bs"
      using unfinished_ok [OF Suc.prems(3)] set_unfinished by auto
    have less: "length (content f') < k" using Suc.prems(5) c False by (cases bs) auto
    have n: "lines [] (buf @ bs) = lines buf bs" "unfinished [] (buf @ bs) = unfinished buf bs"
      using lines_no_newline [OF Suc.prems(3), of "[]"] by (simp_all add: lines_append unfinished_append)
    have "grep rd k pat f' (unfinished buf bs) = Some (selected pat (lines (unfinished buf bs) (content f')))"
      using Suc.prems(1-4) law less u c by (intro Suc.IH) (auto simp: lines_append)
    moreover have "grep_lines pat (buf @ bs) = (selected pat (lines buf bs), unfinished buf bs)"
      using grep_lines_eq [of "buf @ bs" pat] Suc.prems(2) c n by simp
    ultimately show ?thesis using r False by (simp add: c lines_append selected_append)
  qed
qed simp

end

text \<open>A pipe without a writer, as \<open>piperead\<close> takes bytes from it.\<close>

definition pipe_take :: "pipe \<Rightarrow> nat \<Rightarrow> u8 list \<times> pipe" where
  "pipe_take p n = (take n (pipe_contents p), (pipe_advance ^^ min n (pipe_count p)) p)"

interpretation ps: input_stream pipe_take pipe_inv pipe_contents
proof
  fix p n bs p' assume i: "pipe_inv p" and t: "pipe_take p n = (bs, p')"
  have bs: "bs = take (min n (pipe_count p)) (pipe_contents p)" and p': "p' = (pipe_advance ^^ min n (pipe_count p)) p"
    using t by (auto simp: pipe_take_def min_def)
  from pipe_advances [OF i, of "min n (pipe_count p)"] show "pipe_inv p' \<and> pipe_contents p = bs @ pipe_contents p' \<and> length bs \<le> n"
    unfolding bs p' by (simp add: append_take_drop_id)
next
  fix p n p' assume "pipe_inv p" "pipe_take p n = ([], p')"
  then show "n = 0 \<or> pipe_contents p = []" by (auto simp: pipe_take_def)
qed

section \<open>Properties\<close>

text \<open>
  C12. The matcher of \<open>grep\<close> decides the language of the pattern: \<open>match re t\<close> holds exactly when
  some part of the text belongs to the language of the items of the pattern, where \<open>.\<close> stands for
  any byte, \<open>*\<close> repeats the item before it, \<open>^\<close> at the front ties the part to the start of the
  text and \<open>$\<close> at the end ties it to the end.
\<close>

theorem grep_match_language:
  assumes "anchored \<longleftrightarrow> re \<noteq> [] \<and> hd re = of_char CHR ''^''"
    and "(items, tied) = pattern_of (if anchored then tl re else re)"
  shows "match re t \<longleftrightarrow> (\<exists>pre w post. t = pre @ w @ post \<and> w \<in> lang items
    \<and> (anchored \<longrightarrow> pre = []) \<and> (tied \<longrightarrow> post = []))"
proof (cases anchored)
  case True
  then have "match re t \<longleftrightarrow> prefix_in (items, tied) t" using assms by (simp add: match_def matchhere_lang(1))
  then show ?thesis using True by (simp add: prefix_in_def)
next
  case False
  then have "match re t \<longleftrightarrow> (\<exists>pre post. t = pre @ post \<and> prefix_in (items, tied) post)"
    using assms by (auto simp: match_def match_anywhere_iff matchhere_lang(1))
  also have "\<dots> \<longleftrightarrow> (\<exists>pre w post. t = pre @ w @ post \<and> w \<in> lang items \<and> (tied \<longrightarrow> post = []))"
    by (auto simp: prefix_in_def)
  finally show ?thesis using False by simp
qed

theorem grep_match_language_witness:
  "\<exists>pre w post. [120, 97, 98, 98, 99] = pre @ w @ post \<and> w \<in> lang [(Lit 97, False), (Lit 98, True), (AnyByte, False)]
     \<and> post = []"
proof -
  let ?re = "[97, 98, 42, 46, 36] :: u8 list" and ?t = "[120, 97, 98, 98, 99] :: u8 list"
  have m: "match ?re ?t" by (simp add: match_def matchhere.simps matchstar.simps)
  have a: "False \<longleftrightarrow> ?re \<noteq> [] \<and> hd ?re = of_char CHR ''^''" by simp
  have "([(Lit 97, False), (Lit 98, True), (AnyByte, False)], True) = pattern_of (if False then tl ?re else ?re)"
    by (simp add: item_of_def)
  from grep_match_language [OF a this, of ?t] m show ?thesis by (simp only: simp_thms)
qed



end
