(* ===== verification/Spec2Isabelle.thy ===== *)
theory Spec2Isabelle
  imports Faults Tty Fdtab Inode Drawing Grep
begin

text \<open>
  Verification library for the xv6-riscv kernel with framebuffer and animation support.
\<close>

end
